(* ===== verification/Xv6_Prelude.thy ===== *)
theory Xv6_Prelude
  imports Main "HOL-Library.Word" "HOL-Library.While_Combinator"
begin

unbundle bit_operations_syntax

text \<open>
  What every component of the development shares: the names of the C integer types
  (\<^verbatim>\<open>kernel/types.h\<close>), the outcome of a kernel function, little-endian access to byte
  arrays, and the collections of rewrite rules the component theories extend.
\<close>

section \<open>Machine integers\<close>

type_synonym u8 = "8 word"
type_synonym u16 = "16 word"
type_synonym u32 = "32 word"
type_synonym u64 = "64 word"

text \<open>Byte-addressed memory, and the content of one byte array such as a disk block.\<close>

type_synonym memory = "u64 \<Rightarrow> u8"
type_synonym bytes = "nat \<Rightarrow> u8"

section \<open>Outcomes of kernel code\<close>

text \<open>
  A kernel function returns (\<open>Ok\<close>), calls \<^verbatim>\<open>panic\<close> (\<open>Panic\<close> with the message),
  goes to sleep waiting for another thread (\<open>Block\<close>), or stays in a loop forever
  (\<open>Loop\<close>). A function that only changes the state returns the new state; one that also has
  a C return value returns the pair of the value and the state.
\<close>

datatype 'a res = Ok 'a | Panic string | Block | Loop

fun bindr :: "'a res \<Rightarrow> ('a \<Rightarrow> 'b res) \<Rightarrow> 'b res" where
  "bindr (Ok x) f = f x"
| "bindr (Panic m) f = Panic m"
| "bindr Block f = Block"
| "bindr Loop f = Loop"

fun returns :: "'a res \<Rightarrow> bool" where
  "returns (Ok x) = True"
| "returns _ = False"

named_theorems frame \<open>a state after an operation, as an update of the fields it may write\<close>
named_theorems ring_simps \<open>field updates of linked list nodes\<close>

lemma bindr_Ok_iff [simp]: "bindr m f = Ok y \<longleftrightarrow> (\<exists>x. m = Ok x \<and> f x = Ok y)"
  by (cases m) auto

lemma Ok_bindr_iff [simp]: "Ok y = bindr m f \<longleftrightarrow> (\<exists>x. m = Ok x \<and> f x = Ok y)"
  by (cases m) auto

lemma bindr_assoc: "bindr (bindr m f) g = bindr m (\<lambda>x. bindr (f x) g)"
  by (cases m) auto

lemma bindr_Ok_right [simp]: "bindr m Ok = m"
  by (cases m) auto

lemma returns_iff: "returns m \<longleftrightarrow> (\<exists>x. m = Ok x)"
  by (cases m) auto

lemma bindr_cong [fundef_cong]:
  "m = m' \<Longrightarrow> (\<And>x. m' = Ok x \<Longrightarrow> f x = f' x) \<Longrightarrow> bindr m f = bindr m' f'"
  by (cases m') auto

text \<open>
  An unbounded loop. The body returns \<open>Inl\<close> of the next state to go round again and \<open>Inr\<close> of
  the result to leave; a loop that is never left has the outcome \<open>Loop\<close>.
\<close>

partial_function (option) loop_opt :: "('s \<Rightarrow> ('s + 'r) res) \<Rightarrow> 's \<Rightarrow> 'r res option" where
  "loop_opt body s =
     (case body s of
        Ok (Inl t) \<Rightarrow> loop_opt body t
      | Ok (Inr r) \<Rightarrow> Some (Ok r)
      | Panic m \<Rightarrow> Some (Panic m)
      | Block \<Rightarrow> Some Block
      | Loop \<Rightarrow> Some Loop)"

declare loop_opt.simps [code]

definition endless :: "'a res option \<Rightarrow> 'a res" where
  "endless r = (case r of None \<Rightarrow> Loop | Some x \<Rightarrow> x)"

definition loopr :: "('s \<Rightarrow> ('s + 'r) res) \<Rightarrow> 's \<Rightarrow> 'r res" where
  "loopr body s = endless (loop_opt body s)"

lemma loopr_unfold: "loopr body s = bindr (body s) (case_sum (loopr body) Ok)"
  unfolding loopr_def endless_def
  by (subst loop_opt.simps) (auto split: res.splits sum.splits option.splits)

lemma loopr_total:
  assumes "wf R" "I s"
    and "\<And>s. I s \<Longrightarrow> (\<exists>t. body s = Ok (Inl t) \<and> I t \<and> (t, s) \<in> R) \<or> (\<exists>x. body s = Ok (Inr x) \<and> Q x)"
  shows "\<exists>x. loopr body s = Ok x \<and> Q x"
  using assms(1,2)
proof (induction s rule: wf_induct_rule)
  case (less s)
  from assms(3) [OF less.prems] show ?case
  proof (elim disjE exE conjE)
    fix t assume "body s = Ok (Inl t)" "I t" "(t, s) \<in> R"
    with less.IH [of t] show ?thesis by (simp add: loopr_unfold [of body s])
  next
    fix x assume "body s = Ok (Inr x)" "Q x"
    then show ?thesis by (simp add: loopr_unfold [of body s])
  qed
qed

text \<open>Every turn of a loop goes on: the loop is never left.\<close>

lemma loopr_diverges:
  assumes "I s" and step: "\<And>s. I s \<Longrightarrow> \<exists>t. body s = Ok (Inl t) \<and> I t"
  shows "loopr body s = Loop"
proof -
  have "b = body \<longrightarrow> \<not> I t" if "loop_opt b t = Some r" for b t r
  proof (rule loop_opt.raw_induct [OF _ that, of "\<lambda>b t r. b = body \<longrightarrow> \<not> I t"], intro impI notI)
    fix f b s y
    assume IH: "\<And>b t y. f b t = Some y \<Longrightarrow> b = body \<longrightarrow> \<not> I t"
      and eq: "(case b s of Ok (Inl t) \<Rightarrow> f b t | Ok (Inr r) \<Rightarrow> Some (Ok r) | Panic m \<Rightarrow> Some (Panic m)
        | Block \<Rightarrow> Some Block | Loop \<Rightarrow> Some Loop) = Some y" and b: "b = body" and "I s"
    with step obtain t where "body s = Ok (Inl t)" "I t" by blast
    with eq b IH [of b t y] show False by simp
  qed
  then have "loop_opt body s = None" using assms(1) by (cases "loop_opt body s") auto
  then show ?thesis by (simp add: loopr_def endless_def)
qed

text \<open>A loop that returns has been left by a turn that gives its result, from a state that satisfies every invariant.\<close>

lemma loopr_exit:
  assumes "loopr body s = Ok r" "I s" and step: "\<And>s t. I s \<Longrightarrow> body s = Ok (Inl t) \<Longrightarrow> I t"
  shows "\<exists>t. I t \<and> body t = Ok (Inr r)"
proof -
  let ?Q = "\<lambda>b s x. b = body \<longrightarrow> x = Ok r \<longrightarrow> I s \<longrightarrow> (\<exists>t. I t \<and> body t = Ok (Inr r))"
  have "?Q b t x" if "loop_opt b t = Some x" for b t x
  proof (rule loop_opt.raw_induct [OF _ that, of ?Q], intro impI)
    fix f b s y
    assume IH: "\<And>b t y. f b t = Some y \<Longrightarrow> ?Q b t y"
      and eq: "(case b s of Ok (Inl t) \<Rightarrow> f b t | Ok (Inr r) \<Rightarrow> Some (Ok r) | Panic m \<Rightarrow> Some (Panic m)
        | Block \<Rightarrow> Some Block | Loop \<Rightarrow> Some Loop) = Some y" and b: "b = body" and y: "y = Ok r" and I: "I s"
    show "\<exists>t. I t \<and> body t = Ok (Inr r)"
    proof (cases "\<exists>t. body s = Ok (Inl t)")
      case True
      then obtain t where "body s = Ok (Inl t)" ..
      then show ?thesis using IH [of b t y] step [OF I] eq b y by simp
    next
      case False
      then have "body s = Ok (Inr r)" using eq b y by (auto split: res.splits sum.splits)
      then show ?thesis using I by blast
    qed
  qed
  moreover have "loop_opt body s = Some (Ok r)" using assms by (auto simp: loopr_def endless_def split: option.splits)
  ultimately show ?thesis using assms(2) by blast
qed

section \<open>Little-endian access to byte arrays\<close>

fun rd_bytes :: "nat \<Rightarrow> bytes \<Rightarrow> 'a::len word" where
  "rd_bytes 0 f = 0"
| "rd_bytes (Suc n) f = rd_bytes n f OR push_bit (8 * n) (ucast (f n))"

lemma bit_rd_bytes:
  "bit (rd_bytes n f :: 'a::len word) k \<longleftrightarrow>
     k < 8 * n \<and> k < LENGTH('a) \<and> bit (f (k div 8)) (k mod 8)"
proof (induction n)
  case 0
  then show ?case by simp
next
  case (Suc n)
  have "bit (push_bit (8 * n) (ucast (f n)) :: 'a word) k \<longleftrightarrow>
        8 * n \<le> k \<and> k < 8 * Suc n \<and> k < LENGTH('a) \<and> bit (f (k div 8)) (k mod 8)"
  proof (cases "8 * n \<le> k \<and> k < 8 * Suc n")
    case True
    define r where "r = k - 8 * n"
    have "k = 8 * n + r" using True by (simp add: r_def)
    moreover have "r < 8" using True unfolding r_def by (simp add: less_diff_conv2)
    ultimately show ?thesis by (auto simp: bit_simps)
  next
    case False
    then show ?thesis by (auto simp: bit_simps dest: bit_imp_le_length)
  qed
  with Suc show ?case by (auto simp: bit_simps)
qed

lemma rd_bytes_cong: "(\<And>i. i < n \<Longrightarrow> f i = g i) \<Longrightarrow> rd_bytes n f = rd_bytes n g"
  by (induction n) auto

definition ld64 :: "memory \<Rightarrow> u64 \<Rightarrow> u64" where
  "ld64 m a = rd_bytes 8 (\<lambda>i. m (a + of_nat i))"

definition st64 :: "memory \<Rightarrow> u64 \<Rightarrow> u64 \<Rightarrow> memory" where
  "st64 m a v = (\<lambda>x. if x - a < 8 then ucast (drop_bit (8 * unat (x - a)) v) else m x)"

text \<open>Bytes \<open>f 0, \<dots>, f (n - 1)\<close> stored at address \<open>d\<close>, and the bytes found at an address.\<close>

definition mem_write :: "memory \<Rightarrow> u64 \<Rightarrow> bytes \<Rightarrow> nat \<Rightarrow> memory" where
  "mem_write m d f n = (\<lambda>a. if unat (a - d) < n then f (unat (a - d)) else m a)"

definition mem_read :: "memory \<Rightarrow> u64 \<Rightarrow> bytes" where
  "mem_read m s = (\<lambda>i. m (s + of_nat i))"

lemma unat_of_nat_u64: "i < 2 ^ 64 \<Longrightarrow> unat (of_nat i :: u64) = i"
  by (simp add: unat_of_nat take_bit_nat_eq_self)

lemma st64_byte: "i < 8 \<Longrightarrow> st64 m a v (a + of_nat i) = ucast (drop_bit (8 * i) v)"
proof -
  assume i: "i < 8"
  then have u: "unat (of_nat i :: u64) = i" by (simp add: unat_of_nat_u64)
  with i have "(of_nat i :: u64) < 8" by (simp add: word_less_nat_alt)
  with u show ?thesis by (simp add: st64_def)
qed

lemma ld64_st64_same [simp]: "ld64 (st64 m a v) a = v"
proof (rule bit_word_eqI)
  fix n assume n: "n < LENGTH(64)"
  then have k: "n div 8 < 8" "8 * (n div 8) + n mod 8 = n" by simp_all
  show "bit (ld64 (st64 m a v) a) n = bit v n"
    using n k by (simp add: ld64_def bit_rd_bytes st64_byte bit_simps)
qed

definition disj8 :: "u64 \<Rightarrow> u64 \<Rightarrow> bool" where
  "disj8 a b \<longleftrightarrow> 8 \<le> a - b \<and> 8 \<le> b - a"

lemma ld64_cong: "(\<And>i. i < 8 \<Longrightarrow> m (a + of_nat i) = m' (a + of_nat i)) \<Longrightarrow> ld64 m a = ld64 m' a"
  unfolding ld64_def by (rule rd_bytes_cong) auto

lemma unat_uminus: "d \<noteq> 0 \<Longrightarrow> unat (- d :: 'a::len word) = 2 ^ LENGTH('a) - unat d"
proof -
  assume d: "d \<noteq> 0"
  have "unat (- d) = nat ((- uint d) mod 2 ^ LENGTH('a))"
    by (simp flip: nat_uint_eq add: uint_word_ariths)
  also have "(- uint d) mod 2 ^ LENGTH('a) = 2 ^ LENGTH('a) - uint d"
    using d uint_lt2p [of d] uint_nonnegative [of d]
    by (simp add: zmod_zminus1_eq_if) (metis uint_0_iff)
  finally show ?thesis
    by (simp flip: nat_uint_eq add: nat_diff_distrib' nat_power_eq)
qed

lemma word_sub_small:
  fixes d e :: u64
  assumes "8 \<le> d" "8 \<le> - d" "e < 8"
  shows "\<not> d + e < 8"
proof -
  have "d \<noteq> 0" using assms(1) by auto
  then have "unat d + unat e < 2^64" using assms by (simp add: word_le_nat_alt word_less_nat_alt unat_uminus)
  then have "unat (d + e) = unat d + unat e" by (simp add: unat_word_ariths)
  with assms show ?thesis by (simp add: word_le_nat_alt word_less_nat_alt)
qed

lemma ld64_st64_other: "disj8 a b \<Longrightarrow> ld64 (st64 m a v) b = ld64 m b"
proof (rule ld64_cong)
  fix i :: nat assume d: "disj8 a b" and i: "i < 8"
  have e: "(of_nat i :: u64) < 8" using i by (simp add: word_less_nat_alt unat_of_nat_u64)
  have "b - a + of_nat i = (b + of_nat i) - a" by simp
  with word_sub_small [of "b - a" "of_nat i"] d e have "\<not> (b + of_nat i) - a < 8"
    by (simp add: disj8_def)
  then show "st64 m a v (b + of_nat i) = m (b + of_nat i)" by (simp add: st64_def)
qed

end
