(* ===== verification/Riscv.thy ===== *)
theory Riscv
  imports Xv6_Prelude
begin

text \<open>
  The constants and macros of \<^verbatim>\<open>kernel/riscv.h\<close>, \<^verbatim>\<open>kernel/memlayout.h\<close>,
  \<^verbatim>\<open>kernel/param.h\<close> and \<^verbatim>\<open>kernel/fs.h\<close> on 64-bit words: page rounding, page table entries,
  the three 9-bit indices of an Sv39 virtual address.
\<close>

section \<open>Parameters\<close>

abbreviation (input) PGSIZE :: "'a::numeral" where "PGSIZE \<equiv> 4096"
abbreviation (input) BSIZE :: "'a::numeral" where "BSIZE \<equiv> 1024"
abbreviation (input) NBUF :: "'a::numeral" where "NBUF \<equiv> 30"
abbreviation (input) NPROC :: "'a::numeral" where "NPROC \<equiv> 64"
abbreviation (input) SWAPBASE :: "'a::numeral" where "SWAPBASE \<equiv> 2000"
abbreviation (input) SWAPMAX :: "'a::numeral" where "SWAPMAX \<equiv> 28000"
abbreviation (input) KERNBASE :: "'a::numeral" where "KERNBASE \<equiv> 0x80000000"
abbreviation (input) PHYSTOP :: "'a::numeral" where "PHYSTOP \<equiv> 0x88000000"
abbreviation (input) MAXVA :: "'a::numeral" where "MAXVA \<equiv> 0x4000000000"
abbreviation (input) TRAMPOLINE :: "'a::numeral" where "TRAMPOLINE \<equiv> 0x3FFFFFF000"
abbreviation (input) TRAPFRAME :: "'a::numeral" where "TRAPFRAME \<equiv> 0x3FFFFFE000"

section \<open>Page rounding\<close>

definition PGROUNDUP :: "u64 \<Rightarrow> u64" where
  "PGROUNDUP sz = (sz + PGSIZE - 1) AND NOT (PGSIZE - 1)"

definition PGROUNDDOWN :: "u64 \<Rightarrow> u64" where
  "PGROUNDDOWN a = a AND NOT (PGSIZE - 1)"

section \<open>Page table entries\<close>

abbreviation (input) PTE_V :: u64 where "PTE_V \<equiv> 1"
abbreviation (input) PTE_R :: u64 where "PTE_R \<equiv> 2"
abbreviation (input) PTE_W :: u64 where "PTE_W \<equiv> 4"
abbreviation (input) PTE_X :: u64 where "PTE_X \<equiv> 8"
abbreviation (input) PTE_U :: u64 where "PTE_U \<equiv> 16"
abbreviation (input) PTE_A :: u64 where "PTE_A \<equiv> 64"
abbreviation (input) PTE_SWAPPED :: u64 where "PTE_SWAPPED \<equiv> 512"

definition PA2PTE :: "u64 \<Rightarrow> u64" where
  "PA2PTE pa = push_bit 10 (drop_bit 12 pa)"

definition PTE2PA :: "u64 \<Rightarrow> u64" where
  "PTE2PA pte = push_bit 12 (drop_bit 10 pte)"

definition PTE_FLAGS :: "u64 \<Rightarrow> u64" where
  "PTE_FLAGS pte = pte AND 0x3FF"

definition PX :: "nat \<Rightarrow> u64 \<Rightarrow> u64" where
  "PX level va = drop_bit (12 + 9 * level) va AND 0x1FF"

definition MAKE_SATP :: "u64 \<Rightarrow> u64" where
  "MAKE_SATP pagetable = push_bit 60 8 OR drop_bit 12 pagetable"

section \<open>Bits of the macros\<close>

lemma bit_above:
  assumes "unat w < 2 ^ k" and "bit (w :: 'a::len word) n"
  shows "n < k"
proof -
  have "take_bit k (unat w) = unat w" using assms(1) by (rule take_bit_nat_eq_self)
  moreover have "bit (unat w) n" using assms(2) by (simp add: bit_unsigned_iff)
  ultimately show ?thesis by (metis bit_take_bit_iff)
qed

lemma not_bit_above: "unat w < 2 ^ k \<Longrightarrow> k \<le> n \<Longrightarrow> \<not> bit (w :: 'a::len word) n"
  using bit_above by fastforce

lemma unat_less_if_bits:
  assumes "\<And>n. bit (w :: 'a::len word) n \<Longrightarrow> n < k"
  shows "unat w < 2 ^ k"
proof -
  have "take_bit k w = w"
    by (rule bit_word_eqI) (use assms in \<open>auto simp: bit_simps\<close>)
  then have "take_bit k (unat w) = unat w" by (metis unsigned_take_bit_eq)
  then show ?thesis by (metis take_bit_nat_less_exp)
qed

named_theorems macro_bits \<open>bits of the page table macros\<close>

lemma bit_PGROUNDDOWN [macro_bits]: "bit (PGROUNDDOWN a) n \<longleftrightarrow> 12 \<le> n \<and> bit a n"
proof -
  have "PGROUNDDOWN a = a AND NOT (mask 12)"
    by (simp add: PGROUNDDOWN_def mask_eq_exp_minus_1)
  then show ?thesis by (auto simp: bit_simps not_less dest: bit_imp_le_length)
qed

lemma bit_PA2PTE [macro_bits]: "bit (PA2PTE pa) n \<longleftrightarrow> 10 \<le> n \<and> n < 64 \<and> bit pa (n + 2)"
  by (auto simp: PA2PTE_def bit_simps)

lemma bit_PTE2PA [macro_bits]: "bit (PTE2PA p) n \<longleftrightarrow> 12 \<le> n \<and> n < 64 \<and> bit p (n - 2)"
  by (auto simp: PTE2PA_def bit_simps)

lemma bit_PTE_FLAGS [macro_bits]: "bit (PTE_FLAGS p) n \<longleftrightarrow> n < 10 \<and> bit p n"
proof -
  have "PTE_FLAGS p = p AND mask 10" by (simp add: PTE_FLAGS_def mask_eq_exp_minus_1)
  then show ?thesis by (auto simp: bit_simps)
qed

lemma bit_PX [macro_bits]: "bit (PX l va) n \<longleftrightarrow> n < 9 \<and> bit va (12 + 9 * l + n)"
proof -
  have "PX l va = drop_bit (12 + 9 * l) va AND mask 9"
    by (simp add: PX_def mask_eq_exp_minus_1)
  then show ?thesis by (auto simp: bit_simps add.commute)
qed

section \<open>Aligned addresses and pages\<close>

definition pg_aligned :: "u64 \<Rightarrow> bool" where
  "pg_aligned a \<longleftrightarrow> a mod PGSIZE = 0"

lemma mod_PGSIZE: "a mod PGSIZE = take_bit 12 (a :: u64)"
  by (simp add: take_bit_eq_mod)

lemma pg_aligned_iff: "pg_aligned a \<longleftrightarrow> (\<forall>n < 12. \<not> bit (a :: u64) n)"
  unfolding pg_aligned_def mod_PGSIZE by (auto simp: bit_eq_iff bit_simps)

lemma pg_aligned_bit: "pg_aligned a \<Longrightarrow> bit (a :: u64) n \<Longrightarrow> 12 \<le> n"
  by (meson not_le pg_aligned_iff)

lemma PGROUNDDOWN_aligned [simp]: "pg_aligned (PGROUNDDOWN a)"
  by (simp add: pg_aligned_iff macro_bits)

lemma PGROUNDDOWN_id: "pg_aligned a \<Longrightarrow> PGROUNDDOWN a = a"
  by (rule bit_word_eqI) (auto simp: macro_bits dest: pg_aligned_bit)

lemma PTE2PA_aligned [simp]: "pg_aligned (PTE2PA p)"
  by (simp add: pg_aligned_iff macro_bits)

lemma PTE2PA_PA2PTE:
  assumes "pg_aligned pa" "unat f < 1024"
  shows "PTE2PA (PA2PTE pa OR f) = pa"
proof (rule bit_word_eqI)
  fix n
  have "\<not> bit f m" if "10 \<le> m" for m
    using not_bit_above [of f 10] assms(2) that by simp
  moreover have "Suc (Suc (n - 2)) = n" if "12 \<le> n" using that by simp
  ultimately show "bit (PTE2PA (PA2PTE pa OR f)) n = bit pa n"
    using pg_aligned_bit [OF assms(1), of n] by (auto simp: macro_bits bit_simps dest: bit_imp_le_length)
qed

lemma PTE_FLAGS_PA2PTE:
  assumes "unat f < 1024"
  shows "PTE_FLAGS (PA2PTE pa OR f) = f"
proof (rule bit_word_eqI)
  fix n
  show "bit (PTE_FLAGS (PA2PTE pa OR f)) n = bit f n"
    using bit_above [of f 10 n] assms by (auto simp: macro_bits bit_simps)
qed

lemma PTE_FLAGS_less: "unat (PTE_FLAGS p) < 1024"
  using unat_less_if_bits [of "PTE_FLAGS p" 10] by (simp add: macro_bits)

text \<open>An address is its page plus an offset below the page size.\<close>

lemma PGROUNDDOWN_split: "PGROUNDDOWN a + a mod PGSIZE = a"
proof -
  have "PGROUNDDOWN a = a - take_bit 12 a"
  proof -
    have "PGROUNDDOWN a + take_bit 12 a = PGROUNDDOWN a OR take_bit 12 a"
      by (rule disjunctive_add) (auto simp: macro_bits bit_simps)
    also have "\<dots> = a" by (rule bit_word_eqI) (auto simp: macro_bits bit_simps)
    finally show ?thesis by (simp add: eq_diff_eq)
  qed
  then show ?thesis by (simp add: mod_PGSIZE)
qed

lemma minus_PGROUNDDOWN: "a - PGROUNDDOWN a = a mod PGSIZE"
  using PGROUNDDOWN_split [of a] by (simp add: algebra_simps)

lemma page_offset:
  assumes "pg_aligned p" "off < PGSIZE"
  shows "PGROUNDDOWN (p + off) = p" "(p + off) mod PGSIZE = off"
proof -
  have o: "unat off < 2 ^ 12" using assms(2) by (simp add: word_less_nat_alt)
  have "p + off = p OR off"
    by (rule disjunctive_add) (use bit_above [OF o] pg_aligned_bit [OF assms(1)] in force)
  then show "PGROUNDDOWN (p + off) = p"
    by (intro bit_word_eqI)
      (use bit_above [OF o] pg_aligned_bit [OF assms(1)] in \<open>fastforce simp: macro_bits bit_simps\<close>)
  then show "(p + off) mod PGSIZE = off"
    using PGROUNDDOWN_split [of "p + off"] by simp
qed

end
