(* ===== verification/Locks.thy ===== *)
theory Locks
  imports Riscv
begin

text \<open>
  The bottom layer of the kernel state: the process table (\<^verbatim>\<open>kernel/proc.h\<close>), the spinlocks
  the running kernel thread holds, and the state of the sleep locks.

  A component runs as one kernel thread at a time. \<open>held\<close> lists the spinlocks this thread
  holds; \<open>acquire\<close> and \<open>release\<close> are the contract of \<^verbatim>\<open>kernel/spinlock.c\<close> as such a thread
  sees it. The theory \<open>Spinlock\<close> models the code of that file for all CPUs and proves that it
  meets this contract.
\<close>

section \<open>Locks, channels and processes\<close>

text \<open>The sleep locks of the kernel: one per buffer and one per in-memory inode.\<close>

datatype slock = Buf_slock nat | Inode_slock nat

text \<open>The spinlocks of the kernel, by the variable that holds them.\<close>

datatype lock =
    Kmem_lock | Lru_lock | Swap_lock | Bcache_lock | Vdisk_lock | Sleep_lk slock
  | Log_lock | Itable_lock | Ftable_lock | Proc_lock nat | Wait_lock | Pid_lock
  | Ticks_lock | Cons_lock | Uart_lock | Pipe_lock u64

text \<open>The addresses processes sleep on.\<close>

datatype chan =
    Chan_slock slock | Chan_buf nat | Chan_disk | Chan_log | Chan_proc nat | Chan_ticks
  | Chan_pipe_nread u64 | Chan_pipe_nwrite u64 | Chan_cons | Chan_uart

datatype procstate = UNUSED | USED | SLEEPING | RUNNABLE | RUNNING | ZOMBIE

record pcontext =
  ra :: u64
  sp :: u64
  s_regs :: "nat \<Rightarrow> u64"

record proc =
  p_state :: procstate
  p_chan :: "chan option"
  p_killed :: int
  p_xstate :: int
  p_pid :: int
  p_parent :: "nat option"
  p_kstack :: u64
  p_sz :: u64
  p_pagetable :: u64
  p_trapframe :: u64
  p_context :: pcontext
  p_ofile :: "nat \<Rightarrow> nat option"
  p_cwd :: "nat option"
  p_name :: "u8 list"

record sched_st =
  held :: "lock list"
  cur :: "nat option"
  ptab :: "nat \<Rightarrow> proc"

section \<open>Spinlocks as a kernel thread sees them\<close>

definition acquire :: "lock \<Rightarrow> 'a sched_st_scheme \<Rightarrow> 'a sched_st_scheme res" where
  "acquire lk s =
     (if lk \<in> set (held s) then Panic ''acquire'' else Ok (s\<lparr>held := lk # held s\<rparr>))"

definition release :: "lock \<Rightarrow> 'a sched_st_scheme \<Rightarrow> 'a sched_st_scheme res" where
  "release lk s =
     (if lk \<notin> set (held s) then Panic ''release'' else Ok (s\<lparr>held := remove1 lk (held s)\<rparr>))"

lemma acquire_free [simp]: "lk \<notin> set (held s) \<Longrightarrow> acquire lk s = Ok (s\<lparr>held := lk # held s\<rparr>)"
  by (simp add: acquire_def)

lemma release_held [simp]: "lk \<in> set (held s) \<Longrightarrow> release lk s = Ok (s\<lparr>held := remove1 lk (held s)\<rparr>)"
  by (simp add: release_def)

section \<open>wakeup\<close>

definition sleeping_on :: "chan \<Rightarrow> proc \<Rightarrow> bool" where
  "sleeping_on ch p \<longleftrightarrow> p_state p = SLEEPING \<and> p_chan p = Some ch"

fun wakeup_loop :: "chan \<Rightarrow> nat list \<Rightarrow> 'a sched_st_scheme \<Rightarrow> 'a sched_st_scheme res" where
  "wakeup_loop ch [] s = Ok s"
| "wakeup_loop ch (p # ps) s =
     (if Some p \<noteq> cur s then
        bindr (acquire (Proc_lock p) s) (\<lambda>s.
        let s = (if sleeping_on ch (ptab s p)
                 then s\<lparr>ptab := (ptab s)(p := (ptab s p)\<lparr>p_state := RUNNABLE\<rparr>)\<rparr> else s) in
        bindr (release (Proc_lock p) s) (wakeup_loop ch ps))
      else wakeup_loop ch ps s)"

definition wakeup :: "chan \<Rightarrow> 'a sched_st_scheme \<Rightarrow> 'a sched_st_scheme res" where
  "wakeup ch s = wakeup_loop ch [0..<NPROC] s"

text \<open>The process table after \<open>wakeup\<close>: every other process that slept on the channel is runnable.\<close>

definition woken :: "chan \<Rightarrow> nat set \<Rightarrow> 'a sched_st_scheme \<Rightarrow> nat \<Rightarrow> proc" where
  "woken ch P s = (\<lambda>p. if p \<in> P \<and> Some p \<noteq> cur s \<and> sleeping_on ch (ptab s p)
                       then (ptab s p)\<lparr>p_state := RUNNABLE\<rparr> else ptab s p)"

definition no_proc_lock :: "'a sched_st_scheme \<Rightarrow> bool" where
  "no_proc_lock s \<longleftrightarrow> (\<forall>p < NPROC. Proc_lock p \<notin> set (held s))"

lemma wakeup_loop_spec:
  "distinct ps \<Longrightarrow> (\<forall>p \<in> set ps. Proc_lock p \<notin> set (held s)) \<Longrightarrow>
   wakeup_loop ch ps s = Ok (s\<lparr>ptab := woken ch (set ps) s\<rparr>)"
proof (induction ps arbitrary: s)
  case Nil
  then show ?case by (simp add: woken_def)
next
  case (Cons p ps)
  then show ?case
    by (auto simp: Let_def woken_def sleeping_on_def fun_eq_iff intro!: arg_cong [where f = "\<lambda>t. s\<lparr>ptab := t\<rparr>"])
qed

lemma wakeup_spec:
  "no_proc_lock s \<Longrightarrow> wakeup ch s = Ok (s\<lparr>ptab := woken ch {..<NPROC} s\<rparr>)"
  unfolding wakeup_def by (subst wakeup_loop_spec) (auto simp: no_proc_lock_def lessThan_atLeast0)

section \<open>The next layers of the state\<close>

record sleeplock =
  sl_locked :: bool
  sl_pid :: int

record sleep_st = sched_st +
  slocks :: "slock \<Rightarrow> sleeplock"

text \<open>The next layer of the state: physical memory, which the kernel maps one to one.\<close>

record mem_st = sleep_st +
  mem :: memory

end
