(* ===== verification/Sched.thy ===== *)
theory Sched
  imports Locks
begin

text \<open>
  Giving up and getting back the CPU (\<^verbatim>\<open>kernel/proc.c\<close>). The context switch \<^verbatim>\<open>swtch\<close> is assembly:
  \<open>others\<close> stands for all that runs between the moment a thread leaves the CPU in \<^verbatim>\<open>sched\<close> and the
  moment it is back. \<open>run\<close> stands for a process that runs until it calls \<^verbatim>\<open>sched\<close>.
\<close>

section \<open>Operations\<close>

definition upd_proc :: "nat \<Rightarrow> (proc \<Rightarrow> proc) \<Rightarrow> 'a sched_st_scheme \<Rightarrow> 'a sched_st_scheme" where
  "upd_proc p f s = s\<lparr>ptab := (ptab s)(p := f (ptab s p))\<rparr>"

definition myproc :: "'a sched_st_scheme \<Rightarrow> nat res" where
  "myproc s = (case cur s of None \<Rightarrow> Panic ''kerneltrap'' | Some p \<Rightarrow> Ok p)"

text \<open>\<^verbatim>\<open>mycpu()->noff\<close> is the number of spinlocks the thread holds; interrupts are off while it
  holds one.\<close>

definition sched :: "('a sched_st_scheme \<Rightarrow> 'a sched_st_scheme res) \<Rightarrow> 'a sched_st_scheme \<Rightarrow> 'a sched_st_scheme res" where
  "sched others s =
     bindr (myproc s) (\<lambda>p.
     if Proc_lock p \<notin> set (held s) then Panic ''sched p->lock''
     else if length (held s) \<noteq> 1 then Panic ''sched locks''
     else if p_state (ptab s p) = RUNNING then Panic ''sched running''
     else if held s = [] then Panic ''sched interruptible''
     else others s)"

definition yield :: "('a sched_st_scheme \<Rightarrow> 'a sched_st_scheme res) \<Rightarrow> 'a sched_st_scheme \<Rightarrow> 'a sched_st_scheme res" where
  "yield others s =
     bindr (myproc s) (\<lambda>p.
     bindr (acquire (Proc_lock p) s) (\<lambda>s.
     bindr (sched others (upd_proc p (p_state_update (\<lambda>_. RUNNABLE)) s)) (\<lambda>s.
     release (Proc_lock p) s)))"

definition sleep :: "('a sched_st_scheme \<Rightarrow> 'a sched_st_scheme res) \<Rightarrow> chan \<Rightarrow> lock \<Rightarrow> 'a sched_st_scheme \<Rightarrow> 'a sched_st_scheme res" where
  "sleep others ch lk s =
     bindr (myproc s) (\<lambda>p.
     bindr (acquire (Proc_lock p) s) (\<lambda>s.
     bindr (release lk s) (\<lambda>s.
     let s = upd_proc p (p_chan_update (\<lambda>_. Some ch)) s;
         s = upd_proc p (p_state_update (\<lambda>_. SLEEPING)) s in
     bindr (sched others s) (\<lambda>s.
     let s = upd_proc p (p_chan_update (\<lambda>_. None)) s in
     bindr (release (Proc_lock p) s) (\<lambda>s.
     acquire lk s)))))"

fun kill_loop :: "nat list \<Rightarrow> int \<Rightarrow> 'a sched_st_scheme \<Rightarrow> (int \<times> 'a sched_st_scheme) res" where
  "kill_loop [] pid s = Ok (-1, s)"
| "kill_loop (p # ps) pid s =
     bindr (acquire (Proc_lock p) s) (\<lambda>s.
     if p_pid (ptab s p) = pid then
       let s = upd_proc p (p_killed_update (\<lambda>_. 1)) s;
           s = (if p_state (ptab s p) = SLEEPING then upd_proc p (p_state_update (\<lambda>_. RUNNABLE)) s else s) in
       bindr (release (Proc_lock p) s) (\<lambda>s. Ok (0, s))
     else bindr (release (Proc_lock p) s) (kill_loop ps pid))"

definition kill :: "int \<Rightarrow> 'a sched_st_scheme \<Rightarrow> (int \<times> 'a sched_st_scheme) res" where
  "kill pid s = kill_loop [0..<NPROC] pid s"

definition setkilled :: "nat \<Rightarrow> 'a sched_st_scheme \<Rightarrow> 'a sched_st_scheme res" where
  "setkilled p s =
     bindr (acquire (Proc_lock p) s) (\<lambda>s. release (Proc_lock p) (upd_proc p (p_killed_update (\<lambda>_. 1)) s))"

definition killed :: "nat \<Rightarrow> 'a sched_st_scheme \<Rightarrow> (int \<times> 'a sched_st_scheme) res" where
  "killed p s =
     bindr (acquire (Proc_lock p) s) (\<lambda>s.
     let k = p_killed (ptab s p) in
     bindr (release (Proc_lock p) s) (\<lambda>s. Ok (k, s)))"

text \<open>One pass of \<^verbatim>\<open>scheduler\<close> over the process table; the result tells whether a process ran.\<close>

fun scheduler_pass :: "(nat \<Rightarrow> 'a sched_st_scheme \<Rightarrow> 'a sched_st_scheme res) \<Rightarrow> nat list \<Rightarrow> bool \<Rightarrow>
    'a sched_st_scheme \<Rightarrow> (bool \<times> 'a sched_st_scheme) res" where
  "scheduler_pass run [] found s = Ok (found, s)"
| "scheduler_pass run (p # ps) found s =
     bindr (acquire (Proc_lock p) s) (\<lambda>s.
     bindr (if p_state (ptab s p) = RUNNABLE then
              bindr (run p ((upd_proc p (p_state_update (\<lambda>_. RUNNING)) s)\<lparr>cur := Some p\<rparr>)) (\<lambda>s.
              Ok (True, s\<lparr>cur := None\<rparr>))
            else Ok (found, s)) (\<lambda>(found, s).
     bindr (release (Proc_lock p) s) (scheduler_pass run ps found)))"

section \<open>kill, sleep and the scheduler\<close>

lemma killed_spec:
  "Proc_lock p \<notin> set (held s) \<Longrightarrow> killed p s = Ok (p_killed (ptab s p), s)"
  by (simp add: killed_def Let_def)

lemma setkilled_spec:
  "Proc_lock p \<notin> set (held s) \<Longrightarrow> setkilled p s = Ok (upd_proc p (p_killed_update (\<lambda>_. 1)) s)"
  by (simp add: setkilled_def upd_proc_def)

lemma upd_proc_simps [simp]:
  "held (upd_proc p f s) = held s" "cur (upd_proc p f s) = cur s"
  "ptab (upd_proc p f s) = (ptab s)(p := f (ptab s p))"
  by (simp_all add: upd_proc_def)

text \<open>\<open>kill\<close> marks the first process with the pid and wakes it up if it sleeps.\<close>

definition kill_mark :: "proc \<Rightarrow> proc" where
  "kill_mark p = p\<lparr>p_killed := 1, p_state := if p_state p = SLEEPING then RUNNABLE else p_state p\<rparr>"

lemma kill_loop_spec:
  assumes "\<forall>p \<in> set ps. Proc_lock p \<notin> set (held s)"
  shows "kill_loop ps pid s =
    (case find (\<lambda>p. p_pid (ptab s p) = pid) ps of
       None \<Rightarrow> Ok (-1, s) | Some p \<Rightarrow> Ok (0, upd_proc p kill_mark s))"
  using assms
proof (induction ps)
  case (Cons p ps)
  have "s\<lparr>ptab := (ptab s)(p := (ptab s p)\<lparr>p_killed := 1\<rparr>)\<rparr> = upd_proc p kill_mark s" if "p_state (ptab s p) \<noteq> SLEEPING"
    using that by (simp add: upd_proc_def kill_mark_def)
  moreover have "s\<lparr>ptab := (ptab s)(p := (ptab s p)\<lparr>p_killed := 1, p_state := RUNNABLE\<rparr>)\<rparr> = upd_proc p kill_mark s"
    if "p_state (ptab s p) = SLEEPING"
    using that by (simp add: upd_proc_def kill_mark_def)
  ultimately show ?case using Cons by (auto simp: Let_def upd_proc_def)
qed simp

section \<open>What runs while a thread sleeps\<close>

text \<open>
  An instance of \<open>others\<close>: the scheduler releases the lock of the process, \<open>act\<close> runs without a current process, and the
  scheduler resumes the process if it is runnable by then. If \<open>act\<close> does not wake it up, the thread stays asleep.
\<close>

definition run_others :: "('a sched_st_scheme \<Rightarrow> 'a sched_st_scheme res) \<Rightarrow> 'a sched_st_scheme \<Rightarrow> 'a sched_st_scheme res" where
  "run_others act s =
     bindr (myproc s) (\<lambda>p.
     bindr (release (Proc_lock p) (s\<lparr>cur := None\<rparr>)) (\<lambda>s.
     bindr (act s) (\<lambda>s.
     bindr (acquire (Proc_lock p) s) (\<lambda>s.
     if p_state (ptab s p) = RUNNABLE then Ok ((upd_proc p (p_state_update (\<lambda>_. RUNNING)) s)\<lparr>cur := Some p\<rparr>) else Block))))"

text \<open>Another process runs an operation.\<close>

definition as_proc :: "nat \<Rightarrow> ('a sched_st_scheme \<Rightarrow> 'a sched_st_scheme res) \<Rightarrow> 'a sched_st_scheme \<Rightarrow> 'a sched_st_scheme res" where
  "as_proc q act s = bindr (act (s\<lparr>cur := Some q\<rparr>)) (\<lambda>s. Ok (s\<lparr>cur := None\<rparr>))"

text \<open>With nobody to wake it up, a thread that sleeps blocks.\<close>

lemma sleep_alone:
  assumes "held s = [lk]" "cur s = Some p" "Proc_lock p \<noteq> lk"
  shows "sleep (\<lambda>_. Block) ch lk s = Block"
  using assms by (simp add: sleep_def sched_def myproc_def Let_def)

end
