(* ===== verification/Sleeplock.thy ===== *)
theory Sleeplock
  imports Sched
begin

text \<open>
  Sleep locks (\<^verbatim>\<open>kernel/sleeplock.c\<close>). \<open>acquiresleep_with\<close> has the wait loop of the code, with \<open>others\<close> for what runs while the
  thread sleeps. The components above call \<open>acquiresleep\<close>, the same code in a thread that nobody wakes up: there a lock that is
  taken gives the outcome \<open>Block\<close>.
\<close>

section \<open>Operations\<close>

text \<open>\<^verbatim>\<open>myproc()->pid\<close>; with no current process the load faults and the trap handler panics.\<close>

definition mypid :: "'a sched_st_scheme \<Rightarrow> int res" where
  "mypid s = (case cur s of None \<Rightarrow> Panic ''kerneltrap'' | Some p \<Rightarrow> Ok (p_pid (ptab s p)))"

definition acquiresleep_with :: "('a sleep_st_scheme \<Rightarrow> 'a sleep_st_scheme res) \<Rightarrow> slock \<Rightarrow> 'a sleep_st_scheme \<Rightarrow> 'a sleep_st_scheme res" where
  "acquiresleep_with others l s =
     bindr (acquire (Sleep_lk l) s) (\<lambda>s.
     bindr (loopr (\<lambda>s.
       if sl_locked (slocks s l) then bindr (sleep others (Chan_slock l) (Sleep_lk l) s) (\<lambda>s. Ok (Inl s)) else Ok (Inr s)) s) (\<lambda>s.
     bindr (mypid s) (\<lambda>pid.
     release (Sleep_lk l) (s\<lparr>slocks := (slocks s)(l := \<lparr>sl_locked = True, sl_pid = pid\<rparr>)\<rparr>))))"

definition acquiresleep :: "slock \<Rightarrow> 'a sleep_st_scheme \<Rightarrow> 'a sleep_st_scheme res" where
  "acquiresleep l s = acquiresleep_with (\<lambda>_. Block) l s"

definition releasesleep :: "slock \<Rightarrow> 'a sleep_st_scheme \<Rightarrow> 'a sleep_st_scheme res" where
  "releasesleep l s =
     bindr (acquire (Sleep_lk l) s) (\<lambda>s.
     bindr (wakeup (Chan_slock l)
              (s\<lparr>slocks := (slocks s)(l := \<lparr>sl_locked = False, sl_pid = 0\<rparr>)\<rparr>)) (\<lambda>s.
     release (Sleep_lk l) s))"

definition holdingsleep :: "slock \<Rightarrow> 'a sleep_st_scheme \<Rightarrow> (bool \<times> 'a sleep_st_scheme) res" where
  "holdingsleep l s =
     bindr (acquire (Sleep_lk l) s) (\<lambda>s.
     bindr (if sl_locked (slocks s l)
            then bindr (mypid s) (\<lambda>pid. Ok (sl_pid (slocks s l) = pid)) else Ok False) (\<lambda>r.
     bindr (release (Sleep_lk l) s) (\<lambda>s. Ok (r, s))))"

section \<open>From a state in which the spinlocks are free\<close>

lemma acquiresleep_with_free:
  assumes "Sleep_lk l \<notin> set (held s)" "cur s = Some p" "\<not> sl_locked (slocks s l)"
  shows "acquiresleep_with others l s =
         Ok (s\<lparr>slocks := (slocks s)(l := \<lparr>sl_locked = True, sl_pid = p_pid (ptab s p)\<rparr>)\<rparr>)"
  using assms by (simp add: acquiresleep_with_def mypid_def loopr_unfold [of _ "s\<lparr>held := Sleep_lk l # held s\<rparr>"])

lemma acquiresleep_spec:
  assumes "Sleep_lk l \<notin> set (held s)" "cur s = Some p" "\<not> sl_locked (slocks s l)"
  shows "acquiresleep l s =
         Ok (s\<lparr>slocks := (slocks s)(l := \<lparr>sl_locked = True, sl_pid = p_pid (ptab s p)\<rparr>)\<rparr>)"
  using acquiresleep_with_free [OF assms] by (simp add: acquiresleep_def)

lemma releasesleep_spec:
  assumes "Sleep_lk l \<notin> set (held s)" "no_proc_lock s"
  shows "releasesleep l s =
         Ok (s\<lparr>slocks := (slocks s)(l := \<lparr>sl_locked = False, sl_pid = 0\<rparr>),
              ptab := woken (Chan_slock l) {..<NPROC} s\<rparr>)"
  using assms by (simp add: releasesleep_def wakeup_spec no_proc_lock_def woken_def cong: if_cong)

lemma holdingsleep_spec:
  assumes "Sleep_lk l \<notin> set (held s)" "cur s = Some p"
  shows "holdingsleep l s =
         Ok (sl_locked (slocks s l) \<and> sl_pid (slocks s l) = p_pid (ptab s p), s)"
  using assms by (simp add: holdingsleep_def mypid_def)

section \<open>Waiting\<close>

lemma acquiresleep_blocks:
  assumes "held s = []" "cur s = Some p" "sl_locked (slocks s l)"
  shows "acquiresleep l s = Block"
proof -
  let ?s = "s\<lparr>held := [Sleep_lk l]\<rparr>"
  have "sleep (\<lambda>_. Block) (Chan_slock l) (Sleep_lk l) ?s = Block" using assms by (intro sleep_alone) simp_all
  then show ?thesis using assms by (simp add: acquiresleep_def acquiresleep_with_def loopr_unfold [of _ ?s])
qed

text \<open>Whatever runs in between, the lock is taken at a moment at which it is free, under its spinlock.\<close>

lemma acquiresleep_taken:
  assumes "acquiresleep_with others l s = Ok t"
  shows "\<exists>u pid. \<not> sl_locked (slocks u l) \<and> Sleep_lk l \<in> set (held u) \<and> mypid u = Ok pid \<and>
    t = u\<lparr>slocks := (slocks u)(l := \<lparr>sl_locked = True, sl_pid = pid\<rparr>), held := remove1 (Sleep_lk l) (held u)\<rparr>"
proof -
  let ?f = "\<lambda>s. if sl_locked (slocks s l) then bindr (sleep others (Chan_slock l) (Sleep_lk l) s) (\<lambda>s. Ok (Inl s)) else Ok (Inr s)"
  obtain s' u pid where u: "loopr ?f s' = Ok u" "mypid u = Ok pid"
    "release (Sleep_lk l) (u\<lparr>slocks := (slocks u)(l := \<lparr>sl_locked = True, sl_pid = pid\<rparr>)\<rparr>) = Ok t"
    using assms by (auto simp: acquiresleep_with_def)
  from loopr_exit [OF u(1), where I = "\<lambda>_. True"] obtain v where "?f v = Ok (Inr u)" by blast
  then have "\<not> sl_locked (slocks u l)" by (auto split: if_splits)
  then show ?thesis using u(2,3) by (intro exI [of _ u] exI [of _ pid]) (auto simp: release_def split: if_splits)
qed

text \<open>As long as nobody else gives the lock back, \<^verbatim>\<open>acquiresleep\<close> does not return.\<close>

lemma sleep_locked:
  assumes "sleep others ch lk s = Ok t" "sl_locked (slocks s l)"
    and keep: "\<And>u v. others u = Ok v \<Longrightarrow> sl_locked (slocks u l) \<Longrightarrow> sl_locked (slocks v l)"
  shows "sl_locked (slocks t l)"
proof -
  obtain u v where uv: "others u = Ok v" "slocks u = slocks s" "slocks t = slocks v"
    using assms(1) by (auto simp: sleep_def sched_def acquire_def release_def upd_proc_def Let_def split: if_splits)
  then show ?thesis using keep [OF uv(1)] assms(2) by simp
qed

lemma acquiresleep_excluded:
  assumes "sl_locked (slocks s l)" and keep: "\<And>u v. others u = Ok v \<Longrightarrow> sl_locked (slocks u l) \<Longrightarrow> sl_locked (slocks v l)"
  shows "acquiresleep_with others l s \<noteq> Ok t"
proof
  let ?f = "\<lambda>s. if sl_locked (slocks s l) then bindr (sleep others (Chan_slock l) (Sleep_lk l) s) (\<lambda>s. Ok (Inl s)) else Ok (Inr s)"
  assume "acquiresleep_with others l s = Ok t"
  then obtain s' u where u: "loopr ?f s' = Ok u" "slocks s' = slocks s"
    by (auto simp: acquiresleep_with_def acquire_def split: if_splits)
  have "\<exists>v. sl_locked (slocks v l) \<and> ?f v = Ok (Inr u)"
    by (rule loopr_exit [OF u(1)]) (use assms(1) u(2) sleep_locked [OF _ _ keep] in \<open>auto split: if_splits\<close>)
  then show False by auto
qed

text \<open>When the holder gives the lock back, the waiting thread gets it.\<close>

lemma acquiresleep_handover:
  assumes s: "held s = []" "cur s = Some p" "p < NPROC" "q \<noteq> p" "sl_locked (slocks s l)"
  shows "\<exists>t. acquiresleep_with (run_others (as_proc q (releasesleep l))) l s = Ok t \<and>
    slocks t = (slocks s)(l := \<lparr>sl_locked = True, sl_pid = p_pid (ptab s p)\<rparr>) \<and> held t = [] \<and> cur t = Some p"
proof -
  let ?s = "s\<lparr>held := [Sleep_lk l]\<rparr>" and ?o = "run_others (as_proc q (releasesleep l))"
  define s1 where "s1 = s\<lparr>held := [Proc_lock p], ptab := (ptab s)(p := (ptab s p)\<lparr>p_chan := Some (Chan_slock l), p_state := SLEEPING\<rparr>)\<rparr>"
  define s2 where "s2 = s1\<lparr>held := [], cur := Some q\<rparr>"
  have r: "releasesleep l s2 = Ok (s2\<lparr>slocks := (slocks s2)(l := \<lparr>sl_locked = False, sl_pid = 0\<rparr>), ptab := woken (Chan_slock l) {..<NPROC} s2\<rparr>)"
    by (rule releasesleep_spec) (simp_all add: s2_def no_proc_lock_def)
  define w where "w = woken (Chan_slock l) {..<NPROC} s2"
  have w: "w p = (ptab s p)\<lparr>p_chan := Some (Chan_slock l), p_state := RUNNABLE\<rparr>"
    using s(3,4) by (simp add: w_def woken_def s2_def s1_def sleeping_on_def)
  have "s1\<lparr>cur := None, held := [], cur := Some q\<rparr> = s2" by (simp add: s2_def)
  then have "as_proc q (releasesleep l) (s1\<lparr>cur := None, held := []\<rparr>) =
      Ok (s2\<lparr>slocks := (slocks s2)(l := \<lparr>sl_locked = False, sl_pid = 0\<rparr>), ptab := w, cur := None\<rparr>)"
    using r by (simp add: as_proc_def w_def)
  then have o: "\<exists>pt. ?o s1 = Ok (s\<lparr>slocks := (slocks s)(l := \<lparr>sl_locked = False, sl_pid = 0\<rparr>), ptab := pt, held := [Proc_lock p], cur := Some p\<rparr>) \<and>
      p_pid (pt p) = p_pid (ptab s p)"
    using s(2) w by (intro exI [of _ "w(p := (w p)\<lparr>p_state := RUNNING\<rparr>)"])
      (simp add: run_others_def myproc_def s1_def s2_def upd_proc_def)
  then obtain pt where pt: "?o s1 = Ok (s\<lparr>slocks := (slocks s)(l := \<lparr>sl_locked = False, sl_pid = 0\<rparr>), ptab := pt, held := [Proc_lock p], cur := Some p\<rparr>)"
    "p_pid (pt p) = p_pid (ptab s p)" by blast
  have "sched ?o s1 = ?o s1" using s(2) by (simp add: sched_def myproc_def s1_def)
  then have sl: "\<exists>pt. sleep ?o (Chan_slock l) (Sleep_lk l) ?s =
      Ok (s\<lparr>slocks := (slocks s)(l := \<lparr>sl_locked = False, sl_pid = 0\<rparr>), ptab := pt, held := [Sleep_lk l], cur := Some p\<rparr>) \<and>
      p_pid (pt p) = p_pid (ptab s p)"
    using s(1,2) pt by (intro exI [of _ "pt(p := (pt p)\<lparr>p_chan := None\<rparr>)"])
      (simp add: sleep_def myproc_def Let_def s1_def upd_proc_def)
  then obtain pt' where pt': "sleep ?o (Chan_slock l) (Sleep_lk l) ?s =
      Ok (s\<lparr>slocks := (slocks s)(l := \<lparr>sl_locked = False, sl_pid = 0\<rparr>), ptab := pt', held := [Sleep_lk l], cur := Some p\<rparr>)"
    "p_pid (pt' p) = p_pid (ptab s p)" by blast
  let ?t = "s\<lparr>slocks := (slocks s)(l := \<lparr>sl_locked = False, sl_pid = 0\<rparr>), ptab := pt', held := [Sleep_lk l], cur := Some p\<rparr>"
  show ?thesis using s pt' by (simp add: acquiresleep_with_def loopr_unfold [of _ ?s] loopr_unfold [of _ ?t] mypid_def)
qed

end
