(* ===== verification/Ring.thy ===== *)
theory Ring
  imports Main
begin

text \<open>
  Circular doubly linked lists. The buffer cache (\<^verbatim>\<open>kernel/bio.c\<close>) and the page replacement
  list (\<^verbatim>\<open>kernel/vm.c\<close>) both link their nodes in a ring through a next and a previous pointer;
  the facts about unlinking, inserting and rotating are proved here once. A pointer field is a
  partial function from nodes to nodes (\<open>None\<close> is the null pointer).
\<close>

section \<open>Chains\<close>

text \<open>\<open>chain nx pv a xs b\<close>: from \<open>a\<close> the next pointers run through \<open>xs\<close> to \<open>b\<close>, and the previous
  pointers run the same way back.\<close>

fun chain :: "('a \<rightharpoonup> 'a) \<Rightarrow> ('a \<rightharpoonup> 'a) \<Rightarrow> 'a \<Rightarrow> 'a list \<Rightarrow> 'a \<Rightarrow> bool" where
  "chain nx pv a [] b \<longleftrightarrow> nx a = Some b \<and> pv b = Some a"
| "chain nx pv a (x # xs) b \<longleftrightarrow> nx a = Some x \<and> pv x = Some a \<and> chain nx pv x xs b"

lemma chain_append [simp]:
  "chain nx pv a (xs @ y # ys) b \<longleftrightarrow> chain nx pv a xs y \<and> chain nx pv y ys b"
  by (induction xs arbitrary: a) auto

lemma chain_nx_other [simp]:
  "u \<noteq> a \<Longrightarrow> u \<notin> set xs \<Longrightarrow> chain (nx(u := v)) pv a xs b = chain nx pv a xs b"
  by (induction xs arbitrary: a) auto

lemma chain_pv_other [simp]:
  "u \<noteq> b \<Longrightarrow> u \<notin> set xs \<Longrightarrow> chain nx (pv(u := v)) a xs b = chain nx pv a xs b"
  by (induction xs arbitrary: a) auto

lemma chain_cong:
  "(\<And>u. u = a \<or> u \<in> set xs \<Longrightarrow> nx u = nx' u) \<Longrightarrow> (\<And>u. u = b \<or> u \<in> set xs \<Longrightarrow> pv u = pv' u) \<Longrightarrow>
   chain nx pv a xs b = chain nx' pv' a xs b"
  by (induction xs arbitrary: a) auto

section \<open>Rings\<close>

definition ring :: "('a \<rightharpoonup> 'a) \<Rightarrow> ('a \<rightharpoonup> 'a) \<Rightarrow> 'a list \<Rightarrow> bool" where
  "ring nx pv ys \<longleftrightarrow> distinct ys \<and> (case ys of [] \<Rightarrow> True | h # xs \<Rightarrow> chain nx pv h xs h)"

lemma ring_Nil [simp]: "ring nx pv []"
  by (simp add: ring_def)

lemma ring_Cons: "ring nx pv (h # xs) \<longleftrightarrow> h \<notin> set xs \<and> distinct xs \<and> chain nx pv h xs h"
  by (auto simp: ring_def)

lemma ring_distinct: "ring nx pv ys \<Longrightarrow> distinct ys"
  by (simp add: ring_def)

lemma ring_rotate1: "ring nx pv (x # xs) \<Longrightarrow> ring nx pv (xs @ [x])"
  by (cases xs) (auto simp: ring_Cons)

lemma ring_rotate: "ring nx pv (us @ vs) \<Longrightarrow> ring nx pv (vs @ us)"
proof (induction us arbitrary: vs)
  case Nil
  then show ?case by simp
next
  case (Cons u us)
  then have "ring nx pv (us @ (vs @ [u]))" using ring_rotate1 by fastforce
  from Cons.IH [OF this] show ?case by simp
qed

lemma ring_cong:
  "(\<And>u. u \<in> set ys \<Longrightarrow> nx u = nx' u) \<Longrightarrow> (\<And>u. u \<in> set ys \<Longrightarrow> pv u = pv' u) \<Longrightarrow>
   ring nx pv ys = ring nx' pv' ys"
  by (cases ys) (auto simp: ring_Cons cong: chain_cong)

lemma ring_next_Cons: "ring nx pv (x # xs) \<Longrightarrow> nx x = Some (if xs = [] then x else hd xs)"
  by (cases xs) (auto simp: ring_Cons)

lemma ring_next_last:
  assumes "ring nx pv ys" "ys \<noteq> []"
  shows "nx (last ys) = Some (hd ys)"
proof (cases ys rule: rev_cases)
  case (snoc zs z)
  with assms(1) have "ring nx pv (z # zs)" using ring_rotate [of nx pv zs "[z]"] by simp
  from ring_next_Cons [OF this] snoc show ?thesis by (cases zs) auto
qed (use assms in simp)

lemma ring_prev_head: "ring nx pv ys \<Longrightarrow> ys \<noteq> [] \<Longrightarrow> pv (hd ys) = Some (last ys)"
proof -
  assume r: "ring nx pv ys" and ne: "ys \<noteq> []"
  then obtain h xs where ys: "ys = h # xs" by (cases ys) auto
  show ?thesis
  proof (cases xs rule: rev_cases)
    case Nil
    with r ys show ?thesis by (simp add: ring_Cons)
  next
    case (snoc zs z)
    with r ys show ?thesis by (simp add: ring_Cons)
  qed
qed

text \<open>Every node of a ring has both pointers, and they lead to nodes of the ring.\<close>

lemma ring_node:
  assumes "ring nx pv ys" "y \<in> set ys"
  obtains us vs n p where "ys = us @ y # vs" "ring nx pv (y # vs @ us)"
    "nx y = Some n" "pv y = Some p" "n \<in> set ys" "p \<in> set ys"
proof -
  obtain us vs where ys: "ys = us @ y # vs" using assms(2) by (meson split_list)
  with assms(1) have r: "ring nx pv (y # vs @ us)" using ring_rotate [of nx pv us "y # vs"] by simp
  have "nx y = Some (if vs @ us = [] then y else hd (vs @ us))" using ring_next_Cons [OF r] .
  moreover have "pv y = Some (last (y # vs @ us))" using ring_prev_head [OF r] by simp
  moreover have "(if vs @ us = [] then y else hd (vs @ us)) \<in> set ys"
    using ys hd_in_set [of "vs @ us"] by (auto simp del: hd_in_set)
  moreover have "last (y # vs @ us) \<in> set ys" using ys last_in_set [of "y # vs @ us"] by auto
  ultimately show ?thesis using that ys r by blast
qed

text \<open>Unlinking the first node, and a node anywhere in the ring.\<close>

lemma ring_unlink_first:
  assumes r: "ring nx pv (y # xs)" and ne: "xs \<noteq> []" and n: "nx y = Some n" and p: "pv y = Some p"
  shows "ring (nx(p := Some n)) (pv(n := Some p)) xs" and "p = last xs" and "n = hd xs"
proof -
  obtain x zs where xs: "xs = x # zs" using ne by (cases xs) auto
  have px: "p = last xs" using ring_prev_head [OF r] p ne by simp
  then show "p = last xs" .
  have nx: "n = x" using ring_next_Cons [OF r] n xs by simp
  then show "n = hd xs" using xs by simp
  show "ring (nx(p := Some n)) (pv(n := Some p)) xs"
  proof (cases zs rule: rev_cases)
    case Nil
    with px nx xs r show ?thesis by (auto simp: ring_Cons)
  next
    case (snoc ws w)
    with px nx xs r show ?thesis by (auto simp: ring_Cons)
  qed
qed

lemma ring_unlink:
  assumes r: "ring nx pv ys" and ne: "ys \<noteq> [y]" and y: "y \<in> set ys"
    and n: "nx y = Some n" and p: "pv y = Some p"
  shows "ring (nx(p := Some n)) (pv(n := Some p)) (remove1 y ys)"
proof -
  obtain us vs where ys: "ys = us @ y # vs" and r': "ring nx pv (y # vs @ us)"
    using ring_node [OF r y] by metis
  have "y \<notin> set us" using ring_distinct [OF r] ys by simp
  then have rm: "remove1 y ys = us @ vs" using ys by (simp add: remove1_append)
  have "vs @ us \<noteq> []" using ne ys by auto
  from ring_unlink_first(1) [OF r' this n p] show ?thesis unfolding rm by (rule ring_rotate)
qed

text \<open>Linking a new node behind the last one.\<close>

lemma ring_link_last:
  assumes r: "ring nx pv ys" and ne: "ys \<noteq> []" and y: "y \<notin> set ys"
  shows "ring (nx(y := Some (hd ys), last ys := Some y)) (pv(y := Some (last ys), hd ys := Some y)) (ys @ [y])"
proof -
  obtain h xs where ys: "ys = h # xs" using ne by (cases ys) auto
  show ?thesis
  proof (cases xs rule: rev_cases)
    case Nil
    with ys y show ?thesis by (auto simp: ring_Cons)
  next
    case (snoc ws w)
    with r ys y show ?thesis by (auto simp: ring_Cons)
  qed
qed

text \<open>Linking a new node behind the first one (the sentinel of the buffer cache).\<close>

lemma ring_link_second:
  assumes r: "ring nx pv (h # xs)" and y: "y \<notin> set (h # xs)" and n: "nx h = Some n"
  shows "ring (nx(y := Some n, h := Some y)) (pv(y := Some h, n := Some y)) (h # y # xs)"
proof (cases xs)
  case Nil
  with r y n show ?thesis by (auto simp: ring_Cons)
next
  case (Cons x zs)
  with r y n show ?thesis by (auto simp: ring_Cons)
qed

end
