(* ===== verification/Bio.thy ===== *)
theory Bio
  imports Sleeplock Ring
begin

text \<open>
  The buffer cache (\<^verbatim>\<open>kernel/bio.c\<close>) over the block device. Pointers to buffers are indices
  into \<^verbatim>\<open>bcache.buf[]\<close>; the index \<^verbatim>\<open>NBUF\<close> is the list head \<^verbatim>\<open>bcache.head\<close>. The device is an
  array of blocks together with the sequence of the writes it has completed.
\<close>

section \<open>State\<close>

record buf =
  b_valid :: bool
  b_disk :: bool
  b_dev :: u32
  b_blockno :: u32
  b_refcnt :: u32
  b_prev :: nat
  b_next :: nat
  b_data :: bytes

record bio_st = mem_st +
  bufs :: "nat \<Rightarrow> buf"
  disk :: "u32 \<Rightarrow> bytes"
  dwrites :: "(u32 \<times> bytes) list"

abbreviation HEAD :: nat where "HEAD \<equiv> NBUF"

definition upd_buf :: "nat \<Rightarrow> (buf \<Rightarrow> buf) \<Rightarrow> 'a bio_st_scheme \<Rightarrow> 'a bio_st_scheme" where
  "upd_buf b f s = s\<lparr>bufs := (bufs s)(b := f (bufs s b))\<rparr>"

section \<open>Operations\<close>

text \<open>
  The effect of \<^verbatim>\<open>virtio_disk_rw\<close> on the block and the device once the request has completed:
  a read fills the buffer from the block, a write stores the buffer into it. The thread always sleeps
  for the completion, which \<^verbatim>\<open>sched\<close> refuses under a second spinlock.
\<close>

definition virtio_disk_rw :: "nat \<Rightarrow> bool \<Rightarrow> 'a bio_st_scheme \<Rightarrow> 'a bio_st_scheme res" where
  "virtio_disk_rw b write s =
     bindr (acquire Vdisk_lock s) (\<lambda>s.
     if held s \<noteq> [Vdisk_lock] then Panic ''sched locks''
     else
     let n = b_blockno (bufs s b);
         s = (if write
              then s\<lparr>disk := (disk s)(n := b_data (bufs s b)), dwrites := dwrites s @ [(n, b_data (bufs s b))]\<rparr>
              else upd_buf b (b_data_update (\<lambda>_. disk s n)) s);
         s = upd_buf b (b_disk_update (\<lambda>_. False)) s in
     release Vdisk_lock s)"

text \<open>Insertion of \<open>b\<close> right behind the list head, and removal from its place.\<close>

definition link_head :: "nat \<Rightarrow> 'a bio_st_scheme \<Rightarrow> 'a bio_st_scheme" where
  "link_head b s =
     (let s = upd_buf b (b_next_update (\<lambda>_. b_next (bufs s HEAD))) s;
          s = upd_buf b (b_prev_update (\<lambda>_. HEAD)) s;
          s = upd_buf (b_next (bufs s HEAD)) (b_prev_update (\<lambda>_. b)) s in
      upd_buf HEAD (b_next_update (\<lambda>_. b)) s)"

definition unlink_buf :: "nat \<Rightarrow> 'a bio_st_scheme \<Rightarrow> 'a bio_st_scheme" where
  "unlink_buf b s =
     (let s = upd_buf (b_next (bufs s b)) (b_prev_update (\<lambda>_. b_prev (bufs s b))) s in
      upd_buf (b_prev (bufs s b)) (b_next_update (\<lambda>_. b_next (bufs s b))) s)"

fun binit_loop :: "nat list \<Rightarrow> 'a bio_st_scheme \<Rightarrow> 'a bio_st_scheme" where
  "binit_loop [] s = s"
| "binit_loop (b # bs) s =
     binit_loop bs (link_head b
       (s\<lparr>slocks := (slocks s)(Buf_slock b := \<lparr>sl_locked = False, sl_pid = 0\<rparr>)\<rparr>))"

definition binit :: "'a bio_st_scheme \<Rightarrow> 'a bio_st_scheme" where
  "binit s =
     (let s = upd_buf HEAD (b_prev_update (\<lambda>_. HEAD)) s;
          s = upd_buf HEAD (b_next_update (\<lambda>_. HEAD)) s in
      binit_loop [0..<NBUF] s)"

definition bget :: "u32 \<Rightarrow> u32 \<Rightarrow> 'a bio_st_scheme \<Rightarrow> (nat \<times> 'a bio_st_scheme) res" where
  "bget dev blockno s =
     bindr (acquire Bcache_lock s) (\<lambda>s.
     case while_option
            (\<lambda>b. b \<noteq> HEAD \<and> \<not> (b_dev (bufs s b) = dev \<and> b_blockno (bufs s b) = blockno))
            (\<lambda>b. b_next (bufs s b)) (b_next (bufs s HEAD)) of
       None \<Rightarrow> Loop
     | Some b \<Rightarrow>
         if b \<noteq> HEAD then
           bindr (release Bcache_lock (upd_buf b (b_refcnt_update (\<lambda>r. r + 1)) s)) (\<lambda>s.
           bindr (acquiresleep (Buf_slock b) s) (\<lambda>s. Ok (b, s)))
         else
           (case while_option (\<lambda>b. b \<noteq> HEAD \<and> b_refcnt (bufs s b) \<noteq> 0)
                   (\<lambda>b. b_prev (bufs s b)) (b_prev (bufs s HEAD)) of
              None \<Rightarrow> Loop
            | Some b \<Rightarrow>
                if b \<noteq> HEAD then
                  bindr (release Bcache_lock
                    (upd_buf b (\<lambda>c. c\<lparr>b_dev := dev, b_blockno := blockno,
                                      b_valid := False, b_refcnt := 1\<rparr>) s)) (\<lambda>s.
                  bindr (acquiresleep (Buf_slock b) s) (\<lambda>s. Ok (b, s)))
                else Panic ''bget: no buffers''))"

definition bread :: "u32 \<Rightarrow> u32 \<Rightarrow> 'a bio_st_scheme \<Rightarrow> (nat \<times> 'a bio_st_scheme) res" where
  "bread dev blockno s =
     bindr (bget dev blockno s) (\<lambda>(b, s).
     if \<not> b_valid (bufs s b)
     then bindr (virtio_disk_rw b False s) (\<lambda>s.
          Ok (b, upd_buf b (b_valid_update (\<lambda>_. True)) s))
     else Ok (b, s))"

definition bwrite :: "nat \<Rightarrow> 'a bio_st_scheme \<Rightarrow> 'a bio_st_scheme res" where
  "bwrite b s =
     bindr (holdingsleep (Buf_slock b) s) (\<lambda>(h, s).
     if \<not> h then Panic ''bwrite'' else virtio_disk_rw b True s)"

definition brelse :: "nat \<Rightarrow> 'a bio_st_scheme \<Rightarrow> 'a bio_st_scheme res" where
  "brelse b s =
     bindr (holdingsleep (Buf_slock b) s) (\<lambda>(h, s).
     if \<not> h then Panic ''brelse'' else
     bindr (releasesleep (Buf_slock b) s) (\<lambda>s.
     bindr (acquire Bcache_lock s) (\<lambda>s.
     let s = upd_buf b (b_refcnt_update (\<lambda>r. r - 1)) s;
         s = (if b_refcnt (bufs s b) = 0 then link_head b (unlink_buf b s) else s) in
     release Bcache_lock s)))"

definition bpin :: "nat \<Rightarrow> 'a bio_st_scheme \<Rightarrow> 'a bio_st_scheme res" where
  "bpin b s =
     bindr (acquire Bcache_lock s) (\<lambda>s.
     release Bcache_lock (upd_buf b (b_refcnt_update (\<lambda>r. r + 1)) s))"

definition bunpin :: "nat \<Rightarrow> 'a bio_st_scheme \<Rightarrow> 'a bio_st_scheme res" where
  "bunpin b s =
     bindr (acquire Bcache_lock s) (\<lambda>s.
     release Bcache_lock (upd_buf b (b_refcnt_update (\<lambda>r. r - 1)) s))"

section \<open>Invariant and views\<close>

abbreviation bnx :: "'a bio_st_scheme \<Rightarrow> nat \<Rightarrow> nat option" where
  "bnx s \<equiv> (\<lambda>i. Some (b_next (bufs s i)))"

abbreviation bpv :: "'a bio_st_scheme \<Rightarrow> nat \<Rightarrow> nat option" where
  "bpv s \<equiv> (\<lambda>i. Some (b_prev (bufs s i)))"

text \<open>\<open>xs\<close> are the buffers from most to least recently used.\<close>

definition blist :: "'a bio_st_scheme \<Rightarrow> nat list \<Rightarrow> bool" where
  "blist s xs \<longleftrightarrow> ring (bnx s) (bpv s) (HEAD # xs) \<and> set xs = {..<NBUF}"

text \<open>The list only depends on the links of the buffers.\<close>

definition same_links :: "'a bio_st_scheme \<Rightarrow> 'b bio_st_scheme \<Rightarrow> bool" where
  "same_links s t \<longleftrightarrow> (\<forall>b. b_next (bufs t b) = b_next (bufs s b) \<and> b_prev (bufs t b) = b_prev (bufs s b))"

text \<open>
  \<open>bio_inv\<close>: the buffers form the list; no block other than block 0, which the kernel never
  reads, is in two buffers; an unused buffer that is valid agrees with the disk; a locked
  buffer is in use.
\<close>

definition bio_inv :: "'a bio_st_scheme \<Rightarrow> bool" where
  "bio_inv s \<longleftrightarrow>
     (\<exists>xs. blist s xs) \<and>
     (\<forall>b < NBUF. \<forall>c < NBUF. b \<noteq> c \<longrightarrow> b_blockno (bufs s b) = b_blockno (bufs s c) \<longrightarrow>
        b_blockno (bufs s b) = 0) \<and>
     (\<forall>b < NBUF. b_valid (bufs s b) \<longrightarrow> b_refcnt (bufs s b) = 0 \<longrightarrow>
        b_data (bufs s b) = disk s (b_blockno (bufs s b))) \<and>
     (\<forall>b < NBUF. sl_locked (slocks s (Buf_slock b)) \<longrightarrow> b_refcnt (bufs s b) \<noteq> 0)"

text \<open>The content of a block as a reader of the cache sees it.\<close>

definition bview :: "'a bio_st_scheme \<Rightarrow> u32 \<Rightarrow> bytes" where
  "bview s n = (case find (\<lambda>b. b_blockno (bufs s b) = n \<and> b_valid (bufs s b)) [0..<NBUF] of
                  Some b \<Rightarrow> b_data (bufs s b) | None \<Rightarrow> disk s n)"

text \<open>A kernel thread may use the cache: it runs for a process and holds no spinlock.\<close>

definition ready :: "'a sched_st_scheme \<Rightarrow> bool" where
  "ready s \<longleftrightarrow> held s = [] \<and> cur s \<noteq> None"

text \<open>Block \<open>n\<close> can be read: no buffer holds it for another device or is locked with it, and
  it is cached or a buffer is free.\<close>

definition available :: "'a bio_st_scheme \<Rightarrow> u32 \<Rightarrow> u32 \<Rightarrow> bool" where
  "available s dev n \<longleftrightarrow> n \<noteq> 0 \<and>
     (\<forall>b < NBUF. b_blockno (bufs s b) = n \<longrightarrow>
        b_dev (bufs s b) = dev \<and> \<not> sl_locked (slocks s (Buf_slock b)) \<and> b_refcnt (bufs s b) \<noteq> - 1) \<and>
     ((\<exists>b < NBUF. b_blockno (bufs s b) = n) \<or> (\<exists>b < NBUF. b_refcnt (bufs s b) = 0))"

text \<open>What the current process has after \<open>bread\<close>.\<close>

definition owns :: "'a bio_st_scheme \<Rightarrow> nat \<Rightarrow> u32 \<Rightarrow> u32 \<Rightarrow> bool" where
  "owns s b dev n \<longleftrightarrow> b < NBUF \<and> b_dev (bufs s b) = dev \<and> b_blockno (bufs s b) = n \<and> b_valid (bufs s b) \<and>
     b_refcnt (bufs s b) \<noteq> 0 \<and> sl_locked (slocks s (Buf_slock b)) \<and>
     (\<exists>p. cur s = Some p \<and> sl_pid (slocks s (Buf_slock b)) = p_pid (ptab s p))"

text \<open>The fields the cache operations write; of the processes only their state, in \<open>wakeup\<close>.\<close>

definition bio_frame :: "'a bio_st_scheme \<Rightarrow> 'a bio_st_scheme \<Rightarrow> bool" where
  "bio_frame s t \<longleftrightarrow>
     held t = held s \<and> cur t = cur s \<and> mem t = mem s \<and> bio_st.more t = bio_st.more s \<and>
     (\<forall>p. \<exists>st. ptab t p = (ptab s p)\<lparr>p_state := st\<rparr>)"

text \<open>The state after a successful \<open>bread\<close> of block \<open>n\<close> into buffer \<open>b\<close> by the process with this pid.\<close>

definition after_bread :: "nat \<Rightarrow> u32 \<Rightarrow> u32 \<Rightarrow> bool \<Rightarrow> u32 \<Rightarrow> int \<Rightarrow> 'a bio_st_scheme \<Rightarrow> 'a bio_st_scheme" where
  "after_bread b dev n d r pid s =
     s\<lparr>bufs := (bufs s)(b := (bufs s b)\<lparr>b_disk := d, b_dev := dev, b_blockno := n, b_valid := True,
                                      b_refcnt := r, b_data := bview s n\<rparr>),
       slocks := (slocks s)(Buf_slock b := \<lparr>sl_locked = True, sl_pid = pid\<rparr>)\<rparr>"

definition bread_buf :: "'a bio_st_scheme \<Rightarrow> u32 \<Rightarrow> nat \<Rightarrow> u32 \<Rightarrow> bool" where
  "bread_buf s n b r \<longleftrightarrow> b < NBUF \<and>
     (if b_blockno (bufs s b) = n then r = b_refcnt (bufs s b) + 1
      else b_refcnt (bufs s b) = 0 \<and> r = 1 \<and> (\<forall>c < NBUF. b_blockno (bufs s c) \<noteq> n))"

definition set_data :: "nat \<Rightarrow> bytes \<Rightarrow> 'a bio_st_scheme \<Rightarrow> 'a bio_st_scheme" where
  "set_data b d s = upd_buf b (b_data_update (\<lambda>_. d)) s"

text \<open>\<open>bwrite\<close> puts the buffer on the disk; the view stays.\<close>

definition after_bwrite :: "nat \<Rightarrow> u32 \<Rightarrow> 'a bio_st_scheme \<Rightarrow> 'a bio_st_scheme" where
  "after_bwrite b n s =
     s\<lparr>bufs := (bufs s)(b := (bufs s b)\<lparr>b_disk := False\<rparr>),
       disk := (disk s)(n := b_data (bufs s b)), dwrites := dwrites s @ [(n, b_data (bufs s b))]\<rparr>"

text \<open>Moving a buffer within the list changes links only.\<close>

definition only_links :: "'a bio_st_scheme \<Rightarrow> 'a bio_st_scheme \<Rightarrow> bool" where
  "only_links s t \<longleftrightarrow> (\<exists>f g. t = s\<lparr>bufs := \<lambda>c. (bufs s c)\<lparr>b_next := f c, b_prev := g c\<rparr>\<rparr>)"

text \<open>A buffer given back but not yet moved.\<close>

definition dropped :: "nat \<Rightarrow> 'a bio_st_scheme \<Rightarrow> 'a bio_st_scheme" where
  "dropped b s =
     s\<lparr>slocks := (slocks s)(Buf_slock b := \<lparr>sl_locked = False, sl_pid = 0\<rparr>),
       ptab := woken (Chan_slock (Buf_slock b)) {..<NPROC} s,
       bufs := (bufs s)(b := b_refcnt_update (\<lambda>r. r - 1) (bufs s b))\<rparr>"

section \<open>The list of buffers\<close>

lemma chain_rev: "chain nx pv a xs b \<Longrightarrow> chain pv nx b (rev xs) a"
  by (induction xs arbitrary: a) auto

lemma while_option_chain:
  assumes "chain (\<lambda>i. Some (nx i)) pv a xs h" "h \<notin> set xs"
  shows "while_option (\<lambda>b. b \<noteq> h \<and> \<not> P b) nx (nx a) =
         Some (case find P xs of None \<Rightarrow> h | Some b \<Rightarrow> b)"
  using assms
proof (induction xs arbitrary: a)
  case Nil
  then show ?case by (simp add: while_option_unfold)
next
  case (Cons x xs)
  then have nx: "nx a = x" and IH: "while_option (\<lambda>b. b \<noteq> h \<and> \<not> P b) nx (nx x) =
         Some (case find P xs of None \<Rightarrow> h | Some b \<Rightarrow> b)" by auto
  show ?case
  proof (cases "P x")
    case True
    then show ?thesis by (simp add: nx while_option_unfold)
  next
    case False
    then show ?thesis using Cons.prems IH by (subst while_option_unfold) (auto simp: nx)
  qed
qed

lemma blist_scan_next:
  assumes "blist s xs"
  shows "while_option (\<lambda>b. b \<noteq> HEAD \<and> \<not> P b) (\<lambda>b. b_next (bufs s b)) (b_next (bufs s HEAD)) =
         Some (case find P xs of None \<Rightarrow> HEAD | Some b \<Rightarrow> b)"
  using assms by (intro while_option_chain) (auto simp: blist_def ring_Cons)

lemma blist_scan_prev:
  assumes "blist s xs"
  shows "while_option (\<lambda>b. b \<noteq> HEAD \<and> \<not> P b) (\<lambda>b. b_prev (bufs s b)) (b_prev (bufs s HEAD)) =
         Some (case find P (rev xs) of None \<Rightarrow> HEAD | Some b \<Rightarrow> b)"
  using assms by (intro while_option_chain [where pv = "bnx s"]) (auto simp: blist_def ring_Cons dest: chain_rev)

lemma blist_same_links: "same_links s t \<Longrightarrow> blist t xs = blist s xs"
  by (simp add: blist_def same_links_def)

lemma unlink_buf_ring:
  assumes r: "ring (bnx s) (bpv s) ys" and b: "b \<in> set ys" and ne: "ys \<noteq> [b]"
  shows "ring (bnx (unlink_buf b s)) (bpv (unlink_buf b s)) (remove1 b ys)"
proof -
  let ?n = "b_next (bufs s b)" and ?p = "b_prev (bufs s b)"
  have "?n \<noteq> b"
  proof
    assume "?n = b"
    obtain us vs where "ys = us @ b # vs" "ring (bnx s) (bpv s) (b # vs @ us)"
      using ring_node [OF r b] by metis
    with ring_next_Cons [OF this(2)] \<open>?n = b\<close> ne show False
      by (cases "vs @ us") (auto simp: ring_Cons split: if_splits)
  qed
  then have "bnx (unlink_buf b s) = (bnx s)(?p := Some ?n)" "bpv (unlink_buf b s) = (bpv s)(?n := Some ?p)"
    by (auto simp: unlink_buf_def upd_buf_def Let_def fun_eq_iff)
  then show ?thesis using ring_unlink [OF r ne b] by simp
qed

lemma link_head_ring:
  assumes r: "ring (bnx s) (bpv s) (HEAD # xs)" and b: "b \<notin> set xs" "b \<noteq> HEAD"
  shows "ring (bnx (link_head b s)) (bpv (link_head b s)) (HEAD # b # xs)"
proof -
  let ?n = "b_next (bufs s HEAD)"
  have "bnx (link_head b s) = (bnx s)(b := Some ?n, HEAD := Some b)"
       "bpv (link_head b s) = (bpv s)(b := Some HEAD, ?n := Some b)"
    using b(2) by (auto simp: link_head_def upd_buf_def Let_def fun_eq_iff)
  then show ?thesis using ring_link_second [OF r, of b] b by simp
qed

lemma blist_move:
  assumes l: "blist s xs" and b: "b < NBUF"
  shows "blist (link_head b (unlink_buf b s)) (b # remove1 b xs)"
proof -
  have "b \<in> set (HEAD # xs)" "HEAD # xs \<noteq> [b]" "b \<noteq> HEAD" using l b by (auto simp: blist_def)
  with l have "ring (bnx (unlink_buf b s)) (bpv (unlink_buf b s)) (HEAD # remove1 b xs)"
    using unlink_buf_ring [of s "HEAD # xs" b] by (simp add: blist_def)
  moreover have "b \<notin> set (remove1 b xs)" using l by (simp add: blist_def ring_Cons)
  ultimately have "ring (bnx (link_head b (unlink_buf b s))) (bpv (link_head b (unlink_buf b s)))
                    (HEAD # b # remove1 b xs)"
    using \<open>b \<noteq> HEAD\<close> by (rule link_head_ring)
  then show ?thesis using l b by (auto simp: blist_def ring_Cons)
qed

text \<open>\<open>binit\<close> builds the list.\<close>

lemma binit_loop_ring:
  assumes "ring (bnx s) (bpv s) (HEAD # xs)" "distinct bs" "set bs \<inter> set (HEAD # xs) = {}"
  shows "ring (bnx (binit_loop bs s)) (bpv (binit_loop bs s)) (HEAD # rev bs @ xs)"
  using assms
proof (induction bs arbitrary: s xs)
  case Nil
  then show ?case by simp
next
  case (Cons b bs)
  let ?s = "s\<lparr>slocks := (slocks s)(Buf_slock b := \<lparr>sl_locked = False, sl_pid = 0\<rparr>)\<rparr>"
  have "ring (bnx (link_head b ?s)) (bpv (link_head b ?s)) (HEAD # b # xs)"
    using Cons.prems by (intro link_head_ring) auto
  from Cons.IH [OF this] Cons.prems show ?case by simp
qed

lemma binit_blist: "blist (binit s) (rev [0..<NBUF])"
proof -
  define t where "t = upd_buf HEAD (b_next_update (\<lambda>_. HEAD)) (upd_buf HEAD (b_prev_update (\<lambda>_. HEAD)) s)"
  have "ring (bnx t) (bpv t) [HEAD]" by (simp add: t_def ring_Cons upd_buf_def)
  from binit_loop_ring [OF this, of "[0..<NBUF]"]
  have "ring (bnx (binit_loop [0..<NBUF] t)) (bpv (binit_loop [0..<NBUF] t)) (HEAD # rev [0..<NBUF] @ [])"
    by (simp del: upt_rec_numeral)
  moreover have "binit s = binit_loop [0..<NBUF] t" unfolding binit_def t_def Let_def ..
  ultimately show ?thesis by (simp add: blist_def lessThan_atLeast0 del: upt_rec_numeral)
qed

lemma held_triv [simp]: "held s = h \<Longrightarrow> s\<lparr>held := h\<rparr> = s"
  by auto

section \<open>The cache invariant and what the cache shows of the disk\<close>

lemma bio_invI:
  assumes "blist s xs"
    and "\<And>b c. b < NBUF \<Longrightarrow> c < NBUF \<Longrightarrow> b \<noteq> c \<Longrightarrow> b_blockno (bufs s b) = b_blockno (bufs s c) \<Longrightarrow>
      b_blockno (bufs s b) = 0"
    and "\<And>b. b < NBUF \<Longrightarrow> b_valid (bufs s b) \<Longrightarrow> b_refcnt (bufs s b) = 0 \<Longrightarrow>
      b_data (bufs s b) = disk s (b_blockno (bufs s b))"
    and "\<And>b. b < NBUF \<Longrightarrow> sl_locked (slocks s (Buf_slock b)) \<Longrightarrow> b_refcnt (bufs s b) \<noteq> 0"
  shows "bio_inv s"
  unfolding bio_inv_def using assms by blast

lemma bio_inv_list: "bio_inv s \<Longrightarrow> \<exists>xs. blist s xs"
  and bio_inv_uniq: "bio_inv s \<Longrightarrow> b < NBUF \<Longrightarrow> c < NBUF \<Longrightarrow> b \<noteq> c \<Longrightarrow>
      b_blockno (bufs s b) = b_blockno (bufs s c) \<Longrightarrow> b_blockno (bufs s b) = 0"
  and bio_inv_clean: "bio_inv s \<Longrightarrow> b < NBUF \<Longrightarrow> b_valid (bufs s b) \<Longrightarrow> b_refcnt (bufs s b) = 0 \<Longrightarrow>
      b_data (bufs s b) = disk s (b_blockno (bufs s b))"
  and bio_inv_locked: "bio_inv s \<Longrightarrow> b < NBUF \<Longrightarrow> sl_locked (slocks s (Buf_slock b)) \<Longrightarrow> b_refcnt (bufs s b) \<noteq> 0"
  unfolding bio_inv_def by blast+

lemma bview_cached:
  assumes "bio_inv s" "b < NBUF" "b_blockno (bufs s b) = n" "b_valid (bufs s b)" "n \<noteq> 0"
  shows "bview s n = b_data (bufs s b)"
proof -
  let ?P = "\<lambda>b. b_blockno (bufs s b) = n \<and> b_valid (bufs s b)"
  obtain c where c: "find ?P [0..<NBUF] = Some c"
    using assms by (cases "find ?P [0..<NBUF]") (auto simp: find_None_iff simp del: upt_rec_numeral)
  then have "c < NBUF" "?P c" by (auto simp: find_Some_iff simp del: upt_rec_numeral)
  with assms have "c = b" unfolding bio_inv_def by metis
  with c show ?thesis by (simp add: bview_def del: upt_rec_numeral)
qed

lemma bview_uncached:
  assumes "\<And>b. b < NBUF \<Longrightarrow> b_blockno (bufs s b) = n \<Longrightarrow> \<not> b_valid (bufs s b)"
  shows "bview s n = disk s n"
proof -
  have "find (\<lambda>b. b_blockno (bufs s b) = n \<and> b_valid (bufs s b)) [0..<NBUF] = None"
    using assms by (auto simp: find_None_iff simp del: upt_rec_numeral)
  then show ?thesis by (simp add: bview_def del: upt_rec_numeral)
qed

lemma bio_frame_update:
  "bio_frame s t \<Longrightarrow>
   t = s\<lparr>slocks := slocks t, ptab := ptab t, bufs := bufs t, disk := disk t, dwrites := dwrites t\<rparr>"
  by (intro bio_st.equality) (simp_all add: bio_frame_def)

lemma state_update_triv: "\<exists>st. x = (x :: proc)\<lparr>p_state := st\<rparr>"
  by (metis proc.surjective proc.update_convs(1))

lemma bio_frame_refl [simp]: "bio_frame s s"
  by (simp add: bio_frame_def state_update_triv)

lemma bio_frame_trans [trans]:
  assumes "bio_frame s t" "bio_frame t u"
  shows "bio_frame s u"
proof -
  have "\<exists>st. ptab u p = (ptab s p)\<lparr>p_state := st\<rparr>" for p
  proof -
    obtain x y where "ptab t p = (ptab s p)\<lparr>p_state := x\<rparr>" "ptab u p = (ptab t p)\<lparr>p_state := y\<rparr>"
      using assms unfolding bio_frame_def by meson
    then show ?thesis by auto
  qed
  with assms show ?thesis by (simp add: bio_frame_def)
qed

lemma bio_frame_pid: "bio_frame s t \<Longrightarrow> p_pid (ptab t p) = p_pid (ptab s p)"
proof -
  assume "bio_frame s t"
  then obtain st where "ptab t p = (ptab s p)\<lparr>p_state := st\<rparr>" unfolding bio_frame_def by blast
  then show ?thesis by simp
qed

lemma woken_only_state: "\<exists>st. woken ch P s p = (ptab s p)\<lparr>p_state := st\<rparr>"
  by (auto simp: woken_def state_update_triv)

section \<open>bget\<close>

lemma bget_hit:
  assumes inv: "bio_inv s" and rdy: "held s = []" "cur s = Some p"
    and b: "b < NBUF" "b_blockno (bufs s b) = n" "b_dev (bufs s b) = dev" "n \<noteq> 0"
    and unl: "\<not> sl_locked (slocks s (Buf_slock b))"
  shows "bget dev n s =
    Ok (b, s\<lparr>bufs := (bufs s)(b := b_refcnt_update (\<lambda>r. r + 1) (bufs s b)),
             slocks := (slocks s)(Buf_slock b := \<lparr>sl_locked = True, sl_pid = p_pid (ptab s p)\<rparr>)\<rparr>)"
proof -
  let ?P = "\<lambda>b. b_dev (bufs s b) = dev \<and> b_blockno (bufs s b) = n"
  obtain xs where l: "blist s xs" using inv by (auto simp: bio_inv_def)
  then have set: "set xs = {..<NBUF}" by (simp add: blist_def)
  obtain c where c: "find ?P xs = Some c" using set b by (cases "find ?P xs") (auto simp: find_None_iff)
  then have "c < NBUF" "?P c" using set by (auto simp: find_Some_iff)
  with inv b have "c = b" unfolding bio_inv_def by metis
  with c have "find ?P xs = Some b" by simp
  let ?s = "s\<lparr>held := [Bcache_lock]\<rparr>"
  have "blist ?s xs" using l by (simp add: blist_def)
  from blist_scan_next [OF this, of ?P] \<open>find ?P xs = Some b\<close> b rdy unl
  show ?thesis by (simp add: bget_def upd_buf_def acquiresleep_spec [where p = p])
qed

lemma bget_miss:
  assumes inv: "bio_inv s" and rdy: "held s = []" "cur s = Some p"
    and miss: "\<And>b. b < NBUF \<Longrightarrow> b_blockno (bufs s b) = n \<Longrightarrow> b_dev (bufs s b) \<noteq> dev"
    and free: "\<exists>b < NBUF. b_refcnt (bufs s b) = 0"
  obtains b where "b < NBUF" "b_refcnt (bufs s b) = 0"
    "bget dev n s =
      Ok (b, s\<lparr>bufs := (bufs s)(b := (bufs s b)\<lparr>b_dev := dev, b_blockno := n, b_valid := False, b_refcnt := 1\<rparr>),
               slocks := (slocks s)(Buf_slock b := \<lparr>sl_locked = True, sl_pid = p_pid (ptab s p)\<rparr>)\<rparr>)"
proof -
  let ?P = "\<lambda>b. b_dev (bufs s b) = dev \<and> b_blockno (bufs s b) = n"
  let ?Q = "\<lambda>b. b_refcnt (bufs s b) = 0"
  obtain xs where l: "blist s xs" using inv by (auto simp: bio_inv_def)
  then have set: "set xs = {..<NBUF}" by (simp add: blist_def)
  have nf: "find ?P xs = None" using set miss by (auto simp: find_None_iff)
  obtain b where f: "find ?Q (rev xs) = Some b"
    using set free by (cases "find ?Q (rev xs)") (auto simp: find_None_iff)
  then have b: "b < NBUF" "?Q b" using set by (auto simp: find_Some_iff) (metis length_rev lessThan_iff nth_mem set_rev)
  have unl: "\<not> sl_locked (slocks s (Buf_slock b))" using inv b unfolding bio_inv_def by blast
  let ?s = "s\<lparr>held := [Bcache_lock]\<rparr>"
  have l': "blist ?s xs" using l by (simp add: blist_def)
  have "bget dev n s =
      Ok (b, s\<lparr>bufs := (bufs s)(b := (bufs s b)\<lparr>b_dev := dev, b_blockno := n, b_valid := False, b_refcnt := 1\<rparr>),
               slocks := (slocks s)(Buf_slock b := \<lparr>sl_locked = True, sl_pid = p_pid (ptab s p)\<rparr>)\<rparr>)"
    using blist_scan_next [OF l', of ?P] blist_scan_prev [OF l', of ?Q] nf f b rdy unl
    by (simp add: bget_def upd_buf_def acquiresleep_spec [where p = p])
  with b show ?thesis using that by blast
qed

text \<open>With every buffer in use and the block not cached, \<open>bget\<close> panics.\<close>

lemma bget_no_buffers:
  assumes inv: "bio_inv s" and rdy: "held s = []"
    and miss: "\<And>b. b < NBUF \<Longrightarrow> b_blockno (bufs s b) = n \<Longrightarrow> b_dev (bufs s b) \<noteq> dev"
    and full: "\<And>b. b < NBUF \<Longrightarrow> b_refcnt (bufs s b) \<noteq> 0"
  shows "bget dev n s = Panic ''bget: no buffers''"
proof -
  let ?P = "\<lambda>b. b_dev (bufs s b) = dev \<and> b_blockno (bufs s b) = n"
  let ?Q = "\<lambda>b. b_refcnt (bufs s b) = 0"
  obtain xs where l: "blist s xs" using inv by (auto simp: bio_inv_def)
  then have set: "set xs = {..<NBUF}" by (simp add: blist_def)
  have "find ?P xs = None" "find ?Q (rev xs) = None" using set miss full by (auto simp: find_None_iff)
  moreover have "blist (s\<lparr>held := [Bcache_lock]\<rparr>) xs" using l by (simp add: blist_def)
  ultimately show ?thesis
    using blist_scan_next [of "s\<lparr>held := [Bcache_lock]\<rparr>" xs ?P] blist_scan_prev [of "s\<lparr>held := [Bcache_lock]\<rparr>" xs ?Q] rdy
    by (simp add: bget_def)
qed

section \<open>bread\<close>

lemma bread_exact:
  assumes inv: "bio_inv s" and rdy: "ready s" and av: "available s dev n"
  obtains b d r p where "cur s = Some p" "bread_buf s n b r"
    "bread dev n s = Ok (b, after_bread b dev n d r (p_pid (ptab s p)) s)"
proof -
  obtain p where p: "held s = []" "cur s = Some p" using rdy by (auto simp: ready_def)
  have n0: "n \<noteq> 0" using av by (simp add: available_def)
  show ?thesis
  proof (cases "\<exists>b < NBUF. b_blockno (bufs s b) = n")
    case True
    then obtain b where b: "b < NBUF" "b_blockno (bufs s b) = n" by blast
    with av have d: "b_dev (bufs s b) = dev" "\<not> sl_locked (slocks s (Buf_slock b))"
      by (auto simp: available_def)
    note hit = bget_hit [OF inv p b d(1) n0 d(2)]
    have buf: "bread_buf s n b (b_refcnt (bufs s b) + 1)" using b by (simp add: bread_buf_def)
    show ?thesis
    proof (cases "b_valid (bufs s b)")
      case True
      have "bview s n = b_data (bufs s b)" using bview_cached [OF inv b True n0] .
      with b d True have "b_refcnt_update (\<lambda>r. r + 1) (bufs s b) =
          (bufs s b)\<lparr>b_disk := b_disk (bufs s b), b_dev := dev, b_blockno := n, b_valid := True,
                    b_refcnt := b_refcnt (bufs s b) + 1, b_data := bview s n\<rparr>"
        by (intro buf.equality) simp_all
      then have "bread dev n s = Ok (b, after_bread b dev n (b_disk (bufs s b)) (b_refcnt (bufs s b) + 1) (p_pid (ptab s p)) s)"
        using True hit by (simp add: bread_def after_bread_def)
      then show ?thesis using that p buf by blast
    next
      case False
      have "bview s n = disk s n"
      proof (rule bview_uncached)
        fix c :: nat assume "c < NBUF" "b_blockno (bufs s c) = n"
        then have "c = b" using inv b n0 unfolding bio_inv_def by metis
        then show "\<not> b_valid (bufs s c)" using False by simp
      qed
      with b d have "(b_refcnt_update (\<lambda>r. r + 1) (bufs s b))\<lparr>b_data := disk s n, b_disk := False, b_valid := True\<rparr> =
          (bufs s b)\<lparr>b_disk := False, b_dev := dev, b_blockno := n, b_valid := True,
                    b_refcnt := b_refcnt (bufs s b) + 1, b_data := bview s n\<rparr>"
        by (intro buf.equality) simp_all
      then have "bread dev n s = Ok (b, after_bread b dev n False (b_refcnt (bufs s b) + 1) (p_pid (ptab s p)) s)"
        using False hit b p by (simp add: bread_def after_bread_def virtio_disk_rw_def upd_buf_def Let_def)
      then show ?thesis using that p buf by blast
    qed
  next
    case False
    then have miss: "\<And>b. b < NBUF \<Longrightarrow> b_blockno (bufs s b) \<noteq> n" by blast
    then have free: "\<exists>b < NBUF. b_refcnt (bufs s b) = 0" using av by (auto simp: available_def)
    have bv: "bview s n = disk s n" by (rule bview_uncached) (use miss in blast)
    obtain b where b: "b < NBUF" "b_refcnt (bufs s b) = 0"
      and get: "bget dev n s =
        Ok (b, s\<lparr>bufs := (bufs s)(b := (bufs s b)\<lparr>b_dev := dev, b_blockno := n, b_valid := False, b_refcnt := 1\<rparr>),
               slocks := (slocks s)(Buf_slock b := \<lparr>sl_locked = True, sl_pid = p_pid (ptab s p)\<rparr>)\<rparr>)"
      by (rule bget_miss [OF inv p _ free]) (use miss in blast)+
    have "(bufs s b)\<lparr>b_dev := dev, b_blockno := n, b_refcnt := 1, b_data := disk s n, b_disk := False, b_valid := True\<rparr> =
        (bufs s b)\<lparr>b_disk := False, b_dev := dev, b_blockno := n, b_valid := True, b_refcnt := 1, b_data := bview s n\<rparr>"
      using bv by (intro buf.equality) simp_all
    then have "bread dev n s = Ok (b, after_bread b dev n False 1 (p_pid (ptab s p)) s)"
      using get p by (simp add: bread_def after_bread_def virtio_disk_rw_def upd_buf_def Let_def)
    moreover have "bread_buf s n b 1" using b miss by (auto simp: bread_buf_def)
    ultimately show ?thesis using that p by blast
  qed
qed

lemma after_bread_simps [simp]:
  "b_blockno (bufs (after_bread b dev n d r pid s) b) = n"
  "b_refcnt (bufs (after_bread b dev n d r pid s) b) = r"
  "b_valid (bufs (after_bread b dev n d r pid s) b)"
  "b_data (bufs (after_bread b dev n d r pid s) b) = bview s n"
  "b_dev (bufs (after_bread b dev n d r pid s) b) = dev"
  "disk (after_bread b dev n d r pid s) = disk s"
  "dwrites (after_bread b dev n d r pid s) = dwrites s"
  "c \<noteq> b \<Longrightarrow> bufs (after_bread b dev n d r pid s) c = bufs s c"
  "slocks (after_bread b dev n d r pid s) = (slocks s)(Buf_slock b := \<lparr>sl_locked = True, sl_pid = pid\<rparr>)"
  by (simp_all add: after_bread_def)

lemma bread_buf_only:
  assumes "bio_inv s" "bread_buf s n b r" "n \<noteq> 0" "c < NBUF" "c \<noteq> b"
  shows "b_blockno (bufs s c) \<noteq> n"
  using assms bio_inv_uniq [of s c b] unfolding bread_buf_def by (auto split: if_splits)

lemma after_bread_inv:
  assumes inv: "bio_inv s" and b: "bread_buf s n b r" and r: "r \<noteq> 0" and n: "n \<noteq> 0"
  shows "bio_inv (after_bread b dev n d r pid s)"
proof -
  let ?t = "after_bread b dev n d r pid s"
  obtain xs where l: "blist s xs" using bio_inv_list [OF inv] ..
  have "same_links s ?t" by (simp add: same_links_def after_bread_def)
  from iffD2 [OF blist_same_links [OF this] l] have "blist ?t xs" .
  then show ?thesis
  proof (rule bio_invI)
    fix c c' :: nat assume c: "c < NBUF" "c' < NBUF" "c \<noteq> c'" "b_blockno (bufs ?t c) = b_blockno (bufs ?t c')"
    then show "b_blockno (bufs ?t c) = 0"
      using bread_buf_only [OF inv b n c(1)] bread_buf_only [OF inv b n c(2)] bio_inv_uniq [OF inv c(1-3)]
      by (cases "c = b"; cases "c' = b") simp_all
  next
    fix c :: nat assume "c < NBUF" "b_valid (bufs ?t c)" "b_refcnt (bufs ?t c) = 0"
    then show "b_data (bufs ?t c) = disk ?t (b_blockno (bufs ?t c))"
      using r bio_inv_clean [OF inv] by (cases "c = b") simp_all
  next
    fix c :: nat assume "c < NBUF" "sl_locked (slocks ?t (Buf_slock c))"
    then show "b_refcnt (bufs ?t c) \<noteq> 0" using r bio_inv_locked [OF inv] by (cases "c = b") simp_all
  qed
qed

lemma after_bread_bview:
  assumes inv: "bio_inv s" and b: "bread_buf s n b r" and r: "r \<noteq> 0" and n: "n \<noteq> 0" and m: "m \<noteq> 0"
  shows "bview (after_bread b dev n d r pid s) m = bview s m"
proof -
  let ?t = "after_bread b dev n d r pid s"
  note invt = after_bread_inv [OF inv b r n, of dev d pid]
  have bn: "b < NBUF" using b by (simp add: bread_buf_def)
  have tb: "b_blockno (bufs ?t b) = n" "b_valid (bufs ?t b)" "b_data (bufs ?t b) = bview s n" "disk ?t = disk s"
    and tc: "\<And>c. c \<noteq> b \<Longrightarrow> bufs ?t c = bufs s c"
    by (simp_all add: after_bread_def)
  consider "m = n" | c where "m \<noteq> n" "c < NBUF" "c \<noteq> b" "b_blockno (bufs s c) = m" "b_valid (bufs s c)"
    | "m \<noteq> n" "\<forall>c < NBUF. c \<noteq> b \<longrightarrow> b_blockno (bufs s c) = m \<longrightarrow> \<not> b_valid (bufs s c)"
    by auto
  then show ?thesis
  proof cases
    case 1
    then show ?thesis using bview_cached [OF invt bn tb(1,2) n] tb(3) by simp
  next
    case (2 c)
    then show ?thesis
      using bview_cached [OF invt \<open>c < NBUF\<close>, of m] bview_cached [OF inv \<open>c < NBUF\<close>, of m] tc [of c] m by simp
  next
    case 3
    have t: "bview ?t m = disk s m"
    proof (subst tb(4) [symmetric], rule bview_uncached)
      fix c :: nat assume "c < NBUF" "b_blockno (bufs ?t c) = m"
      with 3 tb(1) tc [of c] show "\<not> b_valid (bufs ?t c)" by (cases "c = b") auto
    qed
    show ?thesis
    proof (cases "b_blockno (bufs s b) = m \<and> b_valid (bufs s b)")
      case True
      then have "b_refcnt (bufs s b) = 0" using b 3 by (auto simp: bread_buf_def split: if_splits)
      then have "b_data (bufs s b) = disk s m" using bio_inv_clean [OF inv bn] True by simp
      then show ?thesis using t bview_cached [OF inv bn, of m] True m by simp
    next
      case False
      then have "bview s m = disk s m" using 3 by (intro bview_uncached) auto
      then show ?thesis using t by simp
    qed
  qed
qed

text \<open>\<open>bread\<close> returns the locked buffer with the content of the block and changes no block.\<close>

lemma bread_spec:
  assumes inv: "bio_inv s" and rdy: "ready s" and av: "available s dev n"
  obtains b t where "bread dev n s = Ok (b, t)" "owns t b dev n" "bio_inv t"
    "b_data (bufs t b) = bview s n" "bio_frame s t" "disk t = disk s" "dwrites t = dwrites s" "ptab t = ptab s"
    "\<And>m. m \<noteq> 0 \<Longrightarrow> bview t m = bview s m"
    "\<And>c. c \<noteq> b \<Longrightarrow> bufs t c = bufs s c"
    "\<And>l. l \<noteq> Buf_slock b \<Longrightarrow> slocks t l = slocks s l"
    "bread_buf s n b (b_refcnt (bufs t b))"
proof -
  obtain b d r p where x: "cur s = Some p" "bread_buf s n b r"
    "bread dev n s = Ok (b, after_bread b dev n d r (p_pid (ptab s p)) s)"
    by (rule bread_exact [OF inv rdy av])
  have n0: "n \<noteq> 0" using av by (simp add: available_def)
  have r0: "r \<noteq> 0"
    using x(2) av by (auto simp: bread_buf_def available_def eq_neg_iff_add_eq_0 split: if_splits)
  let ?t = "after_bread b dev n d r (p_pid (ptab s p)) s"
  have f: "bio_frame s ?t" "ptab ?t = ptab s" "cur ?t = cur s"
    by (simp_all add: bio_frame_def after_bread_def state_update_triv)
  have "owns ?t b dev n" using x(1,2) r0 f by (simp add: owns_def bread_buf_def)
  then show ?thesis
    using f x(2) after_bread_inv [OF inv x(2) r0 n0, of dev d "p_pid (ptab s p)"]
      after_bread_bview [OF inv x(2) r0 n0]
    by (intro that [OF x(3)]) simp_all
qed

text \<open>Storing into an owned buffer changes its block only.\<close>

lemma bview_buffer:
  assumes "bio_inv s" "owns s b dev n" "n \<noteq> 0"
  shows "bview s n = b_data (bufs s b)"
  using assms bview_cached [of s b n] by (simp add: owns_def)

lemma bview_cong:
  assumes "\<And>b. b < NBUF \<Longrightarrow> b_blockno (bufs s b) = m \<or> b_blockno (bufs t b) = m \<Longrightarrow>
      b_blockno (bufs t b) = b_blockno (bufs s b) \<and> b_valid (bufs t b) = b_valid (bufs s b) \<and>
      b_data (bufs t b) = b_data (bufs s b)"
    and "disk t m = disk s m"
  shows "bview t m = bview s m"
proof -
  let ?P = "\<lambda>s b. b_blockno (bufs s b) = m \<and> b_valid (bufs s b)"
  have "?P t b = ?P s b" if "b < NBUF" for b using assms(1) [OF that] by auto
  then have eq: "find (?P t) [0..<NBUF] = find (?P s) [0..<NBUF]" by (intro find_cong) (auto simp del: upt_rec_numeral)
  show ?thesis
  proof (cases "find (?P s) [0..<NBUF]")
    case None
    then show ?thesis using eq assms(2) by (simp add: bview_def del: upt_rec_numeral)
  next
    case (Some b)
    then have "b < NBUF" "b_blockno (bufs s b) = m" by (auto simp: find_Some_iff simp del: upt_rec_numeral)
    then show ?thesis using Some eq assms(1) [of b] by (simp add: bview_def del: upt_rec_numeral)
  qed
qed

lemma set_data_inv:
  assumes inv: "bio_inv s" and own: "owns s b dev n"
  shows "bio_inv (set_data b d s)"
proof -
  obtain xs where l: "blist s xs" using bio_inv_list [OF inv] ..
  have "same_links s (set_data b d s)" by (simp add: same_links_def set_data_def upd_buf_def)
  from iffD2 [OF blist_same_links [OF this] l] show ?thesis
    by (rule bio_invI) (use bio_inv_uniq [OF inv] bio_inv_clean [OF inv] bio_inv_locked [OF inv] own in
        \<open>auto simp: set_data_def upd_buf_def owns_def split: if_splits\<close>)
qed

lemma set_data_owns [simp]: "owns (set_data b d s) b dev n = owns s b dev n"
  by (simp add: owns_def set_data_def upd_buf_def)

lemma set_data_bview:
  assumes inv: "bio_inv s" and own: "owns s b dev n" and n: "n \<noteq> 0"
  shows "bview (set_data b d s) m = (if m = n then d else bview s m)"
proof (cases "m = n")
  case True
  have "bview (set_data b d s) n = b_data (bufs (set_data b d s) b)"
    by (rule bview_buffer [OF set_data_inv [OF inv own]]) (use own n in simp_all)
  then show ?thesis using True by (simp add: set_data_def upd_buf_def)
next
  case False
  then show ?thesis using own
    by (auto intro!: bview_cong simp: set_data_def upd_buf_def owns_def split: if_splits)
qed

section \<open>bwrite and brelse\<close>

lemma bwrite_exact:
  assumes rdy: "ready s" and own: "owns s b dev n"
  shows "bwrite b s = Ok (after_bwrite b n s)"
proof -
  obtain p where p: "held s = []" "cur s = Some p" using rdy by (auto simp: ready_def)
  with own have o: "sl_locked (slocks s (Buf_slock b))" "sl_pid (slocks s (Buf_slock b)) = p_pid (ptab s p)"
    "b_blockno (bufs s b) = n" by (simp_all add: owns_def)
  have "bwrite b s = virtio_disk_rw b True s" using p o by (simp add: bwrite_def holdingsleep_spec)
  also have "\<dots> = Ok (after_bwrite b n s)"
    using p o(3) by (simp add: virtio_disk_rw_def upd_buf_def after_bwrite_def)
  finally show ?thesis .
qed

lemma after_bwrite_spec:
  assumes inv: "bio_inv s" and own: "owns s b dev n" and n: "n \<noteq> 0"
  shows "bio_inv (after_bwrite b n s)" "owns (after_bwrite b n s) b dev n"
    "bview (after_bwrite b n s) m = bview s m" "bio_frame s (after_bwrite b n s)"
proof -
  let ?t = "after_bwrite b n s"
  have b: "b < NBUF" "b_blockno (bufs s b) = n" "b_valid (bufs s b)" "b_refcnt (bufs s b) \<noteq> 0"
    using own by (simp_all add: owns_def)
  obtain xs where l: "blist s xs" using bio_inv_list [OF inv] ..
  have "same_links s ?t" by (simp add: same_links_def after_bwrite_def)
  from iffD2 [OF blist_same_links [OF this] l] show invt: "bio_inv ?t"
  proof (rule bio_invI)
    fix c :: nat assume "c < NBUF" "b_valid (bufs ?t c)" "b_refcnt (bufs ?t c) = 0"
    then show "b_data (bufs ?t c) = disk ?t (b_blockno (bufs ?t c))"
      using bio_inv_clean [OF inv, of c] bio_inv_uniq [OF inv, of b c] b n
      by (cases "c = b") (auto simp: after_bwrite_def)
  qed (use bio_inv_uniq [OF inv] bio_inv_locked [OF inv] in \<open>auto simp: after_bwrite_def split: if_splits\<close>)
  show o: "owns ?t b dev n" using own by (simp add: owns_def after_bwrite_def)
  show "bio_frame s ?t" by (simp add: bio_frame_def after_bwrite_def state_update_triv)
  show "bview ?t m = bview s m"
  proof (cases "m = n")
    case True
    then show ?thesis using bview_buffer [OF invt o n] bview_buffer [OF inv own n]
      by (simp add: after_bwrite_def)
  next
    case False
    then show ?thesis by (intro bview_cong) (auto simp: after_bwrite_def)
  qed
qed

lemma only_linksE:
  assumes "only_links s t"
  obtains f g where "t = s\<lparr>bufs := \<lambda>c. (bufs s c)\<lparr>b_next := f c, b_prev := g c\<rparr>\<rparr>"
  using assms by (auto simp: only_links_def)

lemma only_links_refl: "only_links s s"
  unfolding only_links_def
  by (intro exI [where x = "\<lambda>c. b_next (bufs s c)"] exI [where x = "\<lambda>c. b_prev (bufs s c)"]) simp

lemma only_links_trans:
  assumes "only_links s t" "only_links t u"
  shows "only_links s u"
proof -
  from assms obtain f g f' g' where
    "t = s\<lparr>bufs := \<lambda>c. (bufs s c)\<lparr>b_next := f c, b_prev := g c\<rparr>\<rparr>"
    "u = t\<lparr>bufs := \<lambda>c. (bufs t c)\<lparr>b_next := f' c, b_prev := g' c\<rparr>\<rparr>"
    by (elim only_linksE)
  then have "u = s\<lparr>bufs := \<lambda>c. (bufs s c)\<lparr>b_next := f' c, b_prev := g' c\<rparr>\<rparr>" by simp
  then show ?thesis unfolding only_links_def by blast
qed

lemma only_links_next: "only_links s (upd_buf b (b_next_update (\<lambda>_. x)) s)"
proof -
  have "(bufs s)(b := (bufs s b)\<lparr>b_next := x\<rparr>) =
      (\<lambda>c. (bufs s c)\<lparr>b_next := if c = b then x else b_next (bufs s c), b_prev := b_prev (bufs s c)\<rparr>)"
    by (rule ext) (simp add: buf.equality)
  then show ?thesis unfolding only_links_def upd_buf_def by (intro exI) (simp only:)
qed

lemma only_links_prev: "only_links s (upd_buf b (b_prev_update (\<lambda>_. x)) s)"
proof -
  have "(bufs s)(b := (bufs s b)\<lparr>b_prev := x\<rparr>) =
      (\<lambda>c. (bufs s c)\<lparr>b_next := b_next (bufs s c), b_prev := if c = b then x else b_prev (bufs s c)\<rparr>)"
    by (rule ext) (simp add: buf.equality)
  then show ?thesis unfolding only_links_def upd_buf_def by (intro exI) (simp only:)
qed

lemma only_links_move: "only_links s (link_head b (unlink_buf b s))"
  unfolding link_head_def unlink_buf_def Let_def
  by (intro only_links_trans [OF _ only_links_next] only_links_trans [OF _ only_links_prev] only_links_refl)

lemma only_links_fields:
  assumes "only_links s t"
  shows "disk t = disk s" "slocks t = slocks s" "dwrites t = dwrites s" "ptab t = ptab s" "held t = held s"
    "cur t = cur s" "mem t = mem s" "bio_st.more t = bio_st.more s"
    "b_valid (bufs t c) = b_valid (bufs s c)" "b_dev (bufs t c) = b_dev (bufs s c)"
    "b_blockno (bufs t c) = b_blockno (bufs s c)" "b_refcnt (bufs t c) = b_refcnt (bufs s c)"
    "b_data (bufs t c) = b_data (bufs s c)"
  using assms by (auto elim!: only_linksE)

lemma only_links_bview: "only_links s t \<Longrightarrow> bview t m = bview s m"
  by (rule bview_cong) (simp_all add: only_links_fields)

lemma only_links_inv:
  assumes inv: "bio_inv s" and ol: "only_links s t" and l: "blist t xs"
  shows "bio_inv t"
  using l
proof (rule bio_invI)
  note f = only_links_fields [OF ol]
  fix b :: nat assume b: "b < NBUF"
  show "b_valid (bufs t b) \<Longrightarrow> b_refcnt (bufs t b) = 0 \<Longrightarrow> b_data (bufs t b) = disk t (b_blockno (bufs t b))"
    using bio_inv_clean [OF inv b] f by simp
  show "sl_locked (slocks t (Buf_slock b)) \<Longrightarrow> b_refcnt (bufs t b) \<noteq> 0" using bio_inv_locked [OF inv b] f by simp
  fix c :: nat assume "c < NBUF" "b \<noteq> c" "b_blockno (bufs t b) = b_blockno (bufs t c)"
  then show "b_blockno (bufs t b) = 0" using bio_inv_uniq [OF inv b, of c] f by simp
qed

lemma dropped_frame: "bio_frame s (dropped b s)"
  by (simp add: bio_frame_def dropped_def woken_only_state)

lemma dropped_bview: "bview (dropped b s) m = bview s m"
  by (rule bview_cong) (auto simp: dropped_def split: if_splits)

lemma dropped_inv:
  assumes inv: "bio_inv s" and own: "owns s b dev n"
    and clean: "b_refcnt (bufs s b) = 1 \<Longrightarrow> b_data (bufs s b) = disk s n"
  shows "bio_inv (dropped b s)"
proof -
  obtain xs where l: "blist s xs" using bio_inv_list [OF inv] ..
  have "same_links s (dropped b s)" by (simp add: same_links_def dropped_def)
  from iffD2 [OF blist_same_links [OF this] l] show ?thesis
  proof (rule bio_invI)
    fix c :: nat assume "c < NBUF" "b_valid (bufs (dropped b s) c)" "b_refcnt (bufs (dropped b s) c) = 0"
    then show "b_data (bufs (dropped b s) c) = disk (dropped b s) (b_blockno (bufs (dropped b s) c))"
      using bio_inv_clean [OF inv, of c] clean own by (cases "c = b") (simp_all add: dropped_def owns_def)
  next
    fix c :: nat assume "c < NBUF" "sl_locked (slocks (dropped b s) (Buf_slock c))"
    then show "b_refcnt (bufs (dropped b s) c) \<noteq> 0"
      using bio_inv_locked [OF inv, of c] by (cases "c = b") (simp_all add: dropped_def)
  next
    fix c c' :: nat assume c: "c < NBUF" "c' < NBUF" "c \<noteq> c'" "b_blockno (bufs (dropped b s) c) = b_blockno (bufs (dropped b s) c')"
    then show "b_blockno (bufs (dropped b s) c) = 0"
      using bio_inv_uniq [OF inv c(1-3)] by (cases "c = b"; cases "c' = b") (simp_all add: dropped_def)
  qed
qed

lemma upd_buf_held: "upd_buf b f (s\<lparr>held := h\<rparr>) = (upd_buf b f s)\<lparr>held := h\<rparr>"
  by (simp add: upd_buf_def)

lemma move_held: "link_head b (unlink_buf b (s\<lparr>held := h\<rparr>)) = (link_head b (unlink_buf b s))\<lparr>held := h\<rparr>"
  by (simp add: link_head_def unlink_buf_def Let_def upd_buf_held)

lemma brelse_exact:
  assumes inv: "bio_inv s" and rdy: "ready s" and own: "owns s b dev n"
    and clean: "b_refcnt (bufs s b) = 1 \<Longrightarrow> b_data (bufs s b) = disk s n"
  obtains t where "brelse b s = Ok t" "only_links (dropped b s) t" "bio_inv t"
proof -
  obtain p where p: "held s = []" "cur s = Some p" using rdy by (auto simp: ready_def)
  with own have o: "sl_locked (slocks s (Buf_slock b))" "sl_pid (slocks s (Buf_slock b)) = p_pid (ptab s p)"
    and b: "b < NBUF" by (simp_all add: owns_def)
  let ?d = "dropped b s"
  define t where "t = (if b_refcnt (bufs ?d b) = 0 then link_head b (unlink_buf b ?d) else ?d)"
  have npl: "no_proc_lock s" using p by (simp add: no_proc_lock_def)
  have h: "held ?d = []" using p by (simp add: dropped_def)
  have "?d\<lparr>held := [Bcache_lock]\<rparr> =
      upd_buf b (b_refcnt_update (\<lambda>r. r - 1))
       (s\<lparr>slocks := (slocks s)(Buf_slock b := \<lparr>sl_locked = False, sl_pid = 0\<rparr>),
          ptab := woken (Chan_slock (Buf_slock b)) {..<NPROC} s, held := [Bcache_lock]\<rparr>)"
    by (simp add: dropped_def upd_buf_def)
  moreover have "release Bcache_lock (if b_refcnt (bufs u b) = 0 then link_head b (unlink_buf b u) else u) = Ok t"
    if "u = ?d\<lparr>held := [Bcache_lock]\<rparr>" for u
    using h only_links_fields(5) [OF only_links_move, of b ?d] by (simp add: that t_def move_held)
  ultimately have "brelse b s = Ok t"
    using p o npl by (simp add: brelse_def holdingsleep_spec releasesleep_spec)
  moreover have ol: "only_links ?d t" by (simp add: t_def only_links_refl only_links_move)
  moreover have "bio_inv t"
  proof -
    note di = dropped_inv [OF inv own clean]
    obtain xs where "blist ?d xs" using bio_inv_list [OF di] by blast
    then have "\<exists>xs. blist t xs" using blist_move [OF _ b, of ?d] by (auto simp: t_def)
    then show ?thesis using only_links_inv [OF di ol] by blast
  qed
  ultimately show ?thesis using that by blast
qed

lemma brelse_spec:
  assumes inv: "bio_inv s" and rdy: "ready s" and own: "owns s b dev n"
    and clean: "b_refcnt (bufs s b) = 1 \<Longrightarrow> b_data (bufs s b) = disk s n"
  obtains t where "brelse b s = Ok t" "bio_inv t" "bio_frame s t"
    "disk t = disk s" "dwrites t = dwrites s" "\<And>m. bview t m = bview s m"
    "slocks t = (slocks s)(Buf_slock b := \<lparr>sl_locked = False, sl_pid = 0\<rparr>)"
    "\<And>c. b_dev (bufs t c) = b_dev (bufs s c)" "\<And>c. b_blockno (bufs t c) = b_blockno (bufs s c)"
    "\<And>c. b_refcnt (bufs t c) = b_refcnt (bufs s c) - (if c = b then 1 else 0)"
proof -
  obtain t where t: "brelse b s = Ok t" "only_links (dropped b s) t" "bio_inv t"
    by (rule brelse_exact [OF assms])
  note ol = only_links_fields [OF t(2)]
  have "bio_frame (dropped b s) t" using ol by (simp add: bio_frame_def state_update_triv)
  then have f: "bio_frame s t" using bio_frame_trans [OF dropped_frame] by blast
  have fld: "disk t = disk s" "dwrites t = dwrites s"
    "slocks t = (slocks s)(Buf_slock b := \<lparr>sl_locked = False, sl_pid = 0\<rparr>)"
    using ol by (simp_all add: dropped_def)
  have "\<And>m. bview t m = bview s m" using only_links_bview [OF t(2)] dropped_bview by metis
  with t f fld show ?thesis
    by (intro that [OF t(1)]) (simp_all add: ol dropped_def)
qed

end
