(* ===== verification/Pages.thy ===== *)
theory Pages
  imports Riscv
begin

text \<open>
  Memory seen page by page. \<open>PGROUNDDOWN x\<close> names the page an address lies in; a store within
  one page leaves the others alone, and an aligned load only depends on its page.
\<close>

section \<open>Pages\<close>

text \<open>Two memories that agree on a page.\<close>

definition page_eq :: "u64 \<Rightarrow> memory \<Rightarrow> memory \<Rightarrow> bool" where
  "page_eq p m m' \<longleftrightarrow> (\<forall>x. PGROUNDDOWN x = p \<longrightarrow> m x = m' x)"

text \<open>The address of entry \<open>i\<close> in an array of 64-bit words that starts at \<open>t\<close>.\<close>

definition entry :: "u64 \<Rightarrow> u64 \<Rightarrow> u64" where
  "entry t i = t + 8 * i"

lemma page_eq_refl [simp]: "page_eq p m m"
  by (simp add: page_eq_def)

lemma page_eq_sym: "page_eq p m m' \<Longrightarrow> page_eq p m' m"
  by (simp add: page_eq_def)

lemma page_eq_trans: "page_eq p m m' \<Longrightarrow> page_eq p m' m'' \<Longrightarrow> page_eq p m m''"
  by (simp add: page_eq_def)

lemma in_page_iff:
  assumes "pg_aligned p"
  shows "unat (x - p) < PGSIZE \<longleftrightarrow> PGROUNDDOWN x = p"
proof
  assume "unat (x - p) < PGSIZE"
  then have "x - p < PGSIZE" by (simp add: word_less_nat_alt)
  from page_offset(1) [OF assms this] show "PGROUNDDOWN x = p" by simp
next
  assume "PGROUNDDOWN x = p"
  then have "x - p = x mod PGSIZE" using minus_PGROUNDDOWN [of x] by simp
  then show "unat (x - p) < PGSIZE" by (simp add: unat_mod)
qed

lemma mem_write_page:
  "pg_aligned p \<Longrightarrow> mem_write m p f PGSIZE x = (if PGROUNDDOWN x = p then f (unat (x - p)) else m x)"
  unfolding mem_write_def using in_page_iff [of p x] by simp

lemma mem_write_other: "pg_aligned p \<Longrightarrow> p \<noteq> q \<Longrightarrow> page_eq q (mem_write m p f PGSIZE) m"
  by (simp add: page_eq_def mem_write_page)

lemma mem_write_part_other:
  assumes "pg_aligned p" "unat off + n \<le> PGSIZE" "p \<noteq> q"
  shows "page_eq q (mem_write m (p + off) f n) m"
  unfolding page_eq_def
proof (intro allI impI)
  fix x assume x: "PGROUNDDOWN x = q"
  have "\<not> unat (x - (p + off)) < n"
  proof
    assume l: "unat (x - (p + off)) < n"
    have "x - p = off + (x - (p + off))" by simp
    moreover have "unat off + unat (x - (p + off)) < PGSIZE" using l assms(2) by simp
    ultimately have "unat (x - p) < PGSIZE" by (metis unat_word_ariths(1) mod_less_eq_dividend order_le_less_trans)
    with in_page_iff [OF assms(1)] x assms(3) show False by simp
  qed
  then show "mem_write m (p + off) f n x = m x" by (simp add: mem_write_def)
qed

lemma mem_read_page:
  assumes "pg_aligned p" "page_eq p m m'" "i < PGSIZE"
  shows "mem_read m p i = mem_read m' p i"
proof -
  have "(of_nat i :: u64) < PGSIZE" using assms(3) by (simp add: word_less_nat_alt unat_of_nat_u64)
  from page_offset(1) [OF assms(1) this] assms(2) show ?thesis by (simp add: page_eq_def mem_read_def)
qed

section \<open>Entries of a page\<close>

lemma unat_entry_offset: "i < 512 \<Longrightarrow> unat (8 * i :: u64) = 8 * unat i"
  by (simp add: unat_word_ariths word_less_nat_alt)

lemma entry_byte:
  assumes "pg_aligned t" "i < 512" "k < 8"
  shows "PGROUNDDOWN (entry t i + k) = t"
proof -
  have "unat (8 * i) + unat k < 4096"
    using assms(2,3) unat_entry_offset [OF assms(2)] by (simp add: word_less_nat_alt)
  then have "8 * i + k < PGSIZE" by (simp add: word_less_nat_alt unat_word_ariths)
  from page_offset(1) [OF assms(1) this] show ?thesis by (simp add: entry_def add.assoc)
qed

lemma entry_page [simp]: "pg_aligned t \<Longrightarrow> i < 512 \<Longrightarrow> PGROUNDDOWN (entry t i) = t"
  using entry_byte [of t i 0] by simp

lemma of_nat_less_8: "i < 8 \<Longrightarrow> (of_nat i :: u64) < 8"
  by (simp add: word_less_nat_alt unat_of_nat_u64)

lemma ld64_page_cong:
  "pg_aligned t \<Longrightarrow> i < 512 \<Longrightarrow> page_eq t m m' \<Longrightarrow> ld64 m (entry t i) = ld64 m' (entry t i)"
  by (rule ld64_cong) (simp add: page_eq_def entry_byte of_nat_less_8)

lemma st64_other:
  assumes "pg_aligned t" "i < 512" "t \<noteq> q"
  shows "page_eq q (st64 m (entry t i) v) m"
  unfolding page_eq_def
proof (intro allI impI)
  fix x assume "PGROUNDDOWN x = q"
  moreover have "PGROUNDDOWN x = t" if "x - entry t i < 8"
    using entry_byte [OF assms(1,2) that] by simp
  ultimately show "st64 m (entry t i) v x = m x" using assms(3) by (auto simp: st64_def)
qed

lemma entry_inj: "i < 512 \<Longrightarrow> j < 512 \<Longrightarrow> entry t i = entry t j \<longleftrightarrow> i = j"
proof
  assume i: "i < 512" and j: "j < 512" and "entry t i = entry t j"
  then have "8 * i = 8 * j" by (simp add: entry_def)
  then have "unat (8 * i) = unat (8 * j)" by simp
  then show "i = j" using i j by (simp add: unat_entry_offset word_unat_eq_iff)
qed simp

lemma entry_eq_iff:
  "pg_aligned t \<Longrightarrow> pg_aligned t' \<Longrightarrow> i < 512 \<Longrightarrow> j < 512 \<Longrightarrow> entry t i = entry t' j \<longleftrightarrow> t = t' \<and> i = j"
  by (metis entry_page entry_inj)

lemma entry_disj8:
  assumes "i < 512" "j < 512" "i \<noteq> j"
  shows "disj8 (entry t i) (entry t j)"
proof -
  have *: "8 \<le> 8 * a - 8 * b" if "a < 512" "b < 512" "a \<noteq> b" for a b :: u64
  proof (cases "b \<le> a")
    case True
    then have "unat (8 * a - 8 * b) = 8 * unat a - 8 * unat b"
      using that by (simp add: unat_sub word_le_nat_alt unat_entry_offset)
    moreover have "unat b < unat a" using True that(3) by (metis order_less_le word_less_nat_alt)
    ultimately show ?thesis by (simp add: word_le_nat_alt)
  next
    case False
    then have ba: "unat a < unat b" by (simp add: word_less_nat_alt [symmetric])
    have u: "unat (8 * b - 8 * a) = 8 * unat b - 8 * unat a"
      using that ba by (simp add: unat_sub word_le_nat_alt unat_entry_offset)
    have "8 * b - 8 * a \<noteq> 0" using u ba by auto
    from unat_uminus [OF this] u have "unat (8 * a - 8 * b) = 2 ^ 64 - (8 * unat b - 8 * unat a)" by simp
    moreover have "unat b < 512" using that by (simp add: word_less_nat_alt)
    ultimately show ?thesis by (simp add: word_le_nat_alt)
  qed
  have "entry t i - entry t j = 8 * i - 8 * j" "entry t j - entry t i = 8 * j - 8 * i" by (simp_all add: entry_def)
  then show ?thesis unfolding disj8_def using *[of i j] *[of j i] assms by simp
qed

lemma ld64_st64_entry:
  assumes "pg_aligned t" "pg_aligned t'" "i < 512" "j < 512"
  shows "ld64 (st64 m (entry t i) v) (entry t' j) = (if t = t' \<and> i = j then v else ld64 m (entry t' j))"
proof (cases "t = t'")
  case True
  then show ?thesis using ld64_st64_other entry_disj8 assms by (cases "i = j") auto
next
  case False
  then show ?thesis using ld64_page_cong [OF assms(2,4)] st64_other [OF assms(1,3)] by simp
qed

lemma ld64_const:
  "pg_aligned t \<Longrightarrow> i < 512 \<Longrightarrow> ld64 (mem_write m t (\<lambda>_. 0) PGSIZE) (entry t i) = 0"
proof -
  assume t: "pg_aligned t" "i < 512"
  have "ld64 (mem_write m t (\<lambda>_. 0) PGSIZE) (entry t i) = ld64 (\<lambda>_. 0) (entry t i)"
    by (rule ld64_page_cong [OF t]) (simp add: page_eq_def mem_write_page t)
  also have "\<dots> = 0" by (rule bit_word_eqI) (simp add: ld64_def bit_rd_bytes)
  finally show ?thesis .
qed

lemma PX_less [simp]: "PX l va < 512"
  using unat_less_if_bits [of "PX l va" 9] by (simp add: macro_bits word_less_nat_alt)

end
