(* ===== verification/Strings.thy ===== *)
theory Strings
  imports Riscv
begin

text \<open>
  The memory and string routines of \<^verbatim>\<open>kernel/string.c\<close>. Routines that write work on the whole
  memory; routines that only read take the byte arrays their pointers point to. Each loop is
  compared with the block operation it stands for: \<open>memmove\<close> copies correctly also when the two
  ranges overlap.
\<close>

section \<open>Operations\<close>

fun memset_loop :: "nat \<Rightarrow> u64 \<Rightarrow> u8 \<Rightarrow> memory \<Rightarrow> memory" where
  "memset_loop 0 dst c m = m"
| "memset_loop (Suc n) dst c m = memset_loop n (dst + 1) c (m(dst := c))"

definition memset :: "u64 \<Rightarrow> u8 \<Rightarrow> u32 \<Rightarrow> memory \<Rightarrow> memory" where
  "memset dst c n m = memset_loop (unat n) dst c m"

fun memcmp_loop :: "nat \<Rightarrow> bytes \<Rightarrow> bytes \<Rightarrow> int" where
  "memcmp_loop 0 s1 s2 = 0"
| "memcmp_loop (Suc n) s1 s2 =
     (if s1 0 \<noteq> s2 0 then uint (s1 0) - uint (s2 0)
      else memcmp_loop n (\<lambda>i. s1 (i + 1)) (\<lambda>i. s2 (i + 1)))"

definition memcmp :: "bytes \<Rightarrow> bytes \<Rightarrow> u32 \<Rightarrow> int" where
  "memcmp s1 s2 n = memcmp_loop (unat n) s1 s2"

fun move_down :: "nat \<Rightarrow> u64 \<Rightarrow> u64 \<Rightarrow> memory \<Rightarrow> memory" where
  "move_down 0 d s m = m"
| "move_down (Suc n) d s m = move_down n (d - 1) (s - 1) (m(d - 1 := m (s - 1)))"

fun move_up :: "nat \<Rightarrow> u64 \<Rightarrow> u64 \<Rightarrow> memory \<Rightarrow> memory" where
  "move_up 0 d s m = m"
| "move_up (Suc n) d s m = move_up n (d + 1) (s + 1) (m(d := m s))"

definition memmove :: "u64 \<Rightarrow> u64 \<Rightarrow> u32 \<Rightarrow> memory \<Rightarrow> memory" where
  "memmove dst src n m =
     (if n = 0 then m
      else if src < dst \<and> src + ucast n > dst
      then move_down (unat n) (dst + ucast n) (src + ucast n) m
      else move_up (unat n) dst src m)"

definition memcpy :: "u64 \<Rightarrow> u64 \<Rightarrow> u32 \<Rightarrow> memory \<Rightarrow> memory" where
  "memcpy dst src n m = memmove dst src n m"

fun strncmp_loop :: "nat \<Rightarrow> bytes \<Rightarrow> bytes \<Rightarrow> int" where
  "strncmp_loop 0 p q = 0"
| "strncmp_loop (Suc n) p q =
     (if p 0 \<noteq> 0 \<and> p 0 = q 0 then strncmp_loop n (\<lambda>i. p (i + 1)) (\<lambda>i. q (i + 1))
      else uint (p 0) - uint (q 0))"

definition strncmp :: "bytes \<Rightarrow> bytes \<Rightarrow> u32 \<Rightarrow> int" where
  "strncmp p q n = strncmp_loop (unat n) p q"

text \<open>The two loops of \<open>strncpy\<close>: copy up to the terminator, then pad with zeros.\<close>

fun strncpy_pad :: "nat \<Rightarrow> u64 \<Rightarrow> memory \<Rightarrow> memory" where
  "strncpy_pad 0 s m = m"
| "strncpy_pad (Suc n) s m = strncpy_pad n (s + 1) (m(s := 0))"

fun strncpy_loop :: "nat \<Rightarrow> u64 \<Rightarrow> u64 \<Rightarrow> memory \<Rightarrow> memory" where
  "strncpy_loop 0 s t m = m"
| "strncpy_loop (Suc n) s t m =
     (let m' = m(s := m t) in
      if m t \<noteq> 0 then strncpy_loop n (s + 1) (t + 1) m' else strncpy_pad n (s + 1) m')"

definition strncpy :: "u64 \<Rightarrow> u64 \<Rightarrow> int \<Rightarrow> memory \<Rightarrow> memory" where
  "strncpy s t n m = strncpy_loop (nat n) s t m"

fun safestrcpy_loop :: "nat \<Rightarrow> u64 \<Rightarrow> u64 \<Rightarrow> memory \<Rightarrow> u64 \<times> memory" where
  "safestrcpy_loop 0 s t m = (s, m)"
| "safestrcpy_loop (Suc n) s t m =
     (let m' = m(s := m t) in
      if m t \<noteq> 0 then safestrcpy_loop n (s + 1) (t + 1) m' else (s + 1, m'))"

definition safestrcpy :: "u64 \<Rightarrow> u64 \<Rightarrow> int \<Rightarrow> memory \<Rightarrow> memory" where
  "safestrcpy s t n m =
     (if n \<le> 0 then m
      else let (s, m) = safestrcpy_loop (nat (n - 1)) s t m in m(s := 0))"

definition strlen :: "bytes \<Rightarrow> nat res" where
  "strlen s = loopr (\<lambda>n. Ok (if s n \<noteq> 0 then Inl (n + 1) else Inr n)) 0"

section \<open>memset and memmove\<close>

lemma mem_write_0 [simp]: "mem_write m d f 0 = m"
  by (simp add: mem_write_def)

text \<open>One byte and then the rest, in the two orders of the loops.\<close>

lemma mem_write_first:
  assumes "Suc n \<le> 2 ^ 64"
  shows "mem_write (m(d := f 0)) (d + 1) (\<lambda>i. f (i + 1)) n = mem_write m d f (Suc n)"
proof
  fix a
  show "mem_write (m(d := f 0)) (d + 1) (\<lambda>i. f (i + 1)) n a = mem_write m d f (Suc n) a"
  proof (cases "a = d")
    case True
    have "unat (- 1 :: u64) = 2 ^ 64 - 1" using unat_uminus [of "1 :: u64"] by simp
    with True assms show ?thesis by (simp add: mem_write_def)
  next
    case False
    then have "a - d \<noteq> 0" by simp
    moreover have e: "a - (d + 1) = (a - d) - 1" by simp
    ultimately have u: "unat (a - (d + 1)) = unat (a - d) - 1" "0 < unat (a - d)"
      unfolding e using unat_minus_one [of "a - d"] unat_gt_0 [of "a - d"] by simp_all
    then have "unat (a - (d + 1)) < n \<longleftrightarrow> unat (a - d) < Suc n" "Suc (unat (a - (d + 1))) = unat (a - d)" by linarith+
    with False show ?thesis by (simp add: mem_write_def)
  qed
qed

lemma mem_write_last:
  assumes "n < 2 ^ 64"
  shows "mem_write (m(d + of_nat n := f n)) d f n = mem_write m d f (Suc n)"
proof
  fix a
  have "a = d + of_nat n \<longleftrightarrow> unat (a - d) = n"
  proof
    assume "unat (a - d) = n"
    then have "of_nat n = a - d" using word_unat_eq_iff [of "of_nat n" "a - d"] unsigned_less [of "a - d", where ?'a = nat]
      by (simp add: unat_of_nat_u64)
    then show "a = d + of_nat n" by simp
  qed (use assms in \<open>simp add: unat_of_nat_u64\<close>)
  then show "mem_write (m(d + of_nat n := f n)) d f n a = mem_write m d f (Suc n) a"
    by (auto simp: mem_write_def less_Suc_eq)
qed

lemma memset_loop_spec: "n \<le> 2 ^ 64 \<Longrightarrow> memset_loop n d c m = mem_write m d (\<lambda>_. c) n"
proof (induction n arbitrary: d m)
  case (Suc n)
  then show ?case using mem_write_first [OF Suc.prems, of m d "\<lambda>_. c"] by simp
qed simp

lemma memset_spec: "memset d c n m = mem_write m d (\<lambda>_. c) (unat n)"
  using unsigned_less [of n, where ?'a = nat] unfolding memset_def by (subst memset_loop_spec) simp_all

text \<open>Going up, no source byte is overwritten before it is read if the source does not start
  below the destination within reach; going down, if it does not start above.\<close>

lemma move_up_spec:
  assumes "n \<le> 2 ^ 64" "\<And>i j. i < j \<Longrightarrow> j < n \<Longrightarrow> d + of_nat i \<noteq> s + of_nat j"
  shows "move_up n d s m = mem_write m d (mem_read m s) n"
  using assms
proof (induction n arbitrary: d s m)
  case (Suc n)
  have IH: "move_up n (d + 1) (s + 1) (m(d := m s)) =
      mem_write (m(d := m s)) (d + 1) (mem_read (m(d := m s)) (s + 1)) n"
  proof (rule Suc.IH)
    show "n \<le> 2 ^ 64" using Suc.prems(1) by simp
    fix i j :: nat assume "i < j" "j < n"
    with Suc.prems(2) [of "Suc i" "Suc j"] show "d + 1 + of_nat i \<noteq> s + 1 + of_nat j" by (simp add: algebra_simps)
  qed
  have "mem_read (m(d := m s)) (s + 1) i = mem_read m s (i + 1)" if "i < n" for i
    using Suc.prems(2) [of 0 "Suc i"] that by (auto simp: mem_read_def algebra_simps)
  then have "mem_write (m(d := m s)) (d + 1) (mem_read (m(d := m s)) (s + 1)) n =
      mem_write (m(d := m s)) (d + 1) (\<lambda>i. mem_read m s (i + 1)) n"
    by (auto simp: mem_write_def fun_eq_iff)
  also have "\<dots> = mem_write m d (mem_read m s) (Suc n)"
    using mem_write_first [OF Suc.prems(1), of m d "mem_read m s"] by (simp add: mem_read_def)
  finally show ?case using IH by simp
qed simp

lemma move_down_spec:
  assumes "n \<le> 2 ^ 64" "\<And>i j. i < j \<Longrightarrow> j < n \<Longrightarrow> d + of_nat j \<noteq> s + of_nat i"
  shows "move_down n (d + of_nat n) (s + of_nat n) m = mem_write m d (mem_read m s) n"
  using assms
proof (induction n arbitrary: m)
  case (Suc n)
  let ?m = "m(d + of_nat n := m (s + of_nat n))"
  have "move_down (Suc n) (d + of_nat (Suc n)) (s + of_nat (Suc n)) m = move_down n (d + of_nat n) (s + of_nat n) ?m"
    by (simp add: algebra_simps)
  also have "\<dots> = mem_write ?m d (mem_read ?m s) n" using Suc by simp
  also have "\<dots> = mem_write ?m d (mem_read m s) n"
  proof -
    have "mem_read ?m s i = mem_read m s i" if "i < n" for i
      using Suc.prems(2) [OF that] by (auto simp: mem_read_def)
    then show ?thesis by (auto simp: mem_write_def fun_eq_iff)
  qed
  also have "\<dots> = mem_write m d (mem_read m s) (Suc n)"
    using mem_write_last [of n m d "mem_read m s"] Suc.prems(1) by (simp add: mem_read_def)
  finally show ?case .
qed simp

lemma unat_add_nat: "unat a + i < 2 ^ 64 \<Longrightarrow> unat (a + of_nat i :: u64) = unat a + i"
  by (simp add: unat_word_ariths unat_of_nat_u64)

text \<open>\<open>memmove\<close> moves the old content of the source, whether or not the ranges overlap.\<close>

lemma memmove_spec:
  assumes "unat src + unat n < 2 ^ 64" "unat dst + unat n < 2 ^ 64"
  shows "memmove dst src n m = mem_write m dst (mem_read m src) (unat n)"
proof (cases "n = 0")
  case False
  have n: "(ucast n :: u64) = of_nat (unat n)" by simp
  have sn: "unat (src + ucast n) = unat src + unat n"
    unfolding n using assms(1) by (rule unat_add_nat)
  have le: "unat n \<le> 2 ^ 64" using assms(1) by simp
  have at: "unat (src + of_nat i) = unat src + i" "unat (dst + of_nat i) = unat dst + i" if "i < unat n" for i
    using assms that by (simp_all add: unat_add_nat)
  show ?thesis
  proof (cases "src < dst \<and> src + ucast n > dst")
    case True
    then have "memmove dst src n m = move_down (unat n) (dst + of_nat (unat n)) (src + of_nat (unat n)) m"
      using False by (simp add: memmove_def)
    also have "\<dots> = mem_write m dst (mem_read m src) (unat n)"
    proof (rule move_down_spec [OF le])
      fix i j :: nat assume "i < j" "j < unat n"
      with at(1) [of i] at(2) [of j] True show "dst + of_nat j \<noteq> src + of_nat i" by (auto simp: word_less_nat_alt)
    qed
    finally show ?thesis .
  next
    case nov: False
    then have "memmove dst src n m = move_up (unat n) dst src m" using False by (auto simp: memmove_def)
    also have "\<dots> = mem_write m dst (mem_read m src) (unat n)"
    proof (rule move_up_spec [OF le])
      fix i j :: nat assume "i < j" "j < unat n"
      with at(2) [of i] at(1) [of j] nov sn show "dst + of_nat i \<noteq> src + of_nat j" by (auto simp: word_less_nat_alt)
    qed
    finally show ?thesis .
  qed
qed (simp add: memmove_def)

section \<open>Comparison\<close>

lemma memcmp_loop_zero: "memcmp_loop n s1 s2 = 0 \<longleftrightarrow> (\<forall>i < n. s1 i = s2 i)"
proof (induction n arbitrary: s1 s2)
  case (Suc n)
  have "(\<forall>i < Suc n. s1 i = s2 i) \<longleftrightarrow> s1 0 = s2 0 \<and> (\<forall>i < n. s1 (i + 1) = s2 (i + 1))"
    by (auto simp: less_Suc_eq_0_disj)
  with Suc show ?case by (simp add: word_uint_eq_iff)
qed simp

text \<open>The string a byte array holds, cut off after \<open>n\<close> bytes.\<close>

definition cstr :: "nat \<Rightarrow> bytes \<Rightarrow> u8 list" where
  "cstr n p = takeWhile (\<lambda>c. c \<noteq> 0) (map p [0..<n])"

lemma cstr_Suc: "cstr (Suc n) p = (if p 0 = 0 then [] else p 0 # cstr n (\<lambda>i. p (i + 1)))"
proof -
  have "map p [0..<Suc n] = p 0 # map (\<lambda>i. p (i + 1)) [0..<n]"
    by (simp only: upt_conv_Cons map_Suc_upt [symmetric] zero_less_Suc) simp
  then show ?thesis by (simp add: cstr_def del: upt_Suc)
qed

lemma strncmp_loop_zero: "strncmp_loop n p q = 0 \<longleftrightarrow> cstr n p = cstr n q"
proof (induction n arbitrary: p q)
  case (Suc n)
  then show ?case by (auto simp: cstr_Suc word_uint_eq_iff)
qed (simp add: cstr_def)

section \<open>strlen\<close>

lemma strlen_from:
  fixes k :: nat
  assumes "s k = 0" "\<And>i. i < k \<Longrightarrow> s i \<noteq> 0" "n \<le> k"
  shows "loopr (\<lambda>n. Ok (if s n \<noteq> 0 then Inl (n + 1) else Inr n)) n = Ok k"
  using assms(3)
proof (induction "k - n" arbitrary: n)
  case 0
  then show ?case using assms(1) by (subst loopr_unfold) simp
next
  case (Suc d)
  then have "n < k" "d = k - (n + 1)" "n + 1 \<le> k" by auto
  with Suc.hyps(1) [of "n + 1"] assms(2) show ?case by (subst loopr_unfold) simp
qed

lemma strlen_endless: "(\<And>i. s i \<noteq> 0) \<Longrightarrow> strlen s = Loop"
  unfolding strlen_def by (rule loopr_diverges [where I = "\<lambda>_. True"]) auto

end
