(* ===== verification/Walk.thy ===== *)
theory Walk
  imports Locks Pages Strings
begin

text \<open>
  Page tables (\<^verbatim>\<open>kernel/vm.c\<close>): \<open>walk\<close>, \<open>walkaddr\<close> and the copies between kernel and user memory,
  with \<open>either_copyin\<close> and \<open>either_copyout\<close> of \<^verbatim>\<open>kernel/proc.c\<close>. A page table is the three-level
  tree the hardware reads from memory. The allocator that \<open>walk\<close> calls when it may create tables
  is an argument: \<open>None\<close> is the call with \<^verbatim>\<open>alloc = 0\<close>. Kernel buffers that are not in pages of
  their own are passed as byte arrays.
\<close>

section \<open>Operations\<close>

fun walk_loop :: "('a mem_st_scheme \<Rightarrow> (u64 \<times> 'a mem_st_scheme) res) option \<Rightarrow> nat \<Rightarrow> u64 \<Rightarrow> u64 \<Rightarrow>
    'a mem_st_scheme \<Rightarrow> (u64 \<times> 'a mem_st_scheme) res" where
  "walk_loop alloc 0 pagetable va s = Ok (entry pagetable (PX 0 va), s)"
| "walk_loop alloc (Suc l) pagetable va s =
     (let pte = entry pagetable (PX (Suc l) va); e = ld64 (mem s) pte in
      if e AND PTE_V \<noteq> 0 then walk_loop alloc l (PTE2PA e) va s
      else case alloc of
        None \<Rightarrow> Ok (0, s)
      | Some kalloc \<Rightarrow>
          bindr (kalloc s) (\<lambda>(pagetable, s).
          if pagetable = 0 then Ok (0, s)
          else
            let s = s\<lparr>mem := memset pagetable 0 PGSIZE (mem s)\<rparr>;
                s = s\<lparr>mem := st64 (mem s) pte (PA2PTE pagetable OR PTE_V)\<rparr> in
            walk_loop alloc l pagetable va s))"

definition walk :: "('a mem_st_scheme \<Rightarrow> (u64 \<times> 'a mem_st_scheme) res) option \<Rightarrow> u64 \<Rightarrow> u64 \<Rightarrow>
    'a mem_st_scheme \<Rightarrow> (u64 \<times> 'a mem_st_scheme) res" where
  "walk alloc pagetable va s =
     (if va \<ge> MAXVA then Panic ''walk'' else walk_loop alloc 2 pagetable va s)"

definition walkaddr :: "u64 \<Rightarrow> u64 \<Rightarrow> 'a mem_st_scheme \<Rightarrow> u64 res" where
  "walkaddr pagetable va s =
     (if va \<ge> MAXVA then Ok 0
      else bindr (walk None pagetable va s) (\<lambda>(pte, s).
        if pte = 0 then Ok 0
        else if ld64 (mem s) pte AND PTE_V = 0 then Ok 0
        else if ld64 (mem s) pte AND PTE_U = 0 then Ok 0
        else Ok (PTE2PA (ld64 (mem s) pte))))"

text \<open>The bytes of one turn of a copy loop: up to the end of the page, at most \<open>len\<close>.\<close>

definition chunk :: "u64 \<Rightarrow> u64 \<Rightarrow> u64" where
  "chunk va len = (let n = PGSIZE - (va - PGROUNDDOWN va) in if n > len then len else n)"

lemma chunk_pos: "0 < len \<Longrightarrow> 0 < chunk va len" and chunk_le: "chunk va len \<le> len"
proof -
  have "va - PGROUNDDOWN va < PGSIZE"
    unfolding minus_PGROUNDDOWN by (simp add: word_less_nat_alt unat_mod)
  then have "PGSIZE - (va - PGROUNDDOWN va) > 0"
    by (simp add: word_greater_zero_iff)
  then show "0 < len \<Longrightarrow> 0 < chunk va len" "chunk va len \<le> len" by (auto simp: chunk_def Let_def)
qed

lemma chunk_dec: "0 < len \<Longrightarrow> unat (len - chunk va len) < unat len"
  using chunk_pos [of len va] chunk_le [of va len] by (simp add: unat_sub word_less_nat_alt word_le_nat_alt)

function copyout :: "u64 \<Rightarrow> u64 \<Rightarrow> bytes \<Rightarrow> u64 \<Rightarrow> 'a mem_st_scheme \<Rightarrow> (int \<times> 'a mem_st_scheme) res" where
  "copyout pagetable dstva src len s =
     (if len > 0 then
        let va0 = PGROUNDDOWN dstva in
        if va0 \<ge> MAXVA then Ok (-1, s)
        else bindr (walk None pagetable va0 s) (\<lambda>(pte, s).
          if pte = 0 \<or> ld64 (mem s) pte AND PTE_V = 0 \<or> ld64 (mem s) pte AND PTE_U = 0 \<or>
             ld64 (mem s) pte AND PTE_W = 0
          then Ok (-1, s)
          else
            let pa0 = PTE2PA (ld64 (mem s) pte);
                n = chunk dstva len;
                s = s\<lparr>mem := mem_write (mem s) (pa0 + (dstva - va0)) src (unat n)\<rparr> in
            copyout pagetable (va0 + PGSIZE) (\<lambda>i. src (i + unat n)) (len - n) s)
      else Ok (0, s))"
  by pat_completeness auto

termination by (relation "measure (\<lambda>(pt, va, src, len, s). unat len)") (auto simp: chunk_dec)

text \<open>\<open>dst\<close> is the kernel buffer and \<open>i\<close> the position in it.\<close>

function copyin_loop :: "u64 \<Rightarrow> bytes \<Rightarrow> nat \<Rightarrow> u64 \<Rightarrow> u64 \<Rightarrow> 'a mem_st_scheme \<Rightarrow> (int \<times> bytes) res" where
  "copyin_loop pagetable dst i srcva len s =
     (if len > 0 then
        let va0 = PGROUNDDOWN srcva in
        bindr (walkaddr pagetable va0 s) (\<lambda>pa0.
        if pa0 = 0 then Ok (-1, dst)
        else
          let n = chunk srcva len;
              dst = (\<lambda>j. if i \<le> j \<and> j < i + unat n then mem_read (mem s) (pa0 + (srcva - va0)) (j - i) else dst j) in
          copyin_loop pagetable dst (i + unat n) (va0 + PGSIZE) (len - n) s)
      else Ok (0, dst))"
  by pat_completeness auto

termination by (relation "measure (\<lambda>(pt, dst, i, va, len, s). unat len)") (auto simp: chunk_dec)

definition copyin :: "u64 \<Rightarrow> bytes \<Rightarrow> u64 \<Rightarrow> u64 \<Rightarrow> 'a mem_st_scheme \<Rightarrow> (int \<times> bytes) res" where
  "copyin pagetable dst srcva len s = copyin_loop pagetable dst 0 srcva len s"

text \<open>One page of \<open>copyinstr\<close>: whether the terminator was found, and the buffer.\<close>

fun copyinstr_page :: "nat \<Rightarrow> u64 \<Rightarrow> bytes \<Rightarrow> nat \<Rightarrow> memory \<Rightarrow> bool \<times> bytes" where
  "copyinstr_page 0 p dst i m = (False, dst)"
| "copyinstr_page (Suc n) p dst i m =
     (if m p = 0 then (True, dst(i := 0)) else copyinstr_page n (p + 1) (dst(i := m p)) (i + 1) m)"

function copyinstr_loop :: "u64 \<Rightarrow> bytes \<Rightarrow> nat \<Rightarrow> u64 \<Rightarrow> u64 \<Rightarrow> 'a mem_st_scheme \<Rightarrow> (int \<times> bytes) res" where
  "copyinstr_loop pagetable dst i srcva mx s =
     (if mx > 0 then
        let va0 = PGROUNDDOWN srcva in
        bindr (walkaddr pagetable va0 s) (\<lambda>pa0.
        if pa0 = 0 then Ok (-1, dst)
        else
          let n = chunk srcva mx;
              (got_null, dst) = copyinstr_page (unat n) (pa0 + (srcva - va0)) dst i (mem s) in
          if got_null then Ok (0, dst)
          else copyinstr_loop pagetable dst (i + unat n) (va0 + PGSIZE) (mx - n) s)
      else Ok (-1, dst))"
  by pat_completeness auto

termination by (relation "measure (\<lambda>(pt, dst, i, va, mx, s). unat mx)") (auto simp: chunk_dec)

definition copyinstr :: "u64 \<Rightarrow> bytes \<Rightarrow> u64 \<Rightarrow> u64 \<Rightarrow> 'a mem_st_scheme \<Rightarrow> (int \<times> bytes) res" where
  "copyinstr pagetable dst srcva mx s = copyinstr_loop pagetable dst 0 srcva mx s"

definition either_copyout :: "bool \<Rightarrow> u64 \<Rightarrow> bytes \<Rightarrow> u64 \<Rightarrow> 'a mem_st_scheme \<Rightarrow> (int \<times> 'a mem_st_scheme) res" where
  "either_copyout user_dst dst src len s =
     (if user_dst
      then case cur s of
             None \<Rightarrow> Panic ''kerneltrap''
           | Some p \<Rightarrow> copyout (p_pagetable (ptab s p)) dst src len s
      else Ok (0, s\<lparr>mem := mem_write (mem s) dst src (unat (ucast len :: u32))\<rparr>))"

definition either_copyin :: "bytes \<Rightarrow> bool \<Rightarrow> u64 \<Rightarrow> u64 \<Rightarrow> 'a mem_st_scheme \<Rightarrow> (int \<times> bytes) res" where
  "either_copyin dst user_src src len s =
     (if user_src
      then case cur s of
             None \<Rightarrow> Panic ''kerneltrap''
           | Some p \<Rightarrow> copyin (p_pagetable (ptab s p)) dst src len s
      else Ok (0, \<lambda>i. if i < unat (ucast len :: u32) then mem_read (mem s) src i else dst i))"

section \<open>The tree of page tables\<close>

text \<open>The page reached from the table at \<open>t\<close> through valid entries.\<close>

fun node :: "memory \<Rightarrow> u64 \<Rightarrow> u64 list \<Rightarrow> u64 option" where
  "node m t [] = Some t"
| "node m t (i # is) =
     (let e = ld64 m (entry t i) in if e AND PTE_V \<noteq> 0 then node m (PTE2PA e) is else None)"

text \<open>The address of the last-level entry for \<open>va\<close>, or 0.\<close>

definition leaf :: "memory \<Rightarrow> u64 \<Rightarrow> u64 \<Rightarrow> u64" where
  "leaf m pt va = (case node m pt [PX 2 va, PX 1 va] of None \<Rightarrow> 0 | Some t \<Rightarrow> entry t (PX 0 va))"

definition px_list :: "u64 \<Rightarrow> u64 list" where
  "px_list va = [PX 2 va, PX 1 va, PX 0 va]"

lemma walk_None: "walk None pt va s = (if va \<ge> MAXVA then Panic ''walk'' else Ok (leaf (mem s) pt va, s))"
  by (simp add: walk_def leaf_def numeral_2_eq_2 Let_def)

lemma walkaddr_eq:
  "walkaddr pt va s =
     Ok (if va \<ge> MAXVA then 0
         else let pte = leaf (mem s) pt va; e = ld64 (mem s) pte in
              if pte = 0 \<or> e AND PTE_V = 0 \<or> e AND PTE_U = 0 then 0 else PTE2PA e)"
  by (simp add: walkaddr_def walk_None Let_def)

lemma and_bit_iff: "(e :: u64) AND 2 ^ k \<noteq> 0 \<longleftrightarrow> bit e k"
  by (simp add: bit_iff_and_push_bit_not_eq_0)

lemma pte_flag_iff [simp]:
  "(e :: u64) AND PTE_V = 0 \<longleftrightarrow> \<not> bit e 0" "e AND PTE_R = 0 \<longleftrightarrow> \<not> bit e 1"
  "e AND PTE_W = 0 \<longleftrightarrow> \<not> bit e 2" "e AND PTE_X = 0 \<longleftrightarrow> \<not> bit e 3" "e AND PTE_U = 0 \<longleftrightarrow> \<not> bit e 4"
  "e AND PTE_A = 0 \<longleftrightarrow> \<not> bit e 6" "e AND PTE_SWAPPED = 0 \<longleftrightarrow> \<not> bit e 9"
  using and_bit_iff [of e 0] and_bit_iff [of e 1] and_bit_iff [of e 2] and_bit_iff [of e 3]
    and_bit_iff [of e 4] and_bit_iff [of e 6] and_bit_iff [of e 9] by auto

lemma node_append: "node m t (is @ js) = (case node m t is of None \<Rightarrow> None | Some u \<Rightarrow> node m u js)"
  by (induction "is" arbitrary: t) (auto simp: Let_def)

lemma node_aligned: "pg_aligned t \<Longrightarrow> node m t is = Some u \<Longrightarrow> pg_aligned u"
proof (induction "is" arbitrary: t)
  case (Cons i "is")
  then show ?case using Cons.IH [OF PTE2PA_aligned] by (auto simp: Let_def split: if_splits)
qed simp

section \<open>copyin and copyinstr\<close>

text \<open>The byte a user access to \<open>va\<close> reads, if the page is mapped for the user.\<close>

definition uaddr :: "memory \<Rightarrow> u64 \<Rightarrow> u64 \<Rightarrow> u64" where
  "uaddr m pt va =
     (if va \<ge> MAXVA then 0
      else let pte = leaf m pt va; e = ld64 m pte in
           if pte = 0 \<or> e AND PTE_V = 0 \<or> e AND PTE_U = 0 then 0 else PTE2PA e)"

definition ubyte :: "memory \<Rightarrow> u64 \<Rightarrow> u64 \<Rightarrow> u8 option" where
  "ubyte m pt va =
     (let pa = uaddr m pt (PGROUNDDOWN va) in if pa = 0 then None else Some (m (pa + (va - PGROUNDDOWN va))))"

lemma walkaddr_uaddr: "walkaddr pt va s = Ok (uaddr (mem s) pt va)"
  by (simp add: walkaddr_eq uaddr_def)

lemma offset_less: "va - PGROUNDDOWN va < PGSIZE"
  unfolding minus_PGROUNDDOWN by (simp add: word_less_nat_alt unat_mod)

lemma chunk_offset: "unat (va - PGROUNDDOWN va) + unat (chunk va len) \<le> PGSIZE"
proof -
  let ?o = "va - PGROUNDDOWN va"
  have "chunk va len \<le> PGSIZE - ?o" by (auto simp: chunk_def Let_def)
  moreover have "unat (PGSIZE - ?o) = PGSIZE - unat ?o"
    using offset_less [of va] by (simp add: unat_sub word_less_nat_alt word_le_nat_alt)
  ultimately show ?thesis using offset_less [of va] by (simp add: word_less_nat_alt word_le_nat_alt)
qed

text \<open>The bytes of a chunk lie in one page; after it comes the next page.\<close>

lemma chunk_page:
  assumes "i < unat (chunk va len)"
  shows "PGROUNDDOWN (va + of_nat i) = PGROUNDDOWN va"
    "(va + of_nat i) - PGROUNDDOWN va = (va - PGROUNDDOWN va) + of_nat i"
proof -
  let ?o = "va - PGROUNDDOWN va"
  have i: "unat ?o + i < PGSIZE" using chunk_offset [of va len] assms by simp
  then have "unat (?o + of_nat i) = unat ?o + i" by (intro unat_add_nat) simp
  then have "?o + of_nat i < PGSIZE" using i by (simp add: word_less_nat_alt)
  from page_offset(1) [OF PGROUNDDOWN_aligned [of va] this] show "PGROUNDDOWN (va + of_nat i) = PGROUNDDOWN va"
    by simp
qed simp

lemma chunk_next: "chunk va len \<noteq> len \<Longrightarrow> va + chunk va len = PGROUNDDOWN va + PGSIZE"
  by (auto simp: chunk_def Let_def split: if_splits)

lemma ubyte_chunk:
  assumes "i < unat (chunk va len)" "uaddr m pt (PGROUNDDOWN va) = pa" "pa \<noteq> 0"
  shows "ubyte m pt (va + of_nat i) = Some (mem_read m (pa + (va - PGROUNDDOWN va)) i)"
  unfolding ubyte_def Let_def chunk_page(1) [OF assms(1)] using assms(2,3) by (simp add: mem_read_def algebra_simps)

text \<open>The rest of a copy after its first chunk.\<close>

lemma after_chunk:
  assumes "len > 0" "unat (chunk va len) \<le> i" "i < unat len"
  shows "va + of_nat i = (PGROUNDDOWN va + PGSIZE) + of_nat (i - unat (chunk va len))"
    "i - unat (chunk va len) < unat (len - chunk va len)"
proof -
  have "chunk va len \<noteq> len" using assms by auto
  then have "va + of_nat i = va + chunk va len + of_nat (i - unat (chunk va len))"
    using assms(2) by (simp add: of_nat_diff)
  with chunk_next [OF \<open>chunk va len \<noteq> len\<close>] show "va + of_nat i = (PGROUNDDOWN va + PGSIZE) + of_nat (i - unat (chunk va len))"
    by simp
  show "i - unat (chunk va len) < unat (len - chunk va len)"
    using assms(2,3) chunk_le [of va len] by (simp add: unat_sub word_le_nat_alt)
qed

lemma copyin_loop_ok:
  assumes "\<And>j. j < unat len \<Longrightarrow> ubyte (mem s) pt (srcva + of_nat j) \<noteq> None"
  shows "\<exists>d. copyin_loop pt dst i srcva len s = Ok (0, d) \<and>
     (\<forall>j < unat len. ubyte (mem s) pt (srcva + of_nat j) = Some (d (i + j))) \<and>
     (\<forall>j. j < i \<or> i + unat len \<le> j \<longrightarrow> d j = dst j)"
  using assms
proof (induction pt dst i srcva len s rule: copyin_loop.induct)
  case (1 pt dst i srcva len s)
  show ?case
  proof (cases "len > 0")
    case True
    let ?n = "chunk srcva len" and ?va0 = "PGROUNDDOWN srcva" and ?pa = "uaddr (mem s) pt (PGROUNDDOWN srcva)"
    define e where "e = (\<lambda>j. if i \<le> j \<and> j < i + unat ?n then mem_read (mem s) (?pa + (srcva - ?va0)) (j - i) else dst j)"
    have pa: "?pa \<noteq> 0"
      using "1.prems" [of 0] True by (auto simp: ubyte_def Let_def word_gt_0 unat_gt_0 split: if_splits)
    have n: "unat ?n \<le> unat len" using chunk_le by (simp add: word_le_nat_alt)
    have rest: "ubyte (mem s) pt (?va0 + PGSIZE + of_nat j) = ubyte (mem s) pt (srcva + of_nat (j + unat ?n))"
      "j + unat ?n < unat len" if "j < unat (len - ?n)" for j
    proof -
      show "j + unat ?n < unat len" using that n by (simp add: unat_sub chunk_le)
      with after_chunk(1) [OF True, of srcva "j + unat ?n"]
      have "?va0 + PGSIZE + of_nat j = srcva + of_nat (j + unat ?n)" by (simp only: le_add2 add_diff_cancel_right')
      then show "ubyte (mem s) pt (?va0 + PGSIZE + of_nat j) = ubyte (mem s) pt (srcva + of_nat (j + unat ?n))" by (simp only:)
    qed
    have "\<exists>d. copyin_loop pt e (i + unat ?n) (?va0 + PGSIZE) (len - ?n) s = Ok (0, d) \<and>
        (\<forall>j < unat (len - ?n). ubyte (mem s) pt (?va0 + PGSIZE + of_nat j) = Some (d (i + unat ?n + j))) \<and>
        (\<forall>j. j < i + unat ?n \<or> i + unat ?n + unat (len - ?n) \<le> j \<longrightarrow> d j = e j)"
    proof (rule "1.IH" [OF True refl walkaddr_uaddr pa refl e_def])
      fix j assume "j < unat (len - ?n)"
      then show "ubyte (mem s) pt (?va0 + PGSIZE + of_nat j) \<noteq> None" using rest "1.prems" by metis
    qed
    then obtain d where d: "copyin_loop pt e (i + unat ?n) (?va0 + PGSIZE) (len - ?n) s = Ok (0, d)"
      "\<And>j. j < unat (len - ?n) \<Longrightarrow> ubyte (mem s) pt (?va0 + PGSIZE + of_nat j) = Some (d (i + unat ?n + j))"
      "\<And>j. j < i + unat ?n \<or> i + unat ?n + unat (len - ?n) \<le> j \<Longrightarrow> d j = e j" by blast
    have "copyin_loop pt dst i srcva len s = Ok (0, d)"
      using True pa d(1) by (subst copyin_loop.simps) (simp add: walkaddr_uaddr Let_def e_def)
    moreover have "ubyte (mem s) pt (srcva + of_nat j) = Some (d (i + j))" if "j < unat len" for j
    proof (cases "j < unat ?n")
      case True
      then show ?thesis using ubyte_chunk [OF True refl pa] d(3) [of "i + j"] by (simp add: e_def)
    next
      case False
      then have "unat ?n \<le> j" by simp
      from after_chunk [OF \<open>len > 0\<close> this that] d(2) [of "j - unat ?n"] \<open>unat ?n \<le> j\<close>
      show ?thesis by (metis add.assoc le_add_diff_inverse)
    qed
    moreover have "d j = dst j" if "j < i \<or> i + unat len \<le> j" for j
      using d(3) [of j] that n by (auto simp: e_def unat_sub chunk_le)
    ultimately show ?thesis by blast
  qed (simp add: word_gt_0)
qed

lemma copyin_loop_fails:
  assumes "j < unat len" "ubyte (mem s) pt (srcva + of_nat j) = None"
  shows "\<exists>d. copyin_loop pt dst i srcva len s = Ok (-1, d)"
  using assms
proof (induction pt dst i srcva len s arbitrary: j rule: copyin_loop.induct)
  case (1 pt dst i srcva len s)
  let ?n = "chunk srcva len" and ?va0 = "PGROUNDDOWN srcva" and ?pa = "uaddr (mem s) pt (PGROUNDDOWN srcva)"
  have len: "len > 0" using "1.prems"(1) by (auto simp: word_gt_0)
  show ?case
  proof (cases "?pa = 0")
    case True
    then show ?thesis using len by (subst copyin_loop.simps) (simp add: walkaddr_uaddr)
  next
    case False
    then have "\<not> j < unat ?n" using ubyte_chunk [of j srcva len "mem s" pt ?pa] "1.prems"(2) by auto
    then have j: "unat ?n \<le> j" by simp
    from after_chunk [OF len this "1.prems"(1)] "1.prems"(2)
    show ?thesis using "1.IH" [OF len refl walkaddr_uaddr False refl refl, of "j - unat ?n"] False len
      by (subst copyin_loop.simps) (simp add: walkaddr_uaddr Let_def)
  qed
qed

lemma copyinstr_page_none:
  "(\<And>j. j < n \<Longrightarrow> m (p + of_nat j) \<noteq> 0) \<Longrightarrow>
   copyinstr_page n p dst i m = (False, \<lambda>j. if i \<le> j \<and> j < i + n then mem_read m p (j - i) else dst j)"
proof (induction n arbitrary: p dst i)
  case (Suc n)
  have "copyinstr_page n (p + 1) (dst(i := m p)) (i + 1) m =
      (False, \<lambda>j. if i + 1 \<le> j \<and> j < i + 1 + n then mem_read m (p + 1) (j - (i + 1)) else (dst(i := m p)) j)"
    using Suc.prems [of "Suc _"] by (intro Suc.IH) (simp add: algebra_simps)
  moreover have "(\<lambda>j. if i + 1 \<le> j \<and> j < i + 1 + n then mem_read m (p + 1) (j - (i + 1)) else (dst(i := m p)) j) =
      (\<lambda>j. if i \<le> j \<and> j < i + Suc n then mem_read m p (j - i) else dst j)"
  proof
    fix j
    show "(if i + 1 \<le> j \<and> j < i + 1 + n then mem_read m (p + 1) (j - (i + 1)) else (dst(i := m p)) j) =
      (if i \<le> j \<and> j < i + Suc n then mem_read m p (j - i) else dst j)"
    proof (cases "i + 1 \<le> j")
      case True
      then have "p + 1 + of_nat (j - (i + 1)) = p + of_nat (j - i)" by (simp add: of_nat_diff algebra_simps)
      with True show ?thesis by (auto simp: mem_read_def)
    qed (auto simp: mem_read_def)
  qed
  ultimately show ?case using Suc.prems [of 0] by simp
qed (auto simp: fun_eq_iff)

lemma copyinstr_page_found:
  "k < n \<Longrightarrow> (\<And>j. j < k \<Longrightarrow> m (p + of_nat j) \<noteq> 0) \<Longrightarrow> m (p + of_nat k) = 0 \<Longrightarrow>
   \<exists>d. copyinstr_page n p dst i m = (True, d) \<and> (\<forall>j \<le> k. d (i + j) = mem_read m p j) \<and> (\<forall>j < i. d j = dst j)"
proof (induction n arbitrary: p dst i k)
  case (Suc n)
  show ?case
  proof (cases k)
    case 0
    then show ?thesis using Suc.prems by (auto simp: mem_read_def)
  next
    case (Suc k')
    have "\<exists>d. copyinstr_page n (p + 1) (dst(i := m p)) (i + 1) m = (True, d) \<and>
        (\<forall>j \<le> k'. d (i + 1 + j) = mem_read m (p + 1) j) \<and> (\<forall>j < i + 1. d j = (dst(i := m p)) j)"
      using Suc.prems Suc.prems(2) [of "Suc _"] Suc by (intro Suc.IH) (auto simp: algebra_simps)
    then obtain d where d: "copyinstr_page n (p + 1) (dst(i := m p)) (i + 1) m = (True, d)"
      "\<And>j. j \<le> k' \<Longrightarrow> d (i + 1 + j) = mem_read m (p + 1) j" "\<And>j. j < i + 1 \<Longrightarrow> d j = (dst(i := m p)) j" by blast
    have "d (i + j) = mem_read m p j" if "j \<le> k" for j
      using that d(2) [of "j - 1"] d(3) [of i] Suc
      by (cases j) (auto simp: mem_read_def algebra_simps)
    moreover have "m p \<noteq> 0" using Suc.prems(2) [of 0] Suc by simp
    ultimately show ?thesis using d by auto
  qed
qed simp

text \<open>The bytes of a string in the page of its start, and the last round of the loop, which finds the terminator in that page.\<close>

lemma copyinstr_chunk:
  assumes "k < unat mx" "\<forall>j < k. \<exists>c. ubyte (mem s) pt (srcva + of_nat j) = Some c \<and> c \<noteq> 0"
    "ubyte (mem s) pt (srcva + of_nat k) = Some 0"
  shows "mx > 0" "uaddr (mem s) pt (PGROUNDDOWN srcva) \<noteq> 0"
    "\<And>j. j < unat (chunk srcva mx) \<Longrightarrow>
      ubyte (mem s) pt (srcva + of_nat j) = Some (mem s (uaddr (mem s) pt (PGROUNDDOWN srcva) + (srcva - PGROUNDDOWN srcva) + of_nat j))"
proof -
  show "mx > 0" using assms(1) by (auto simp: word_gt_0)
  have "ubyte (mem s) pt srcva \<noteq> None" using assms(2) [rule_format, of 0] assms(3) by (cases k) auto
  then show pa: "uaddr (mem s) pt (PGROUNDDOWN srcva) \<noteq> 0" by (auto simp: ubyte_def Let_def split: if_splits)
  show "ubyte (mem s) pt (srcva + of_nat j) = Some (mem s (uaddr (mem s) pt (PGROUNDDOWN srcva) + (srcva - PGROUNDDOWN srcva) + of_nat j))"
    if "j < unat (chunk srcva mx)" for j
    using ubyte_chunk [OF that refl pa] by (simp add: mem_read_def)
qed

lemma copyinstr_last_page:
  assumes "k < unat mx" "\<forall>j < k. \<exists>c. ubyte (mem s) pt (srcva + of_nat j) = Some c \<and> c \<noteq> 0"
    "ubyte (mem s) pt (srcva + of_nat k) = Some 0" and k: "k < unat (chunk srcva mx)"
  shows "\<exists>d. copyinstr_loop pt dst i srcva mx s = Ok (0, d) \<and>
     (\<forall>j \<le> k. ubyte (mem s) pt (srcva + of_nat j) = Some (d (i + j))) \<and> (\<forall>j < i. d j = dst j)"
proof -
  let ?n = "chunk srcva mx" and ?p = "uaddr (mem s) pt (PGROUNDDOWN srcva) + (srcva - PGROUNDDOWN srcva)"
  note c = copyinstr_chunk [OF assms(1-3)]
  have "\<exists>d. copyinstr_page (unat ?n) ?p dst i (mem s) = (True, d) \<and>
      (\<forall>j \<le> k. d (i + j) = mem_read (mem s) ?p j) \<and> (\<forall>j < i. d j = dst j)"
  proof (rule copyinstr_page_found [OF k])
    show "mem s (?p + of_nat k) = 0" using c(3) [OF k] assms(3) by simp
    fix j assume "j < k"
    then show "mem s (?p + of_nat j) \<noteq> 0" using c(3) [of j] assms(2) k by auto
  qed
  then obtain d where d: "copyinstr_page (unat ?n) ?p dst i (mem s) = (True, d)"
    "\<And>j. j \<le> k \<Longrightarrow> d (i + j) = mem_read (mem s) ?p j" "\<And>j. j < i \<Longrightarrow> d j = dst j" by blast
  have "copyinstr_loop pt dst i srcva mx s = Ok (0, d)"
    using c(1,2) d(1) by (subst copyinstr_loop.simps) (simp add: walkaddr_uaddr Let_def)
  then show ?thesis using d c(3) k by (auto simp: mem_read_def)
qed

text \<open>A terminated user string shorter than the limit is copied with its terminator.\<close>

lemma copyinstr_loop_ok:
  assumes "k < unat mx" "\<And>j. j < k \<Longrightarrow> \<exists>c. ubyte (mem s) pt (srcva + of_nat j) = Some c \<and> c \<noteq> 0"
    "ubyte (mem s) pt (srcva + of_nat k) = Some 0"
  shows "\<exists>d. copyinstr_loop pt dst i srcva mx s = Ok (0, d) \<and>
     (\<forall>j \<le> k. ubyte (mem s) pt (srcva + of_nat j) = Some (d (i + j))) \<and> (\<forall>j < i. d j = dst j)"
  using assms
proof (induction pt dst i srcva mx s arbitrary: k rule: copyinstr_loop.induct)
  case (1 pt dst i srcva mx s)
  let ?n = "chunk srcva mx" and ?va0 = "PGROUNDDOWN srcva" and ?pa = "uaddr (mem s) pt (PGROUNDDOWN srcva)"
  let ?p = "?pa + (srcva - ?va0)"
  have nz: "\<forall>j < k. \<exists>c. ubyte (mem s) pt (srcva + of_nat j) = Some c \<and> c \<noteq> 0" using "1.prems"(2) by blast
  note c = copyinstr_chunk [OF "1.prems"(1) nz "1.prems"(3)]
  have mx: "mx > 0" and pa: "?pa \<noteq> 0" by (rule c)+
  have byte: "ubyte (mem s) pt (srcva + of_nat j) = Some (mem s (?p + of_nat j))" if "j < unat ?n" for j using that by (rule c(3))
  show ?case
  proof (cases "k < unat ?n")
    case True
    then show ?thesis by (rule copyinstr_last_page [OF "1.prems"(1) nz "1.prems"(3)])
  next
    case False
    then have nk: "unat ?n \<le> k" by simp
    define e where "e = (\<lambda>j. if i \<le> j \<and> j < i + unat ?n then mem_read (mem s) ?p (j - i) else dst j)"
    have page: "copyinstr_page (unat ?n) ?p dst i (mem s) = (False, e)"
      unfolding e_def
    proof (rule copyinstr_page_none)
      fix j assume "j < unat ?n"
      then show "mem s (?p + of_nat j) \<noteq> 0" using byte [of j] "1.prems"(2) [of j] nk by auto
    qed
    note ac = after_chunk [OF mx nk "1.prems"(1)]
    have shift: "?va0 + PGSIZE + of_nat j = srcva + of_nat (j + unat ?n)" if "j \<le> k - unat ?n" for j
    proof -
      have "j + unat ?n < unat mx" using that nk "1.prems"(1) by simp
      from after_chunk(1) [OF mx _ this] show ?thesis by (simp only: le_add2 add_diff_cancel_right')
    qed
    have "\<exists>d. copyinstr_loop pt e (i + unat ?n) (?va0 + PGSIZE) (mx - ?n) s = Ok (0, d) \<and>
       (\<forall>j \<le> k - unat ?n. ubyte (mem s) pt (?va0 + PGSIZE + of_nat j) = Some (d (i + unat ?n + j))) \<and>
       (\<forall>j < i + unat ?n. d j = e j)"
    proof (rule "1.IH" [OF mx refl walkaddr_uaddr pa refl page [symmetric] refl _ ac(2)])
      show "ubyte (mem s) pt (?va0 + PGSIZE + of_nat (k - unat ?n)) = Some 0"
        using shift [of "k - unat ?n"] "1.prems"(3) nk by (simp only: le_refl le_add_diff_inverse2)
      fix j assume "j < k - unat ?n"
      then show "\<exists>c. ubyte (mem s) pt (?va0 + PGSIZE + of_nat j) = Some c \<and> c \<noteq> 0"
        using shift [of j] "1.prems"(2) [of "j + unat ?n"] by (simp only: less_imp_le less_diff_conv)
    qed simp
    then obtain d where d: "copyinstr_loop pt e (i + unat ?n) (?va0 + PGSIZE) (mx - ?n) s = Ok (0, d)"
      "\<And>j. j \<le> k - unat ?n \<Longrightarrow> ubyte (mem s) pt (?va0 + PGSIZE + of_nat j) = Some (d (i + unat ?n + j))"
      "\<And>j. j < i + unat ?n \<Longrightarrow> d j = e j" by blast
    have "copyinstr_loop pt dst i srcva mx s = Ok (0, d)"
      using mx pa d(1) page by (subst copyinstr_loop.simps) (simp add: walkaddr_uaddr Let_def)
    moreover have "ubyte (mem s) pt (srcva + of_nat j) = Some (d (i + j))" if "j \<le> k" for j
    proof (cases "j < unat ?n")
      case True
      then show ?thesis using byte [OF True] d(3) [of "i + j"] by (simp add: e_def mem_read_def)
    next
      case False
      then have "j - unat ?n \<le> k - unat ?n" "j - unat ?n + unat ?n = j" using that by auto
      with d(2) [of "j - unat ?n"] shift [of "j - unat ?n"] show ?thesis by (metis add.assoc add.commute)
    qed
    moreover have "\<forall>j < i. d j = dst j" using d(3) by (simp add: e_def)
    ultimately show ?thesis by blast
  qed
qed

end
