(* ===== verification/SwapIO.thy ===== *)
theory SwapIO
  imports Bio Walk
begin

text \<open>
  Moving pages between memory and the swap area: \<open>swapread\<close> and \<open>swapwrite\<close> of \<^verbatim>\<open>kernel/fs.c\<close>.
  A swap slot is four consecutive blocks from \<^verbatim>\<open>SWAPBASE\<close> on.
\<close>

section \<open>Operations\<close>

record swapio_st = bio_st +
  nr_sectors_read :: u32
  nr_sectors_write :: u32

definition swap_blk :: "int \<Rightarrow> nat \<Rightarrow> u32" where
  "swap_blk slot i = word_of_int (SWAPBASE + 4 * slot + int i)"

fun swapread_loop :: "nat list \<Rightarrow> u64 \<Rightarrow> int \<Rightarrow> 'a swapio_st_scheme \<Rightarrow> 'a swapio_st_scheme res" where
  "swapread_loop [] pa slot s = Ok s"
| "swapread_loop (i # is) pa slot s =
     (let s = s\<lparr>nr_sectors_read := nr_sectors_read s + 1\<rparr> in
      bindr (bread 0 (swap_blk slot i) s) (\<lambda>(bp, s).
      bindr (either_copyout False (pa + of_nat i * BSIZE) (b_data (bufs s bp)) BSIZE s) (\<lambda>(r, s).
      if r = -1 then Panic ''swapread: either_copyout failed''
      else bindr (brelse bp s) (swapread_loop is pa slot))))"

definition swapread :: "u64 \<Rightarrow> int \<Rightarrow> 'a swapio_st_scheme \<Rightarrow> 'a swapio_st_scheme res" where
  "swapread pa slot s =
     (if slot < 0 \<or> slot \<ge> SWAPMAX div 4 then Panic ''swapread: slot exceeded range''
      else swapread_loop [0..<4] pa slot s)"

fun swapwrite_loop :: "nat list \<Rightarrow> u64 \<Rightarrow> int \<Rightarrow> 'a swapio_st_scheme \<Rightarrow> 'a swapio_st_scheme res" where
  "swapwrite_loop [] pa slot s = Ok s"
| "swapwrite_loop (i # is) pa slot s =
     (let s = s\<lparr>nr_sectors_write := nr_sectors_write s + 1\<rparr> in
      bindr (bread 0 (swap_blk slot i) s) (\<lambda>(bp, s).
      bindr (either_copyin (b_data (bufs s bp)) False (pa + of_nat i * BSIZE) BSIZE s) (\<lambda>(r, d).
      let s = set_data bp d s in
      if r = -1 then Panic ''swapwrite: either_copyin failed''
      else bindr (bwrite bp s) (\<lambda>s. bindr (brelse bp s) (swapwrite_loop is pa slot)))))"

definition swapwrite :: "u64 \<Rightarrow> int \<Rightarrow> 'a swapio_st_scheme \<Rightarrow> 'a swapio_st_scheme res" where
  "swapwrite pa slot s =
     (if slot < 0 \<or> slot \<ge> SWAPMAX div 4 then Panic ''swapwrite: slot exceeded range''
      else swapwrite_loop [0..<4] pa slot s)"

section \<open>The swap area and the state swapping runs in\<close>

definition in_swap :: "u32 \<Rightarrow> bool" where
  "in_swap n \<longleftrightarrow> SWAPBASE \<le> n"

text \<open>The page a slot holds.\<close>

definition slot_data :: "'a bio_st_scheme \<Rightarrow> int \<Rightarrow> bytes" where
  "slot_data s slot = (\<lambda>i. bview s (swap_blk slot (i div BSIZE)) (i mod BSIZE))"

text \<open>The cache can serve the swap area: a buffer is free, and nobody holds a swap block.\<close>

definition swap_ready :: "'a bio_st_scheme \<Rightarrow> bool" where
  "swap_ready s \<longleftrightarrow> bio_inv s \<and> ready s \<and> (\<exists>b < NBUF. b_refcnt (bufs s b) = 0) \<and>
     (\<forall>b < NBUF. in_swap (b_blockno (bufs s b)) \<longrightarrow>
        b_dev (bufs s b) = 0 \<and> \<not> sl_locked (slocks s (Buf_slock b)) \<and> b_refcnt (bufs s b) = 0)"

text \<open>What swapping leaves alone: all but memory, the cache, the disk, the counters and the
  states of processes that wait for a buffer.\<close>

definition io_frame :: "'a swapio_st_scheme \<Rightarrow> 'a swapio_st_scheme \<Rightarrow> bool" where
  "io_frame s t \<longleftrightarrow> held t = held s \<and> cur t = cur s \<and> swapio_st.more t = swapio_st.more s \<and>
     (\<forall>p. \<exists>st. ptab t p = (ptab s p)\<lparr>p_state := st\<rparr>)"

section \<open>Blocks of a slot\<close>

lemma swap_blk_unat: "0 \<le> slot \<Longrightarrow> slot < 7000 \<Longrightarrow> i < 4 \<Longrightarrow> unat (swap_blk slot i) = 2000 + 4 * nat slot + i"
proof -
  assume a: "0 \<le> slot" "slot < 7000" "i < 4"
  have "uint (swap_blk slot i) = (2000 + 4 * slot + int i) mod 2 ^ 32"
    unfolding swap_blk_def by (simp only: uint_word_of_int) simp
  also have "\<dots> = 2000 + 4 * slot + int i" using a by (intro mod_pos_pos_trivial) auto
  finally show ?thesis using a by (simp add: unat_eq_nat_uint nat_add_distrib nat_mult_distrib)
qed

lemma quad_eq_iff: "i < 4 \<Longrightarrow> j < 4 \<Longrightarrow> 4 * (a :: nat) + i = 4 * b + j \<longleftrightarrow> a = b \<and> i = j"
  by presburger

lemma swap_blk_eq_iff:
  assumes "0 \<le> slot" "slot < 7000" "i < 4" "0 \<le> slot'" "slot' < 7000" "i' < 4"
  shows "swap_blk slot i = swap_blk slot' i' \<longleftrightarrow> slot = slot' \<and> i = i'"
proof -
  have "swap_blk slot i = swap_blk slot' i' \<longleftrightarrow> 2000 + 4 * nat slot + i = 2000 + 4 * nat slot' + i'"
    using swap_blk_unat [OF assms(1-3)] swap_blk_unat [OF assms(4-6)] by (simp add: word_unat_eq_iff)
  also have "\<dots> \<longleftrightarrow> nat slot = nat slot' \<and> i = i'" using quad_eq_iff [OF assms(3,6)] by simp
  also have "\<dots> \<longleftrightarrow> slot = slot' \<and> i = i'" using assms by auto
  finally show ?thesis .
qed

lemma swap_blk_in_swap: "0 \<le> slot \<Longrightarrow> slot < 7000 \<Longrightarrow> i < 4 \<Longrightarrow> in_swap (swap_blk slot i) \<and> swap_blk slot i \<noteq> 0"
  using swap_blk_unat [of slot i] by (auto simp: in_swap_def word_le_nat_alt)

section \<open>One block\<close>

lemma bio_inv_cong:
  "bufs t = bufs s \<Longrightarrow> slocks t = slocks s \<Longrightarrow> disk t = disk s \<Longrightarrow> bio_inv t = bio_inv s"
  by (simp add: bio_inv_def blist_def)

lemma bview_fields: "bufs t = bufs s \<Longrightarrow> disk t = disk s \<Longrightarrow> bview t m = bview s m"
  by (simp add: bview_def del: upt_rec_numeral split: option.split)

lemma swap_ready_cong:
  "bufs t = bufs s \<Longrightarrow> slocks t = slocks s \<Longrightarrow> disk t = disk s \<Longrightarrow> held t = held s \<Longrightarrow> cur t = cur s \<Longrightarrow>
   swap_ready t = swap_ready s"
  using bio_inv_cong [of t s] by (simp add: swap_ready_def ready_def)

lemma swap_ready_available: "swap_ready s \<Longrightarrow> in_swap n \<Longrightarrow> available s 0 n"
  unfolding swap_ready_def available_def
proof (intro conjI)
  assume a: "bio_inv s \<and> ready s \<and> (\<exists>b < NBUF. b_refcnt (bufs s b) = 0) \<and>
     (\<forall>b < NBUF. in_swap (b_blockno (bufs s b)) \<longrightarrow>
        b_dev (bufs s b) = 0 \<and> \<not> sl_locked (slocks s (Buf_slock b)) \<and> b_refcnt (bufs s b) = 0)" and n: "in_swap n"
  show "n \<noteq> 0" using n by (auto simp: in_swap_def)
  show "\<forall>b < NBUF. b_blockno (bufs s b) = n \<longrightarrow>
      b_dev (bufs s b) = 0 \<and> \<not> sl_locked (slocks s (Buf_slock b)) \<and> b_refcnt (bufs s b) \<noteq> - 1"
    using a n by auto
  show "(\<exists>b < NBUF. b_blockno (bufs s b) = n) \<or> (\<exists>b < NBUF. b_refcnt (bufs s b) = 0)" using a by blast
qed

lemma io_frame_refl [simp]: "io_frame s s"
  by (simp add: io_frame_def state_update_triv)

lemma io_frame_trans [trans]:
  assumes "io_frame s t" "io_frame t u"
  shows "io_frame s u"
proof -
  have "\<exists>st. ptab u p = (ptab s p)\<lparr>p_state := st\<rparr>" for p
  proof -
    obtain x y where "ptab t p = (ptab s p)\<lparr>p_state := x\<rparr>" "ptab u p = (ptab t p)\<lparr>p_state := y\<rparr>"
      using assms unfolding io_frame_def by meson
    then show ?thesis by auto
  qed
  with assms show ?thesis by (simp add: io_frame_def)
qed

lemma bio_io_frame: "bio_frame s t \<Longrightarrow> io_frame s t"
proof -
  assume f: "bio_frame s t"
  then have "bio_st.more t = bio_st.more s" by (simp add: bio_frame_def)
  then have "swapio_st.more t = swapio_st.more s" by (cases s; cases t) simp
  then show "io_frame s t" using f by (simp add: bio_frame_def io_frame_def)
qed

text \<open>
  Reading and giving back one swap block, with the memory set to \<open>m\<close> between the two, and
  writing one. The cache is ready for the next block.
\<close>

lemma swap_block_get:
  assumes rdy: "swap_ready s" and n: "in_swap n"
  obtains b t where "bread 0 n s = Ok (b, t)" "owns t b 0 n" "bio_inv t" "ready t"
    "b_data (bufs t b) = bview s n" "bio_frame s t" "disk t = disk s" "dwrites t = dwrites s"
    "b_refcnt (bufs t b) = 1" "\<And>m. m \<noteq> 0 \<Longrightarrow> bview t m = bview s m"
    "\<And>c. c \<noteq> b \<Longrightarrow> bufs t c = bufs s c" "\<And>l. l \<noteq> Buf_slock b \<Longrightarrow> slocks t l = slocks s l"
    "b_valid (bufs s b) \<Longrightarrow> b_refcnt (bufs s b) = 0" "b < NBUF"
proof -
  have s: "bio_inv s" "ready s" using rdy by (simp_all add: swap_ready_def)
  note av = swap_ready_available [OF rdy n]
  obtain b t where t: "bread 0 n s = Ok (b, t)" "owns t b 0 n" "bio_inv t"
    "b_data (bufs t b) = bview s n" "bio_frame s t" "disk t = disk s" "dwrites t = dwrites s" "ptab t = ptab s"
    "\<And>m. m \<noteq> 0 \<Longrightarrow> bview t m = bview s m"
    "\<And>c. c \<noteq> b \<Longrightarrow> bufs t c = bufs s c" "\<And>l. l \<noteq> Buf_slock b \<Longrightarrow> slocks t l = slocks s l"
    "bread_buf s n b (b_refcnt (bufs t b))"
    by (rule bread_spec [OF s av], rule that)
  have b: "b < NBUF" "b_refcnt (bufs s b) = 0" "b_refcnt (bufs t b) = 1"
    using t(12) rdy n by (auto simp: bread_buf_def swap_ready_def split: if_splits)
  have "ready t" using t(5) s(2) by (simp add: ready_def bio_frame_def)
  with t b show ?thesis using that by blast
qed

lemma swap_view_disk:
  assumes rdy: "swap_ready s" and n: "in_swap n"
  shows "bview s n = disk s n"
proof (cases "\<exists>b < NBUF. b_blockno (bufs s b) = n \<and> b_valid (bufs s b)")
  case True
  then obtain b where b: "b < NBUF" "b_blockno (bufs s b) = n" "b_valid (bufs s b)" by blast
  have inv: "bio_inv s" and r: "b_refcnt (bufs s b) = 0" using rdy b n unfolding swap_ready_def by auto
  have "n \<noteq> 0" using n by (auto simp: in_swap_def)
  then show ?thesis using bview_cached [OF inv b] bio_inv_clean [OF inv b(1,3) r] b(2) by simp
next
  case False
  then show ?thesis using bview_uncached [of s n] by blast
qed

lemma swap_block_put:
  assumes rdy: "swap_ready s" and n: "in_swap n"
    and t: "bio_inv t" "ready t" "owns t b 0 n" "b_refcnt (bufs t b) = 1" "b_data (bufs t b) = disk t n"
    and oth: "\<And>c. c \<noteq> b \<Longrightarrow> bufs t c = bufs s c" "\<And>l. l \<noteq> Buf_slock b \<Longrightarrow> slocks t l = slocks s l"
  obtains u where "brelse b t = Ok u" "swap_ready u" "bio_frame t u" "disk u = disk t" "dwrites u = dwrites t"
    "\<And>m. bview u m = bview t m"
proof -
  obtain u where u: "brelse b t = Ok u" "bio_inv u" "bio_frame t u"
    "disk u = disk t" "dwrites u = dwrites t" "\<And>m. bview u m = bview t m"
    "slocks u = (slocks t)(Buf_slock b := \<lparr>sl_locked = False, sl_pid = 0\<rparr>)"
    "\<And>c. b_dev (bufs u c) = b_dev (bufs t c)" "\<And>c. b_blockno (bufs u c) = b_blockno (bufs t c)"
    "\<And>c. b_refcnt (bufs u c) = b_refcnt (bufs t c) - (if c = b then 1 else 0)"
    by (rule brelse_spec [OF t(1,2,3)], rule t(5), rule that)
  have b: "b < NBUF" "b_dev (bufs t b) = 0" using t(3) by (simp_all add: owns_def)
  have "b_refcnt (bufs u b) = 0" using u(10) [of b] t(4) by simp
  moreover have "ready u" using u(3) t(2) by (simp add: ready_def bio_frame_def)
  moreover have "b_dev (bufs u c) = 0 \<and> \<not> sl_locked (slocks u (Buf_slock c)) \<and> b_refcnt (bufs u c) = 0"
    if c: "c < NBUF" "in_swap (b_blockno (bufs u c))" for c
  proof (cases "c = b")
    case True
    then show ?thesis using u(7,8,10) b t(4) by simp
  next
    case False
    then show ?thesis using rdy c u(7-10) oth(1) [of c] oth(2) [of "Buf_slock c"] by (simp add: swap_ready_def)
  qed
  ultimately have "swap_ready u" using u(2) b(1) unfolding swap_ready_def by blast
  with u show ?thesis using that by blast
qed

lemma mem_update_simps [simp]:
  "bio_inv (s\<lparr>mem := x\<rparr>) = bio_inv s" "bview (s\<lparr>mem := x\<rparr>) m = bview s m"
  "swap_ready (s\<lparr>mem := x\<rparr>) = swap_ready s" "owns (s\<lparr>mem := x\<rparr>) b dev n = owns s b dev n" "ready (s\<lparr>mem := x\<rparr>) = ready s"
  by ((rule bio_inv_cong bview_fields swap_ready_cong; simp)+, simp_all add: owns_def ready_def)

lemma swapread_block:
  assumes rdy: "swap_ready s" and n: "in_swap n"
  obtains b t u where "bread 0 n s = Ok (b, t)" "b_data (bufs t b) = bview s n" "mem t = mem s"
    "brelse b (t\<lparr>mem := x\<rparr>) = Ok u" "swap_ready u" "mem u = x" "io_frame s u"
    "\<And>m. m \<noteq> 0 \<Longrightarrow> bview u m = bview s m" "disk u = disk s" "dwrites u = dwrites s"
proof -
  obtain b t where t: "bread 0 n s = Ok (b, t)" "owns t b 0 n" "bio_inv t" "ready t"
    "b_data (bufs t b) = bview s n" "bio_frame s t" "disk t = disk s" "dwrites t = dwrites s"
    "b_refcnt (bufs t b) = 1" "\<And>m. m \<noteq> 0 \<Longrightarrow> bview t m = bview s m"
    "\<And>c. c \<noteq> b \<Longrightarrow> bufs t c = bufs s c" "\<And>l. l \<noteq> Buf_slock b \<Longrightarrow> slocks t l = slocks s l" "b < NBUF"
    by (rule swap_block_get [OF rdy n], rule that)
  let ?t = "t\<lparr>mem := x\<rparr>"
  obtain u where u: "brelse b ?t = Ok u" "swap_ready u" "bio_frame ?t u" "disk u = disk ?t" "dwrites u = dwrites ?t"
    "\<And>m. bview u m = bview ?t m"
    by (rule swap_block_put [OF rdy n, of ?t b], insert t swap_view_disk [OF rdy n], simp_all)
  have "io_frame t ?t" by (simp add: io_frame_def state_update_triv)
  then have "io_frame s u" using bio_io_frame [OF t(6)] bio_io_frame [OF u(3)] io_frame_trans by blast
  moreover have "mem t = mem s" "mem u = x" using t(6) u(3) by (simp_all add: bio_frame_def)
  ultimately show ?thesis using t u by (intro that [of b t u]) simp_all
qed

lemma swapwrite_block:
  assumes rdy: "swap_ready s" and n: "in_swap n"
  obtains b t v u where "bread 0 n s = Ok (b, t)" "b_data (bufs t b) = bview s n" "mem t = mem s"
    "bwrite b (set_data b d t) = Ok v" "brelse b v = Ok u" "swap_ready u" "mem u = mem s" "io_frame s u"
    "\<And>m. m \<noteq> 0 \<Longrightarrow> bview u m = (if m = n then d else bview s m)"
    "disk u = (disk s)(n := d)" "dwrites u = dwrites s @ [(n, d)]"
proof -
  have n0: "n \<noteq> 0" using n by (auto simp: in_swap_def)
  obtain b t where t: "bread 0 n s = Ok (b, t)" "owns t b 0 n" "bio_inv t" "ready t"
    "b_data (bufs t b) = bview s n" "bio_frame s t" "disk t = disk s" "dwrites t = dwrites s"
    "b_refcnt (bufs t b) = 1" "\<And>m. m \<noteq> 0 \<Longrightarrow> bview t m = bview s m"
    "\<And>c. c \<noteq> b \<Longrightarrow> bufs t c = bufs s c" "\<And>l. l \<noteq> Buf_slock b \<Longrightarrow> slocks t l = slocks s l" "b < NBUF"
    by (rule swap_block_get [OF rdy n], rule that)
  let ?d = "set_data b d t" and ?v = "after_bwrite b n (set_data b d t)"
  have d: "bio_inv ?d" "owns ?d b 0 n" using set_data_inv [OF t(3,2)] t(2) by simp_all
  have d': "ready ?d" "bio_frame t ?d"
    using t(4) by (simp_all add: ready_def set_data_def upd_buf_def bio_frame_def state_update_triv)
  note v = after_bwrite_spec [OF d(1,2) n0]
  have v': "bwrite b ?d = Ok ?v" "ready ?v" using bwrite_exact [OF d'(1) d(2)] d'(1) by (simp_all add: ready_def after_bwrite_def)
  have f: "b_refcnt (bufs ?v b) = 1" "b_data (bufs ?v b) = disk ?v n" "disk ?v = (disk s)(n := d)"
    "dwrites ?v = dwrites s @ [(n, d)]" "\<And>c. c \<noteq> b \<Longrightarrow> bufs ?v c = bufs s c"
    "\<And>l. l \<noteq> Buf_slock b \<Longrightarrow> slocks ?v l = slocks s l"
    using t by (simp_all add: after_bwrite_def set_data_def upd_buf_def)
  obtain u where u: "brelse b ?v = Ok u" "swap_ready u" "bio_frame ?v u" "disk u = disk ?v" "dwrites u = dwrites ?v"
    "\<And>m. bview u m = bview ?v m"
    by (rule swap_block_put [OF rdy n v(1) v'(2) v(2) f(1,2)], erule f(5), erule f(6), rule that)
  have fr: "bio_frame s u" using t(6) d'(2) v(4) u(3) bio_frame_trans by blast
  have "bview u m = (if m = n then d else bview s m)" if "m \<noteq> 0" for m
    using u(6) v(3) set_data_bview [OF t(3,2) n0] t(10) [OF that] by simp
  moreover have "mem t = mem s" "mem u = mem s" using t(6) fr by (simp_all add: bio_frame_def)
  ultimately show ?thesis using t(1,5) v'(1) u f bio_io_frame [OF fr] by (intro that [of b t ?v u]) simp_all
qed

section \<open>swapread\<close>

lemma len_BSIZE [simp]: "unat (ucast (BSIZE :: u64) :: u32) = BSIZE"
  by simp

lemma nr_update_simps [simp]:
  "swap_ready (s\<lparr>nr_sectors_read := x\<rparr>) = swap_ready s" "swap_ready (s\<lparr>nr_sectors_write := x\<rparr>) = swap_ready s"
  "bview (s\<lparr>nr_sectors_read := x\<rparr>) m = bview s m" "bview (s\<lparr>nr_sectors_write := x\<rparr>) m = bview s m"
  by (rule bview_fields swap_ready_cong; simp)+

lemma io_frame_nr:
  "io_frame (s\<lparr>nr_sectors_read := x\<rparr>) t = io_frame s t" "io_frame (s\<lparr>nr_sectors_write := x\<rparr>) t = io_frame s t"
  by (simp_all add: io_frame_def)

lemma swapread_loop_spec:
  assumes slot: "0 \<le> slot" "slot < 7000" and "swap_ready s" "set is \<subseteq> {..<4}"
  shows "\<exists>t. swapread_loop is pa slot s = Ok t \<and> swap_ready t \<and> io_frame s t \<and> disk t = disk s \<and> dwrites t = dwrites s \<and>
     (\<forall>m. m \<noteq> 0 \<longrightarrow> bview t m = bview s m) \<and>
     mem t = fold (\<lambda>i m. mem_write m (pa + of_nat i * BSIZE) (bview s (swap_blk slot i)) BSIZE) is (mem s)"
  using assms(3,4)
proof (induction "is" arbitrary: s)
  case (Cons i "is")
  let ?n = "swap_blk slot i" and ?s = "s\<lparr>nr_sectors_read := nr_sectors_read s + 1\<rparr>"
  let ?m = "mem_write (mem s) (pa + of_nat i * BSIZE) (bview s ?n) BSIZE"
  have n: "in_swap ?n" using swap_blk_in_swap [OF slot] Cons.prems by simp
  have rdy: "swap_ready ?s" using Cons.prems by simp
  obtain b t u where x: "bread 0 ?n ?s = Ok (b, t)" "b_data (bufs t b) = bview ?s ?n" "mem t = mem ?s"
    "brelse b (t\<lparr>mem := ?m\<rparr>) = Ok u" "swap_ready u" "mem u = ?m" "io_frame ?s u"
    "\<And>m. m \<noteq> 0 \<Longrightarrow> bview u m = bview ?s m" "disk u = disk ?s" "dwrites u = dwrites ?s"
    by (rule swapread_block [OF rdy n, of ?m], rule that)
  have step: "swapread_loop (i # is) pa slot s = swapread_loop is pa slot u"
    using x(1-4) by (simp add: either_copyout_def)
  have "set is \<subseteq> {..<4}" using Cons.prems by simp
  from Cons.IH [OF x(5) this] obtain v where v: "swapread_loop is pa slot u = Ok v" "swap_ready v" "io_frame u v"
    "disk v = disk u" "dwrites v = dwrites u" "\<forall>m. m \<noteq> 0 \<longrightarrow> bview v m = bview u m"
    "mem v = fold (\<lambda>i m. mem_write m (pa + of_nat i * BSIZE) (bview u (swap_blk slot i)) BSIZE) is (mem u)" by blast
  have "bview u (swap_blk slot j) = bview s (swap_blk slot j)" if "j \<in> set is" for j
    using x(8) swap_blk_in_swap [OF slot, of j] that Cons.prems by auto
  then have "mem v = fold (\<lambda>i m. mem_write m (pa + of_nat i * BSIZE) (bview s (swap_blk slot i)) BSIZE) is ?m"
    unfolding v(7) x(6) by (intro fold_cong) auto
  moreover have "io_frame s v" using x(7) v(3) io_frame_trans unfolding io_frame_nr by blast
  moreover have "\<forall>m. m \<noteq> 0 \<longrightarrow> bview v m = bview s m" "disk v = disk s" "dwrites v = dwrites s"
    using v(4-6) x(8-10) by simp_all
  ultimately show ?case unfolding step v(1) fold_Cons comp_def using v(2) by blast
qed simp

lemma mem_write_append:
  assumes "n + k \<le> 2 ^ 64" "0 < k"
  shows "mem_write (mem_write m p f n) (p + of_nat n) g k = mem_write m p (\<lambda>i. if i < n then f i else g (i - n)) (n + k)"
proof
  fix a
  let ?o = "unat (a - p)"
  have o: "?o < 2 ^ 64" using unsigned_less [of "a - p", where ?'a = nat] by simp
  show "mem_write (mem_write m p f n) (p + of_nat n) g k a = mem_write m p (\<lambda>i. if i < n then f i else g (i - n)) (n + k) a"
  proof (cases "n \<le> ?o")
    case True
    then have "of_nat n \<le> a - p" using o by (simp add: word_le_nat_alt unat_of_nat_u64)
    then have "unat (a - p - of_nat n) = ?o - n" using o True by (simp add: unat_sub unat_of_nat_u64)
    then have e: "unat (a - (p + of_nat n)) = ?o - n" by (simp add: diff_diff_eq)
    then have "?o - n < k \<longleftrightarrow> ?o < n + k" using True by linarith
    then show ?thesis using True e unfolding mem_write_def by simp
  next
    case False
    then have lt: "\<not> of_nat n \<le> a - p" using assms by (simp add: word_le_nat_alt unat_of_nat_u64)
    have ne: "of_nat n - (a - p) \<noteq> (0 :: u64)" using lt by auto
    have "unat (of_nat n - (a - p)) = n - ?o"
      using lt False assms by (subst unat_sub) (simp_all add: word_le_nat_alt unat_of_nat_u64)
    moreover have "a - (p + of_nat n) = - (of_nat n - (a - p))" by simp
    ultimately have "unat (a - (p + of_nat n)) = 2 ^ 64 - (n - ?o)" using unat_uminus [OF ne] by (simp only:) simp
    then have "\<not> unat (a - (p + of_nat n)) < k" using assms False by simp
    then show ?thesis using False unfolding mem_write_def by simp
  qed
qed

lemma slot_data_block:
  "1024 * q \<le> i \<Longrightarrow> i < 1024 * Suc q \<Longrightarrow> slot_data s slot i = bview s (swap_blk slot q) (i - 1024 * q)"
  using div_nat_eqI [of 1024 q i] minus_mult_div_eq_mod [of i 1024] by (simp add: slot_data_def)

lemma mem_write_cong: "(\<And>i. i < n \<Longrightarrow> f i = g i) \<Longrightarrow> mem_write m p f n = mem_write m p g n"
  by (simp add: mem_write_def fun_eq_iff)

lemma slot_pages:
  "fold (\<lambda>i m. mem_write m (pa + of_nat i * BSIZE) (bview s (swap_blk slot i)) BSIZE) [0..<4] m =
   mem_write m pa (slot_data s slot) PGSIZE"
proof -
  let ?b = "\<lambda>i. bview s (swap_blk slot i)"
  have up: "[0..<4] = [0, 1, 2, 3 :: nat]" by (simp add: upt_rec)
  have 1: "mem_write (mem_write m pa (?b 0) 1024) (pa + 1024) (?b 1) 1024 =
      mem_write m pa (slot_data s slot) 2048"
    using mem_write_append [of 1024 1024 m pa "?b 0" "?b 1"] slot_data_block [of 0 _ s slot] slot_data_block [of 1 _ s slot]
    by (auto intro!: mem_write_cong)
  have 2: "mem_write (mem_write m pa (slot_data s slot) 2048) (pa + 2048) (?b 2) 1024 =
      mem_write m pa (slot_data s slot) 3072"
    using mem_write_append [of 2048 1024 m pa "slot_data s slot" "?b 2"] slot_data_block [of 2 _ s slot]
    by (auto intro!: mem_write_cong)
  have 3: "mem_write (mem_write m pa (slot_data s slot) 3072) (pa + 3072) (?b 3) 1024 =
      mem_write m pa (slot_data s slot) 4096"
    using mem_write_append [of 3072 1024 m pa "slot_data s slot" "?b 3"] slot_data_block [of 3 _ s slot]
    by (auto intro!: mem_write_cong)
  show ?thesis using 1 2 3 by (simp add: up)
qed

lemma swapread_spec:
  assumes "0 \<le> slot" "slot < 7000" "swap_ready s"
  obtains t where "swapread pa slot s = Ok t" "swap_ready t" "io_frame s t" "disk t = disk s" "dwrites t = dwrites s"
    "\<And>m. m \<noteq> 0 \<Longrightarrow> bview t m = bview s m" "mem t = mem_write (mem s) pa (slot_data s slot) PGSIZE"
proof -
  have "set [0..<4] \<subseteq> {..<4 :: nat}" by auto
  from swapread_loop_spec [OF assms this, of pa] obtain t where
    "swapread_loop [0..<4] pa slot s = Ok t" "swap_ready t" "io_frame s t" "disk t = disk s" "dwrites t = dwrites s"
    "\<forall>m. m \<noteq> 0 \<longrightarrow> bview t m = bview s m" "mem t = mem_write (mem s) pa (slot_data s slot) PGSIZE"
    unfolding slot_pages by blast
  with assms show ?thesis by (intro that [of t]) (simp_all add: swapread_def)
qed

section \<open>swapwrite\<close>

text \<open>The content of block \<open>i\<close> of a slot after the page at \<open>pa\<close> was written to it.\<close>

definition page_block :: "memory \<Rightarrow> u64 \<Rightarrow> nat \<Rightarrow> bytes \<Rightarrow> bytes" where
  "page_block m pa i old = (\<lambda>j. if j < BSIZE then mem_read m (pa + of_nat i * BSIZE) j else old j)"

lemma swapwrite_loop_spec:
  assumes slot: "0 \<le> slot" "slot < 7000" and "swap_ready s" "distinct is" "set is \<subseteq> {..<4}"
  shows "\<exists>t. swapwrite_loop is pa slot s = Ok t \<and> swap_ready t \<and> io_frame s t \<and> mem t = mem s \<and>
     (\<forall>m. m \<noteq> 0 \<longrightarrow> m \<notin> swap_blk slot ` set is \<longrightarrow> bview t m = bview s m) \<and>
     (\<forall>i \<in> set is. bview t (swap_blk slot i) = page_block (mem s) pa i (bview s (swap_blk slot i)))"
  using assms(3-5)
proof (induction "is" arbitrary: s)
  case (Cons i "is")
  let ?n = "swap_blk slot i" and ?s = "s\<lparr>nr_sectors_write := nr_sectors_write s + 1\<rparr>"
  let ?d = "page_block (mem s) pa i (bview s ?n)"
  have n: "in_swap ?n" "?n \<noteq> 0" using swap_blk_in_swap [OF slot] Cons.prems by simp_all
  have rdy: "swap_ready ?s" using Cons.prems by simp
  obtain b t v u where x: "bread 0 ?n ?s = Ok (b, t)" "b_data (bufs t b) = bview ?s ?n" "mem t = mem ?s"
    "bwrite b (set_data b ?d t) = Ok v" "brelse b v = Ok u" "swap_ready u" "mem u = mem ?s" "io_frame ?s u"
    "\<And>m. m \<noteq> 0 \<Longrightarrow> bview u m = (if m = ?n then ?d else bview ?s m)"
    by (rule swapwrite_block [OF rdy n(1), of ?d], rule that)
  have step: "swapwrite_loop (i # is) pa slot s = swapwrite_loop is pa slot u"
    using x(1-5) by (simp add: either_copyin_def page_block_def cong: if_cong)
  have "distinct is" "set is \<subseteq> {..<4}" using Cons.prems by simp_all
  from Cons.IH [OF x(6) this] obtain w where w: "swapwrite_loop is pa slot u = Ok w" "swap_ready w" "io_frame u w"
    "mem w = mem u" "\<And>m. m \<noteq> 0 \<Longrightarrow> m \<notin> swap_blk slot ` set is \<Longrightarrow> bview w m = bview u m"
    "\<And>i. i \<in> set is \<Longrightarrow> bview w (swap_blk slot i) = page_block (mem u) pa i (bview u (swap_blk slot i))" by blast
  have ne: "swap_blk slot j \<noteq> ?n" if "j \<in> set is" for j
    using swap_blk_eq_iff [OF slot _ slot, of j i] that Cons.prems by auto
  have "bview w m = bview s m" if "m \<noteq> 0" "m \<notin> swap_blk slot ` set (i # is)" for m
    using w(5) [of m] x(9) [of m] that by simp
  moreover have "bview w (swap_blk slot j) = page_block (mem s) pa j (bview s (swap_blk slot j))"
    if "j \<in> set (i # is)" for j
  proof (cases "j = i")
    case True
    then have "?n \<notin> swap_blk slot ` set is" using ne by force
    then show ?thesis using w(5) [OF n(2)] x(9) [OF n(2)] True by simp
  next
    case False
    then have j: "j \<in> set is" using that by simp
    then have "swap_blk slot j \<noteq> 0" using swap_blk_in_swap [OF slot, of j] Cons.prems by auto
    then show ?thesis using w(6) [OF j] x(7) x(9) [of "swap_blk slot j"] ne [OF j] by simp
  qed
  moreover have "io_frame s w" using x(8) w(3) io_frame_trans unfolding io_frame_nr by blast
  moreover have "mem w = mem s" using w(4) x(7) by simp
  ultimately show ?case unfolding step w(1) using w(2) by blast
qed simp

lemma slot_data_page:
  assumes "\<And>i. i < 4 \<Longrightarrow> bview t (swap_blk slot i) = page_block m pa i (old i)" "i < PGSIZE"
  shows "slot_data t slot i = mem_read m pa i"
proof -
  have "i div BSIZE < 4" using assms(2) by (simp add: less_mult_imp_div_less)
  moreover have "of_nat (i div BSIZE) * BSIZE + of_nat (i mod BSIZE) = (of_nat i :: u64)"
    by (metis of_nat_add of_nat_mult of_nat_numeral div_mult_mod_eq)
  ultimately show ?thesis using assms(1) by (simp add: slot_data_def page_block_def mem_read_def add.assoc)
qed

lemma swapwrite_spec:
  assumes "0 \<le> slot" "slot < 7000" "swap_ready s"
  obtains t where "swapwrite pa slot s = Ok t" "swap_ready t" "io_frame s t" "mem t = mem s"
    "\<And>i. i < PGSIZE \<Longrightarrow> slot_data t slot i = mem_read (mem s) pa i"
    "\<And>m. m \<noteq> 0 \<Longrightarrow> m \<notin> swap_blk slot ` {..<4} \<Longrightarrow> bview t m = bview s m"
proof -
  have "distinct [0..<4 :: nat]" "set [0..<4] \<subseteq> {..<4 :: nat}" by auto
  from swapwrite_loop_spec [OF assms this, of pa] obtain t where
    t: "swapwrite_loop [0..<4] pa slot s = Ok t" "swap_ready t" "io_frame s t" "mem t = mem s"
    "\<And>m. m \<noteq> 0 \<Longrightarrow> m \<notin> swap_blk slot ` set [0..<4] \<Longrightarrow> bview t m = bview s m"
    "\<And>i. i \<in> set [0..<4] \<Longrightarrow> bview t (swap_blk slot i) = page_block (mem s) pa i (bview s (swap_blk slot i))" by blast
  have "swapwrite pa slot s = Ok t" using t(1) assms by (simp add: swapwrite_def)
  moreover have "slot_data t slot i = mem_read (mem s) pa i" if "i < PGSIZE" for i
    using t(6) that by (intro slot_data_page) auto
  ultimately show ?thesis using t(2-5) by (intro that [of t]) (simp_all add: lessThan_atLeast0)
qed

end
