(* ===== verification/Kmem.thy ===== *)
theory Kmem
  imports SwapIO
begin

text \<open>
  The physical page allocator without swapping (\<^verbatim>\<open>kernel/kalloc.c\<close>): free pages form a list whose
  links are stored in the pages themselves. \<open>kend\<close> is the linker symbol \<^verbatim>\<open>end\<close>. The function
  \<open>kalloc\<close>, which swaps pages out when the list is empty, is in theory \<open>Swap\<close>.
\<close>

section \<open>Operations\<close>

record kmem_st = swapio_st +
  kend :: u64
  freelist :: u64

definition kfree :: "u64 \<Rightarrow> 'a kmem_st_scheme \<Rightarrow> 'a kmem_st_scheme res" where
  "kfree pa s =
     (if pa mod PGSIZE \<noteq> 0 \<or> pa < kend s \<or> pa \<ge> PHYSTOP then Panic ''kfree''
      else
        let s = s\<lparr>mem := memset pa 1 PGSIZE (mem s)\<rparr> in
        bindr (acquire Kmem_lock s) (\<lambda>s.
        let s = s\<lparr>mem := st64 (mem s) pa (freelist s)\<rparr>;
            s = s\<lparr>freelist := pa\<rparr> in
        release Kmem_lock s))"

definition freerange :: "u64 \<Rightarrow> u64 \<Rightarrow> 'a kmem_st_scheme \<Rightarrow> 'a kmem_st_scheme res" where
  "freerange pa_start pa_end s =
     loopr (\<lambda>(p, s).
       if p + PGSIZE \<le> pa_end then bindr (kfree p s) (\<lambda>s. Ok (Inl (p + PGSIZE, s)))
       else Ok (Inr s)) (PGROUNDUP pa_start, s)"

definition kinit :: "'a kmem_st_scheme \<Rightarrow> 'a kmem_st_scheme res" where
  "kinit s = freerange (kend s) PHYSTOP s"

text \<open>The first half of a turn of \<open>kalloc\<close>: take the head of the free list, 0 if it is empty.\<close>

definition kalloc_pop :: "'a kmem_st_scheme \<Rightarrow> (u64 \<times> 'a kmem_st_scheme) res" where
  "kalloc_pop s =
     bindr (acquire Kmem_lock s) (\<lambda>s.
     let r = freelist s;
         s = (if r \<noteq> 0 then s\<lparr>freelist := ld64 (mem s) r\<rparr> else s) in
     bindr (release Kmem_lock s) (\<lambda>s. Ok (r, s)))"

end
