(* ===== verification/Lru.thy ===== *)
theory Lru
  imports Kmem Ring
begin

text \<open>
  The list of resident user pages (\<^verbatim>\<open>struct page\<close> in \<^verbatim>\<open>kernel/riscv.h\<close>, \<open>lru_add\<close> and
  \<open>lru_remove\<close> in \<^verbatim>\<open>kernel/vm.c\<close>) and the bitmap of swap slots. A \<^verbatim>\<open>struct page *\<close> is the index
  into \<^verbatim>\<open>pages[]\<close>, \<open>None\<close> the null pointer; following the null pointer faults in the kernel, and
  the trap handler panics.
\<close>

section \<open>State\<close>

record page =
  pg_next :: "nat option"
  pg_prev :: "nat option"
  pg_pagetable :: u64
  pg_vaddr :: u64

record vm_st = kmem_st +
  pages :: "nat \<Rightarrow> page"
  lru_head :: "nat option"
  lru_tail :: "nat option"
  swap_bitmap :: u64
  swap_slots :: u32
  kernel_pagetable :: u64

definition upd_page :: "nat \<Rightarrow> (page \<Rightarrow> page) \<Rightarrow> 'a vm_st_scheme \<Rightarrow> 'a vm_st_scheme" where
  "upd_page i f s = s\<lparr>pages := (pages s)(i := f (pages s i))\<rparr>"

definition upd_page_ptr :: "nat option \<Rightarrow> (page \<Rightarrow> page) \<Rightarrow> 'a vm_st_scheme \<Rightarrow> 'a vm_st_scheme res" where
  "upd_page_ptr p f s = (case p of None \<Rightarrow> Panic ''kerneltrap'' | Some i \<Rightarrow> Ok (upd_page i f s))"

section \<open>Operations\<close>

definition pa2pageidx :: "u64 \<Rightarrow> nat res" where
  "pa2pageidx pa =
     (if pa < KERNBASE \<or> pa \<ge> PHYSTOP then Panic ''pa2pageidx: pa out of range''
      else Ok (unat ((pa - KERNBASE) div PGSIZE)))"

definition page_to_pa :: "nat \<Rightarrow> u64" where
  "page_to_pa i = KERNBASE + of_nat i * PGSIZE"

definition lru_add :: "nat \<Rightarrow> 'a vm_st_scheme \<Rightarrow> 'a vm_st_scheme res" where
  "lru_add pg s =
     (if lru_head s = None then
        let s = s\<lparr>lru_tail := Some pg, lru_head := Some pg\<rparr> in
        Ok (upd_page pg (\<lambda>p. p\<lparr>pg_prev := Some pg, pg_next := Some pg\<rparr>) s)
      else
        let s = upd_page pg (pg_prev_update (\<lambda>_. lru_tail s)) s;
            s = upd_page pg (pg_next_update (\<lambda>_. lru_head s)) s in
        bindr (upd_page_ptr (lru_tail s) (pg_next_update (\<lambda>_. Some pg)) s) (\<lambda>s.
        bindr (upd_page_ptr (lru_head s) (pg_prev_update (\<lambda>_. Some pg)) s) (\<lambda>s.
        Ok (s\<lparr>lru_tail := Some pg\<rparr>))))"

definition lru_remove :: "nat \<Rightarrow> 'a vm_st_scheme \<Rightarrow> 'a vm_st_scheme res" where
  "lru_remove pg s =
     (if pg_next (pages s pg) = None \<or> pg_prev (pages s pg) = None then Ok s
      else
        bindr
          (if Some pg = lru_head s \<and> Some pg = lru_tail s then Ok (s\<lparr>lru_tail := None, lru_head := None\<rparr>)
           else
             let s = (if Some pg = lru_head s then s\<lparr>lru_head := pg_next (pages s pg)\<rparr> else s);
                 s = (if Some pg = lru_tail s then s\<lparr>lru_tail := pg_prev (pages s pg)\<rparr> else s) in
             bindr (upd_page_ptr (pg_prev (pages s pg)) (pg_next_update (\<lambda>_. pg_next (pages s pg))) s) (\<lambda>s.
             upd_page_ptr (pg_next (pages s pg)) (pg_prev_update (\<lambda>_. pg_prev (pages s pg))) s))
          (\<lambda>s. Ok (upd_page pg (\<lambda>p. p\<lparr>pg_prev := None, pg_next := None\<rparr>) s)))"

text \<open>The byte of the bitmap that holds the bit of a slot, and that bit.\<close>

definition slot_byte :: "'a vm_st_scheme \<Rightarrow> nat \<Rightarrow> u64" where
  "slot_byte s i = swap_bitmap s + of_nat (i div 8)"

fun alloc_swap_slot_loop :: "nat list \<Rightarrow> 'a vm_st_scheme \<Rightarrow> (int \<times> 'a vm_st_scheme) res" where
  "alloc_swap_slot_loop [] s = bindr (release Swap_lock s) (\<lambda>s. Ok (-1, s))"
| "alloc_swap_slot_loop (i # is) s =
     (let a = slot_byte s i; b = push_bit (i mod 8) 1 in
      if mem s a AND b = 0 then
        let s = s\<lparr>mem := (mem s)(a := mem s a OR b)\<rparr> in
        bindr (release Swap_lock s) (\<lambda>s. Ok (int i, s))
      else alloc_swap_slot_loop is s)"

definition alloc_swap_slot :: "'a vm_st_scheme \<Rightarrow> (int \<times> 'a vm_st_scheme) res" where
  "alloc_swap_slot s =
     bindr (acquire Swap_lock s) (\<lambda>s. alloc_swap_slot_loop [0..<unat (swap_slots s)] s)"

definition free_swap_slot :: "int \<Rightarrow> 'a vm_st_scheme \<Rightarrow> 'a vm_st_scheme res" where
  "free_swap_slot idx s =
     bindr (acquire Swap_lock s) (\<lambda>s.
     let a = slot_byte s (nat idx); b = push_bit (nat idx mod 8) 1;
         s = s\<lparr>mem := (mem s)(a := mem s a AND NOT b)\<rparr> in
     release Swap_lock s)"

section \<open>The list\<close>

abbreviation lnx :: "'a vm_st_scheme \<Rightarrow> nat \<Rightarrow> nat option" where
  "lnx s \<equiv> (\<lambda>i. pg_next (pages s i))"

abbreviation lpv :: "'a vm_st_scheme \<Rightarrow> nat \<Rightarrow> nat option" where
  "lpv s \<equiv> (\<lambda>i. pg_prev (pages s i))"

text \<open>\<open>xs\<close> are the listed pages from head to tail; pages outside have no links.\<close>

definition lru_list :: "'a vm_st_scheme \<Rightarrow> nat list \<Rightarrow> bool" where
  "lru_list s xs \<longleftrightarrow>
     ring (lnx s) (lpv s) xs \<and>
     lru_head s = (if xs = [] then None else Some (hd xs)) \<and>
     lru_tail s = (if xs = [] then None else Some (last xs)) \<and>
     (\<forall>i. i \<notin> set xs \<longrightarrow> lnx s i = None)"

definition lru_frame :: "'a vm_st_scheme \<Rightarrow> 'a vm_st_scheme \<Rightarrow> bool" where
  "lru_frame s t \<longleftrightarrow>
     t = s\<lparr>pages := pages t, lru_head := lru_head t, lru_tail := lru_tail t\<rparr> \<and>
     (\<forall>i. pg_pagetable (pages t i) = pg_pagetable (pages s i) \<and> pg_vaddr (pages t i) = pg_vaddr (pages s i))"

lemma lru_add_spec:
  assumes l: "lru_list s xs" and pg: "pg \<notin> set xs"
  obtains t where "lru_add pg s = Ok t" "lru_list t (xs @ [pg])" "lru_frame s t"
proof (cases "xs = []")
  case True
  then have "\<exists>t. lru_add pg s = Ok t \<and> lru_list t (xs @ [pg]) \<and> lru_frame s t"
    using l by (auto simp: lru_add_def lru_list_def lru_frame_def upd_page_def ring_Cons)
  then show thesis using that by blast
next
  case False
  let ?P = "\<lambda>i. (pages s i)\<lparr>pg_next := ((lnx s)(pg := Some (hd xs), last xs := Some pg)) i,
                  pg_prev := ((lpv s)(pg := Some (last xs), hd xs := Some pg)) i\<rparr>"
  let ?t = "s\<lparr>pages := ?P, lru_tail := Some pg\<rparr>"
  have ne: "hd xs \<noteq> pg" "last xs \<noteq> pg" using False pg by (metis hd_in_set, metis last_in_set)
  have "lru_add pg s = Ok ?t"
    using l False ne
    by (auto simp: lru_add_def lru_list_def upd_page_ptr_def upd_page_def Let_def fun_eq_iff intro!: vm_st.equality page.equality)
  moreover have "lru_list ?t (xs @ [pg])"
    using ring_link_last [of "lnx s" "lpv s" xs pg] l False pg by (auto simp: lru_list_def fun_upd_def)
  moreover have "lru_frame s ?t" by (simp add: lru_frame_def)
  ultimately show thesis using that by blast
qed

lemma lru_remove_absent: "lru_list s xs \<Longrightarrow> pg \<notin> set xs \<Longrightarrow> lru_remove pg s = Ok s"
  by (simp add: lru_list_def lru_remove_def)

lemma lru_remove_spec:
  assumes l: "lru_list s xs" and pg: "pg \<in> set xs"
  obtains t where "lru_remove pg s = Ok t" "lru_list t (remove1 pg xs)" "lru_frame s t"
proof -
  from l have r: "ring (lnx s) (lpv s) xs" by (simp add: lru_list_def)
  obtain us vs n p where xs: "xs = us @ pg # vs" and r': "ring (lnx s) (lpv s) (pg # vs @ us)"
    and np: "lnx s pg = Some n" "lpv s pg = Some p" using ring_node [OF r pg] by metis
  have d: "pg \<notin> set us" "pg \<notin> set vs" using r' by (auto simp: ring_Cons)
  show thesis
  proof (cases "vs @ us = []")
    case True
    then have "\<exists>t. lru_remove pg s = Ok t \<and> lru_list t (remove1 pg xs) \<and> lru_frame s t"
      using l np xs by (auto simp: lru_remove_def lru_list_def lru_frame_def upd_page_def)
    then show thesis using that by blast
  next
    case False
    note u = ring_unlink_first [OF r' False np]
    have ne: "p \<noteq> pg" "n \<noteq> pg" using u(2,3) False d by (metis Un_iff last_in_set set_append, metis Un_iff hd_in_set set_append)
    let ?P = "\<lambda>i. (pages s i)\<lparr>pg_next := ((lnx s)(p := Some n, pg := None)) i,
                    pg_prev := ((lpv s)(n := Some p, pg := None)) i\<rparr>"
    let ?t = "s\<lparr>pages := ?P, lru_head := if us = [] then Some n else lru_head s,
                lru_tail := if vs = [] then Some p else lru_tail s\<rparr>"
    have h: "Some pg = lru_head s \<longleftrightarrow> us = []" "Some pg = lru_tail s \<longleftrightarrow> vs = []"
      using l d by (auto simp: lru_list_def xs hd_append last_append)
    have "lru_remove pg s = Ok ?t"
      using np ne False h
      by (auto simp: lru_remove_def upd_page_ptr_def upd_page_def Let_def fun_eq_iff intro!: vm_st.equality page.equality)
    moreover have "lru_list ?t (remove1 pg xs)"
    proof -
      have rm: "remove1 pg xs = us @ vs" using d by (simp add: xs remove1_append)
      have "ring ((lnx s)(p := Some n)) ((lpv s)(n := Some p)) (us @ vs)" using ring_rotate [OF u(1)] .
      then have "ring (lnx ?t) (lpv ?t) (us @ vs)"
        using d by (subst ring_cong [where nx' = "(lnx s)(p := Some n)" and pv' = "(lpv s)(n := Some p)"]) auto
      moreover have "lru_head ?t = Some (hd (us @ vs))" "lru_tail ?t = Some (last (us @ vs))"
        using l u(2,3) False by (auto simp: lru_list_def xs)
      moreover have "lnx ?t i = None" if "i \<notin> set (us @ vs)" for i
        using that l u(2) False last_in_set [OF False] by (auto simp: lru_list_def xs)
      ultimately show ?thesis using False unfolding rm lru_list_def by auto
    qed
    moreover have "lru_frame s ?t" by (simp add: lru_frame_def)
    ultimately show thesis using that by blast
  qed
qed

section \<open>Swap slots\<close>

text \<open>Bit \<open>i\<close> of the bitmap at \<open>B\<close>.\<close>

definition slot_bit :: "memory \<Rightarrow> u64 \<Rightarrow> nat \<Rightarrow> bool" where
  "slot_bit m B i = bit (m (B + of_nat (i div 8))) (i mod 8)"

lemma and_exp_8: "(w :: u8) AND 2 ^ k = 0 \<longleftrightarrow> \<not> bit w k" if "k < 8"
proof -
  have "bit (w AND 2 ^ k) n \<longleftrightarrow> bit w k \<and> n = k" for n
    using that by (auto simp: bit_and_iff bit_exp_iff)
  then show ?thesis by (metis bit_eqI bit_0_eq bot_apply bot_bool_def)
qed

lemma slot_byte_inj: "i < 32768 \<Longrightarrow> j < 32768 \<Longrightarrow> (B :: u64) + of_nat (i div 8) = B + of_nat (j div 8) \<longleftrightarrow> i div 8 = j div 8"
  by (simp add: word_unat_eq_iff [of "word_of_nat (i div 8)"] unat_of_nat_u64)

lemma div_mod_8_eq: "i div 8 = j div 8 \<Longrightarrow> i mod 8 = j mod (8 :: nat) \<longleftrightarrow> i = j"
  by (metis div_mod_decomp)

lemma slot_bit_set:
  assumes "i < 32768" "j < 32768"
  shows "slot_bit (m(B + of_nat (i div 8) := m (B + of_nat (i div 8)) OR 2 ^ (i mod 8))) B j \<longleftrightarrow> j = i \<or> slot_bit m B j"
proof (cases "i div 8 = j div 8")
  case True
  then show ?thesis using div_mod_8_eq [OF True] by (auto simp: slot_bit_def bit_or_iff bit_exp_iff)
next
  case False
  then show ?thesis using slot_byte_inj [OF assms, of B] by (auto simp: slot_bit_def)
qed

lemma slot_bit_clear:
  assumes "i < 32768" "j < 32768"
  shows "slot_bit (m(B + of_nat (i div 8) := m (B + of_nat (i div 8)) AND NOT (2 ^ (i mod 8)))) B j \<longleftrightarrow> j \<noteq> i \<and> slot_bit m B j"
proof (cases "i div 8 = j div 8")
  case True
  then show ?thesis using div_mod_8_eq [OF True] by (auto simp: slot_bit_def bit_and_iff bit_not_iff bit_exp_iff)
next
  case False
  then show ?thesis using slot_byte_inj [OF assms, of B] by (auto simp: slot_bit_def)
qed

lemma alloc_swap_slot_loop_spec:
  "Swap_lock \<in> set (held s) \<Longrightarrow>
   alloc_swap_slot_loop is s =
     (case find (\<lambda>i. \<not> slot_bit (mem s) (swap_bitmap s) i) is of
        None \<Rightarrow> Ok (-1, s\<lparr>held := remove1 Swap_lock (held s)\<rparr>)
      | Some i \<Rightarrow> Ok (int i, s\<lparr>mem := (mem s)(slot_byte s i := mem s (slot_byte s i) OR 2 ^ (i mod 8)),
                              held := remove1 Swap_lock (held s)\<rparr>))"
  by (induction "is") (auto simp: and_exp_8 slot_bit_def slot_byte_def Let_def)

lemma alloc_swap_slot_spec:
  assumes "Swap_lock \<notin> set (held s)"
  shows "alloc_swap_slot s =
     (case find (\<lambda>i. \<not> slot_bit (mem s) (swap_bitmap s) i) [0..<unat (swap_slots s)] of
        None \<Rightarrow> Ok (-1, s)
      | Some i \<Rightarrow> Ok (int i, s\<lparr>mem := (mem s)(slot_byte s i := mem s (slot_byte s i) OR 2 ^ (i mod 8))\<rparr>))"
  using assms
  by (simp add: alloc_swap_slot_def alloc_swap_slot_loop_spec slot_byte_def split: option.split)

lemma free_swap_slot_spec:
  assumes "Swap_lock \<notin> set (held s)"
  shows "free_swap_slot idx s =
    Ok (s\<lparr>mem := (mem s)(slot_byte s (nat idx) := mem s (slot_byte s (nat idx)) AND NOT (2 ^ (nat idx mod 8)))\<rparr>)"
  using assms by (simp add: free_swap_slot_def slot_byte_def Let_def)

section \<open>Page numbers\<close>

lemma page_to_pa_pa2pageidx:
  assumes "pg_aligned pa" "KERNBASE \<le> pa" "pa < PHYSTOP"
  obtains i where "pa2pageidx pa = Ok i" "page_to_pa i = pa"
proof -
  have e: "pa2pageidx pa = Ok (unat ((pa - KERNBASE) div PGSIZE))" using assms by (simp add: pa2pageidx_def not_less not_le)
  have "4096 dvd unat pa" using assms(1) by (simp add: pg_aligned_def word_unat_eq_iff unat_mod dvd_eq_mod_eq_0)
  then have "4096 dvd unat pa - unat (KERNBASE :: u64)" by (intro dvd_diff_nat) simp_all
  then have "(pa - KERNBASE) mod PGSIZE = 0"
    using assms(2) by (simp add: word_unat_eq_iff unat_mod unat_sub dvd_eq_mod_eq_0)
  then have "(pa - KERNBASE) div PGSIZE * PGSIZE = pa - KERNBASE"
    by (metis add_0_right div_mult_mod_eq)
  then have "page_to_pa (unat ((pa - KERNBASE) div PGSIZE)) = pa" by (simp add: page_to_pa_def)
  with e show thesis using that by blast
qed

end
