(* ===== verification/Swap.thy ===== *)
theory Swap
  imports Lru
begin

text \<open>
  Demand paging (\<^verbatim>\<open>kernel/vm.c\<close>, \<^verbatim>\<open>kernel/kalloc.c\<close>): \<open>swapout\<close> evicts a page chosen by the clock
  algorithm, \<open>kalloc\<close> calls it when no page is free, \<open>swapin\<close> brings a page back.
\<close>

section \<open>swapout\<close>

text \<open>\<^verbatim>\<open>walk(pagetable, va, 0)\<close>.\<close>

abbreviation walk0 :: "u64 \<Rightarrow> u64 \<Rightarrow> 'a vm_st_scheme \<Rightarrow> (u64 \<times> 'a vm_st_scheme) res" where
  "walk0 \<equiv> walk None"

text \<open>One turn of the search for a victim; \<open>Inr\<close> is the victim.\<close>

definition clock_step :: "nat option \<times> 'a vm_st_scheme \<Rightarrow> ((nat option \<times> 'a vm_st_scheme) + (nat \<times> 'a vm_st_scheme)) res" where
  "clock_step = (\<lambda>(cand, s).
     case cand of
       None \<Rightarrow> Panic ''kerneltrap''
     | Some c \<Rightarrow>
         bindr (walk0 (pg_pagetable (pages s c)) (pg_vaddr (pages s c)) s) (\<lambda>(pte, s).
         if pte = 0 then Panic ''swapout: no pte''
         else if ld64 (mem s) pte AND PTE_V = 0 then Ok (Inl (pg_next (pages s c), s))
         else if ld64 (mem s) pte AND PTE_A \<noteq> 0 then
           let s = s\<lparr>mem := st64 (mem s) pte (ld64 (mem s) pte AND NOT PTE_A)\<rparr>;
               s = s\<lparr>lru_head := pg_next (pages s c)\<rparr>;
               s = s\<lparr>lru_tail := Some c\<rparr> in
           Ok (Inl (lru_head s, s))
         else Ok (Inr (c, s))))"

text \<open>The second half of \<open>swapout\<close>: the victim is written to its slot and its page is freed.\<close>

definition evict :: "nat \<Rightarrow> int \<Rightarrow> 'a vm_st_scheme \<Rightarrow> (int \<times> 'a vm_st_scheme) res" where
  "evict victim slot s =
     (let pa = page_to_pa victim in
      bindr (swapwrite pa slot s) (\<lambda>s.
      bindr (walk0 (pg_pagetable (pages s victim)) (pg_vaddr (pages s victim)) s) (\<lambda>(pte, s).
      if pte = 0 then Panic ''swapout: pte vanished''
      else
        let flags = PTE_FLAGS (ld64 (mem s) pte);
            flags = flags AND NOT PTE_V;
            flags = flags AND NOT PTE_A;
            s = s\<lparr>mem := st64 (mem s) pte (push_bit 10 (word_of_int slot) OR flags OR PTE_SWAPPED)\<rparr> in
        bindr (kfree pa s) (\<lambda>s.
        Ok (0, upd_page victim (\<lambda>p. p\<lparr>pg_pagetable := 0, pg_vaddr := 0\<rparr>) s)))))"

definition swapout :: "'a vm_st_scheme \<Rightarrow> (int \<times> 'a vm_st_scheme) res" where
  "swapout s =
     bindr (acquire Lru_lock s) (\<lambda>s.
     if lru_head s = None then bindr (release Lru_lock s) (\<lambda>s. Ok (-1, s))
     else
       bindr (loopr clock_step (lru_head s, s)) (\<lambda>(victim, s).
       bindr (lru_remove victim s) (\<lambda>s.
       bindr (release Lru_lock s) (\<lambda>s.
       bindr (alloc_swap_slot s) (\<lambda>(slot, s).
       if slot < 0 then
         bindr (acquire Lru_lock s) (\<lambda>s.
         bindr (lru_add victim s) (\<lambda>s.
         bindr (release Lru_lock s) (\<lambda>s. Ok (-1, s))))
       else evict victim slot s)))))"

section \<open>kalloc\<close>

definition kalloc :: "'a vm_st_scheme \<Rightarrow> (u64 \<times> 'a vm_st_scheme) res" where
  "kalloc s =
     bindr (loopr (\<lambda>s.
       bindr (kalloc_pop s) (\<lambda>(r, s).
       if r \<noteq> 0 then Ok (Inr (r, s))
       else bindr (swapout s) (\<lambda>(rc, s).
         if rc < 0 then Ok (Inr (0, s)) else Ok (Inl s)))) s) (\<lambda>(r, s).
     let s = (if r \<noteq> 0 then s\<lparr>mem := memset r 5 PGSIZE (mem s)\<rparr> else s) in
     Ok (r, s))"

section \<open>swapin\<close>

text \<open>The slot number in a swapped-out entry, as the \<^verbatim>\<open>int\<close> the code keeps it in.\<close>

definition pte_slot :: "u64 \<Rightarrow> int" where
  "pte_slot e = sint (ucast (PTE2PA e div PGSIZE) :: u32)"

text \<open>Registering the page at \<open>pa\<close> as the resident page of \<open>va\<close>.\<close>

definition lru_register :: "u64 \<Rightarrow> u64 \<Rightarrow> u64 \<Rightarrow> 'a vm_st_scheme \<Rightarrow> 'a vm_st_scheme res" where
  "lru_register pagetable va pa s =
     bindr (pa2pageidx pa) (\<lambda>idx.
     let s = upd_page idx (pg_pagetable_update (\<lambda>_. pagetable)) s;
         s = upd_page idx (pg_vaddr_update (\<lambda>_. va)) s in
     bindr (acquire Lru_lock s) (\<lambda>s.
     bindr (lru_add idx s) (\<lambda>s.
     release Lru_lock s)))"

definition swapin :: "u64 \<Rightarrow> u64 \<Rightarrow> 'a vm_st_scheme \<Rightarrow> (int \<times> 'a vm_st_scheme) res" where
  "swapin pagetable va s =
     (let va = PGROUNDDOWN va in
      bindr (walk0 pagetable va s) (\<lambda>(pte, s).
      if pte = 0 then Ok (-1, s)
      else if ld64 (mem s) pte AND PTE_SWAPPED = 0 \<or> ld64 (mem s) pte AND PTE_V \<noteq> 0 then Ok (-1, s)
      else
        let slot = pte_slot (ld64 (mem s) pte) in
        bindr (kalloc s) (\<lambda>(pa, s).
        if pa = 0 then Ok (-1, s)
        else
          bindr (swapread pa slot s) (\<lambda>s.
          bindr (free_swap_slot slot s) (\<lambda>s.
          let flags = PTE_FLAGS (ld64 (mem s) pte);
              flags = flags AND NOT PTE_SWAPPED;
              s = s\<lparr>mem := st64 (mem s) pte (PA2PTE pa OR flags OR PTE_V)\<rparr> in
          bindr (lru_register pagetable va pa s) (\<lambda>s. Ok (0, s)))))))"

definition swapinit :: "'a vm_st_scheme \<Rightarrow> 'a vm_st_scheme res" where
  "swapinit s =
     bindr (kalloc s) (\<lambda>(r, s).
     let s = s\<lparr>swap_bitmap := r\<rparr> in
     if r = 0 then Panic ''swapinit''
     else
       let s = s\<lparr>mem := memset r 0 PGSIZE (mem s)\<rparr> in
       Ok (s\<lparr>swap_slots := SWAPMAX div 4\<rparr>))"

end
