(* ===== verification/Vm.thy ===== *)
theory Vm
  imports Swap
begin

text \<open>
  User and kernel address spaces (\<^verbatim>\<open>kernel/vm.c\<close>) on top of the swapping allocator: mapping,
  growing, shrinking, copying and freeing page tables.
\<close>

section \<open>Mapping\<close>

text \<open>\<^verbatim>\<open>walk(pagetable, va, 1)\<close>.\<close>

abbreviation walk1 :: "u64 \<Rightarrow> u64 \<Rightarrow> 'a vm_st_scheme \<Rightarrow> (u64 \<times> 'a vm_st_scheme) res" where
  "walk1 \<equiv> walk (Some kalloc)"

definition mappages :: "u64 \<Rightarrow> u64 \<Rightarrow> u64 \<Rightarrow> u64 \<Rightarrow> u64 \<Rightarrow> 'a vm_st_scheme \<Rightarrow> (int \<times> 'a vm_st_scheme) res" where
  "mappages pagetable va sz pa perm s =
     (if va mod PGSIZE \<noteq> 0 then Panic ''mappages: va not aligned''
      else if sz mod PGSIZE \<noteq> 0 then Panic ''mappages: size not aligned''
      else if sz = 0 then Panic ''mappages: size''
      else
        let last = va + sz - PGSIZE in
        loopr (\<lambda>(a, pa, s).
          bindr (walk1 pagetable a s) (\<lambda>(pte, s).
          if pte = 0 then Ok (Inr (-1, s))
          else if ld64 (mem s) pte AND PTE_V \<noteq> 0 then Panic ''mappages: remap''
          else
            let s = s\<lparr>mem := st64 (mem s) pte (PA2PTE pa OR perm OR PTE_V)\<rparr> in
            if a = last then Ok (Inr (0, s))
            else Ok (Inl (a + PGSIZE, pa + PGSIZE, s)))) (va, pa, s))"

definition kvmmap :: "u64 \<Rightarrow> u64 \<Rightarrow> u64 \<Rightarrow> u64 \<Rightarrow> u64 \<Rightarrow> 'a vm_st_scheme \<Rightarrow> 'a vm_st_scheme res" where
  "kvmmap kpgtbl va pa sz perm s =
     bindr (mappages kpgtbl va sz pa perm s) (\<lambda>(r, s).
     if r \<noteq> 0 then Panic ''kvmmap'' else Ok s)"

text \<open>One turn of the loop of \<open>uvmunmap\<close>.\<close>

definition unmap_page :: "u64 \<Rightarrow> u64 \<Rightarrow> bool \<Rightarrow> 'a vm_st_scheme \<Rightarrow> 'a vm_st_scheme res" where
  "unmap_page pagetable a do_free s =
     bindr (walk0 pagetable a s) (\<lambda>(pte, s).
     if pte = 0 then Panic ''uvmunmap: walk''
     else if ld64 (mem s) pte AND PTE_V = 0 then
       if ld64 (mem s) pte AND PTE_SWAPPED \<noteq> 0 then
         bindr (if do_free then free_swap_slot (pte_slot (ld64 (mem s) pte)) s else Ok s) (\<lambda>s.
         Ok (s\<lparr>mem := st64 (mem s) pte 0\<rparr>))
       else Panic ''uvmunmap: not mapped''
     else if PTE_FLAGS (ld64 (mem s) pte) = PTE_V then Panic ''uvmunmap: not leaf''
     else
       bindr
         (if do_free then
            let pa = PTE2PA (ld64 (mem s) pte) in
            bindr (pa2pageidx pa) (\<lambda>idx.
            bindr (acquire Lru_lock s) (\<lambda>s.
            bindr (lru_remove idx s) (\<lambda>s.
            bindr (release Lru_lock s) (\<lambda>s.
            kfree pa s))))
          else Ok s)
         (\<lambda>s. Ok (s\<lparr>mem := st64 (mem s) pte 0\<rparr>)))"

definition uvmunmap :: "u64 \<Rightarrow> u64 \<Rightarrow> u64 \<Rightarrow> bool \<Rightarrow> 'a vm_st_scheme \<Rightarrow> 'a vm_st_scheme res" where
  "uvmunmap pagetable va npages do_free s =
     loopr (\<lambda>(a, s).
       if a < va + npages * PGSIZE
       then bindr (unmap_page pagetable a do_free s) (\<lambda>s. Ok (Inl (a + PGSIZE, s)))
       else Ok (Inr s)) (va, s)"

definition uvmcreate :: "'a vm_st_scheme \<Rightarrow> (u64 \<times> 'a vm_st_scheme) res" where
  "uvmcreate s =
     bindr (kalloc s) (\<lambda>(pagetable, s).
     if pagetable = 0 then Ok (0, s)
     else Ok (pagetable, s\<lparr>mem := memset pagetable 0 PGSIZE (mem s)\<rparr>))"

text \<open>\<open>src\<close> is the content of the initial program \<^verbatim>\<open>initcode\<close>.\<close>

definition uvmfirst :: "u64 \<Rightarrow> bytes \<Rightarrow> u32 \<Rightarrow> 'a vm_st_scheme \<Rightarrow> 'a vm_st_scheme res" where
  "uvmfirst pagetable src sz s =
     (if sz \<ge> PGSIZE then Panic ''uvmfirst: more than a page''
      else
        bindr (kalloc s) (\<lambda>(p, s).
        let s = s\<lparr>mem := memset p 0 PGSIZE (mem s)\<rparr> in
        bindr (mappages pagetable 0 PGSIZE p (PTE_W OR PTE_R OR PTE_X OR PTE_U) s) (\<lambda>(r, s).
        Ok (s\<lparr>mem := mem_write (mem s) p src (unat sz)\<rparr>))))"

section \<open>Growing and shrinking\<close>

definition uvmdealloc :: "u64 \<Rightarrow> u64 \<Rightarrow> u64 \<Rightarrow> 'a vm_st_scheme \<Rightarrow> (u64 \<times> 'a vm_st_scheme) res" where
  "uvmdealloc pagetable oldsz newsz s =
     (if newsz \<ge> oldsz then Ok (oldsz, s)
      else
        bindr
          (if PGROUNDUP newsz < PGROUNDUP oldsz
           then let npages = (ucast ((PGROUNDUP oldsz - PGROUNDUP newsz) div PGSIZE) :: u32) in
                uvmunmap pagetable (PGROUNDUP newsz) (scast npages) True s
           else Ok s)
          (\<lambda>s. Ok (newsz, s)))"

definition uvmalloc :: "u64 \<Rightarrow> u64 \<Rightarrow> u64 \<Rightarrow> u64 \<Rightarrow> 'a vm_st_scheme \<Rightarrow> (u64 \<times> 'a vm_st_scheme) res" where
  "uvmalloc pagetable oldsz newsz xperm s =
     (if newsz < oldsz then Ok (oldsz, s)
      else
        let oldsz = PGROUNDUP oldsz in
        loopr (\<lambda>(a, s).
          if a < newsz then
            bindr (kalloc s) (\<lambda>(p, s).
            if p = 0 then
              bindr (uvmdealloc pagetable a oldsz s) (\<lambda>(r, s). Ok (Inr (0, s)))
            else
              let s = s\<lparr>mem := memset p 0 PGSIZE (mem s)\<rparr> in
              bindr (mappages pagetable a PGSIZE p (PTE_R OR PTE_U OR xperm) s) (\<lambda>(r, s).
              if r \<noteq> 0 then
                bindr (kfree p s) (\<lambda>s.
                bindr (uvmdealloc pagetable a oldsz s) (\<lambda>(r, s). Ok (Inr (0, s))))
              else
                bindr (lru_register pagetable a p s) (\<lambda>s.
                Ok (Inl (a + PGSIZE, s)))))
          else Ok (Inr (newsz, s))) (oldsz, s))"

section \<open>Freeing\<close>

text \<open>
  The recursion of \<open>freewalk\<close> follows the page table in memory. \<open>fuel\<close> bounds its depth; a
  page table has three levels. \<open>freewalk_entries\<close> is the loop over the entries from index \<open>i\<close> on.
\<close>

fun freewalk_entries :: "(u64 \<Rightarrow> 'a vm_st_scheme \<Rightarrow> 'a vm_st_scheme res) \<Rightarrow> u64 \<Rightarrow> nat list \<Rightarrow>
    'a vm_st_scheme \<Rightarrow> 'a vm_st_scheme res" where
  "freewalk_entries rec pagetable [] s = Ok s"
| "freewalk_entries rec pagetable (i # is) s =
     (let pte = ld64 (mem s) (entry pagetable (of_nat i)) in
      if pte AND PTE_V \<noteq> 0 \<and> pte AND (PTE_R OR PTE_W OR PTE_X) = 0 then
        bindr (rec (PTE2PA pte) s) (\<lambda>s.
        freewalk_entries rec pagetable is (s\<lparr>mem := st64 (mem s) (entry pagetable (of_nat i)) 0\<rparr>))
      else if pte AND PTE_V \<noteq> 0 then Panic ''freewalk: leaf''
      else freewalk_entries rec pagetable is s)"

fun freewalk_fuel :: "nat \<Rightarrow> u64 \<Rightarrow> 'a vm_st_scheme \<Rightarrow> 'a vm_st_scheme res" where
  "freewalk_fuel 0 pagetable s = Loop"
| "freewalk_fuel (Suc fuel) pagetable s =
     bindr (freewalk_entries (freewalk_fuel fuel) pagetable [0..<512] s) (kfree pagetable)"

definition freewalk :: "u64 \<Rightarrow> 'a vm_st_scheme \<Rightarrow> 'a vm_st_scheme res" where
  "freewalk = freewalk_fuel 3"

definition uvmfree :: "u64 \<Rightarrow> u64 \<Rightarrow> 'a vm_st_scheme \<Rightarrow> 'a vm_st_scheme res" where
  "uvmfree pagetable sz s =
     bindr (if sz > 0 then uvmunmap pagetable 0 (PGROUNDUP sz div PGSIZE) True s else Ok s)
       (freewalk pagetable)"

section \<open>Copying an address space\<close>

text \<open>One turn of the loop of \<open>uvmcopy\<close> for the page at \<open>i\<close>; the result \<open>False\<close> is \<^verbatim>\<open>goto err\<close>.\<close>

definition copy_page :: "u64 \<Rightarrow> u64 \<Rightarrow> u64 \<Rightarrow> 'a vm_st_scheme \<Rightarrow> (bool \<times> 'a vm_st_scheme) res" where
  "copy_page old new i s =
     bindr (walk0 old i s) (\<lambda>(pte, s).
     if pte = 0 then Panic ''uvmcopy: pte should exist''
     else if ld64 (mem s) pte AND PTE_V \<noteq> 0 then
       let pa = PTE2PA (ld64 (mem s) pte); flags = PTE_FLAGS (ld64 (mem s) pte) in
       bindr (kalloc s) (\<lambda>(p, s).
       if p = 0 then Ok (False, s)
       else
         let s = s\<lparr>mem := memmove p pa PGSIZE (mem s)\<rparr> in
         bindr (mappages new i PGSIZE p flags s) (\<lambda>(r, s).
         if r \<noteq> 0 then bindr (kfree p s) (\<lambda>s. Ok (False, s))
         else bindr (lru_register new i p s) (\<lambda>s. Ok (True, s))))
     else if ld64 (mem s) pte AND PTE_SWAPPED \<noteq> 0 then
       let slot = pte_slot (ld64 (mem s) pte);
           flags = PTE_FLAGS (ld64 (mem s) pte) AND NOT PTE_SWAPPED in
       bindr (kalloc s) (\<lambda>(p, s).
       if p = 0 then Ok (False, s)
       else
         bindr (swapread p slot s) (\<lambda>s.
         bindr (mappages new i PGSIZE p (flags OR PTE_V) s) (\<lambda>(r, s).
         if r \<noteq> 0 then bindr (kfree p s) (\<lambda>s. Ok (False, s))
         else bindr (lru_register new i p s) (\<lambda>s. Ok (True, s)))))
     else Panic ''uvmcopy: page not present'')"

definition uvmcopy :: "u64 \<Rightarrow> u64 \<Rightarrow> u64 \<Rightarrow> 'a vm_st_scheme \<Rightarrow> (int \<times> 'a vm_st_scheme) res" where
  "uvmcopy old new sz s =
     loopr (\<lambda>(i, s).
       if i < sz then
         bindr (copy_page old new i s) (\<lambda>(ok, s).
         if ok then Ok (Inl (i + PGSIZE, s))
         else bindr (uvmunmap new 0 (i div PGSIZE) True s) (\<lambda>s. Ok (Inr (-1, s))))
       else Ok (Inr (0, s))) (0, s)"

definition uvmclear :: "u64 \<Rightarrow> u64 \<Rightarrow> 'a vm_st_scheme \<Rightarrow> 'a vm_st_scheme res" where
  "uvmclear pagetable va s =
     bindr (walk0 pagetable va s) (\<lambda>(pte, s).
     if pte = 0 then Panic ''uvmclear''
     else Ok (s\<lparr>mem := st64 (mem s) pte (ld64 (mem s) pte AND NOT PTE_U)\<rparr>))"

section \<open>The kernel page table\<close>

definition KSTACK :: "nat \<Rightarrow> u64" where
  "KSTACK p = TRAMPOLINE - of_nat (p + 1) * 2 * PGSIZE"

fun mapstacks_loop :: "nat list \<Rightarrow> u64 \<Rightarrow> 'a vm_st_scheme \<Rightarrow> 'a vm_st_scheme res" where
  "mapstacks_loop [] kpgtbl s = Ok s"
| "mapstacks_loop (p # ps) kpgtbl s =
     bindr (kalloc s) (\<lambda>(pa, s).
     if pa = 0 then Panic ''kalloc''
     else bindr (kvmmap kpgtbl (KSTACK p) pa PGSIZE (PTE_R OR PTE_W) s) (mapstacks_loop ps kpgtbl))"

definition proc_mapstacks :: "u64 \<Rightarrow> 'a vm_st_scheme \<Rightarrow> 'a vm_st_scheme res" where
  "proc_mapstacks kpgtbl s = mapstacks_loop [0..<NPROC] kpgtbl s"

text \<open>\<open>etext\<close> and \<open>trampoline\<close> are linker symbols.\<close>

definition kvmmake :: "u64 \<Rightarrow> u64 \<Rightarrow> 'a vm_st_scheme \<Rightarrow> (u64 \<times> 'a vm_st_scheme) res" where
  "kvmmake etext trampoline s =
     bindr (kalloc s) (\<lambda>(kpgtbl, s).
     let s = s\<lparr>mem := memset kpgtbl 0 PGSIZE (mem s)\<rparr> in
     bindr (kvmmap kpgtbl 0x10000000 0x10000000 PGSIZE (PTE_R OR PTE_W) s) (\<lambda>s.
     bindr (kvmmap kpgtbl 0x10001000 0x10001000 PGSIZE (PTE_R OR PTE_W) s) (\<lambda>s.
     bindr (kvmmap kpgtbl 0x0c000000 0x0c000000 0x4000000 (PTE_R OR PTE_W) s) (\<lambda>s.
     bindr (kvmmap kpgtbl KERNBASE KERNBASE (etext - KERNBASE) (PTE_R OR PTE_X) s) (\<lambda>s.
     bindr (kvmmap kpgtbl etext etext (PHYSTOP - etext) (PTE_R OR PTE_W) s) (\<lambda>s.
     bindr (kvmmap kpgtbl TRAMPOLINE trampoline PGSIZE (PTE_R OR PTE_X) s) (\<lambda>s.
     bindr (proc_mapstacks kpgtbl s) (\<lambda>s. Ok (kpgtbl, s)))))))))"

definition kvminit :: "u64 \<Rightarrow> u64 \<Rightarrow> 'a vm_st_scheme \<Rightarrow> 'a vm_st_scheme res" where
  "kvminit etext trampoline s =
     bindr (kvmmake etext trampoline s) (\<lambda>(k, s). Ok (s\<lparr>kernel_pagetable := k\<rparr>))"

end
