(* ===== verification/Log.thy ===== *)
theory Log
  imports Vm
begin

text \<open>
  The redo log of the file system (\<^verbatim>\<open>kernel/log.c\<close>). A block of the disk is a byte array; the log
  header is read from and written to its block in the layout of \<^verbatim>\<open>struct logheader\<close>. A call that
  sleeps until another system call ends has the outcome \<open>Block\<close>.
\<close>

section \<open>32-bit and 16-bit fields of a block\<close>

definition rd32 :: "bytes \<Rightarrow> nat \<Rightarrow> u32" where
  "rd32 d i = rd_bytes 4 (\<lambda>j. d (i + j))"

definition wr32 :: "bytes \<Rightarrow> nat \<Rightarrow> u32 \<Rightarrow> bytes" where
  "wr32 d i v = (\<lambda>j. if i \<le> j \<and> j < i + 4 then ucast (drop_bit (8 * (j - i)) v) else d j)"

definition rd16 :: "bytes \<Rightarrow> nat \<Rightarrow> u16" where
  "rd16 d i = rd_bytes 2 (\<lambda>j. d (i + j))"

definition wr16 :: "bytes \<Rightarrow> nat \<Rightarrow> u16 \<Rightarrow> bytes" where
  "wr16 d i v = (\<lambda>j. if i \<le> j \<and> j < i + 2 then ucast (drop_bit (8 * (j - i)) v) else d j)"

section \<open>State\<close>

abbreviation (input) MAXOPBLOCKS :: "'a::numeral" where "MAXOPBLOCKS \<equiv> 10"
abbreviation (input) LOGSIZE :: "'a::numeral" where "LOGSIZE \<equiv> 30"

record superblock =
  sb_magic :: u32
  sb_size :: u32
  sb_nblocks :: u32
  sb_ninodes :: u32
  sb_nlog :: u32
  sb_logstart :: u32
  sb_inodestart :: u32
  sb_bmapstart :: u32

record logheader =
  lh_n :: int
  lh_block :: "nat \<Rightarrow> u32"

record log =
  log_start :: int
  log_size :: int
  log_outstanding :: int
  log_committing :: bool
  log_dev :: u32
  log_lh :: logheader

record log_st = vm_st +
  klog :: log

definition upd_log :: "(log \<Rightarrow> log) \<Rightarrow> 'a log_st_scheme \<Rightarrow> 'a log_st_scheme" where
  "upd_log f s = s\<lparr>klog := f (klog s)\<rparr>"

definition upd_lh :: "(logheader \<Rightarrow> logheader) \<Rightarrow> 'a log_st_scheme \<Rightarrow> 'a log_st_scheme" where
  "upd_lh f s = upd_log (\<lambda>l. l\<lparr>log_lh := f (log_lh l)\<rparr>) s"

section \<open>Operations\<close>

text \<open>The number of block \<open>i\<close> of the log; block 0 is the header.\<close>

definition log_blk :: "'a log_st_scheme \<Rightarrow> nat \<Rightarrow> u32" where
  "log_blk s i = word_of_int (log_start (klog s) + int i)"

fun install_loop :: "bool \<Rightarrow> nat list \<Rightarrow> 'a log_st_scheme \<Rightarrow> 'a log_st_scheme res" where
  "install_loop recovering [] s = Ok s"
| "install_loop recovering (tail # ts) s =
     bindr (bread (log_dev (klog s)) (log_blk s (tail + 1)) s) (\<lambda>(lbuf, s).
     bindr (bread (log_dev (klog s)) (lh_block (log_lh (klog s)) tail) s) (\<lambda>(dbuf, s).
     let s = set_data dbuf (\<lambda>i. if i < BSIZE then b_data (bufs s lbuf) i else b_data (bufs s dbuf) i) s in
     bindr (bwrite dbuf s) (\<lambda>s.
     bindr (if \<not> recovering then bunpin dbuf s else Ok s) (\<lambda>s.
     bindr (brelse lbuf s) (\<lambda>s.
     bindr (brelse dbuf s) (install_loop recovering ts))))))"

definition install_trans :: "bool \<Rightarrow> 'a log_st_scheme \<Rightarrow> 'a log_st_scheme res" where
  "install_trans recovering s = install_loop recovering [0..<nat (lh_n (log_lh (klog s)))] s"

definition read_head :: "'a log_st_scheme \<Rightarrow> 'a log_st_scheme res" where
  "read_head s =
     bindr (bread (log_dev (klog s)) (log_blk s 0) s) (\<lambda>(b, s).
     let d = b_data (bufs s b);
         s = upd_lh (lh_n_update (\<lambda>_. sint (rd32 d 0))) s;
         n = nat (lh_n (log_lh (klog s)));
         s = upd_lh (lh_block_update (\<lambda>bl i. if i < n then rd32 d (4 + 4 * i) else bl i)) s in
     brelse b s)"

fun write_head_loop :: "nat list \<Rightarrow> logheader \<Rightarrow> bytes \<Rightarrow> bytes" where
  "write_head_loop [] lh d = d"
| "write_head_loop (i # is) lh d = write_head_loop is lh (wr32 d (4 + 4 * i) (lh_block lh i))"

definition write_head :: "'a log_st_scheme \<Rightarrow> 'a log_st_scheme res" where
  "write_head s =
     bindr (bread (log_dev (klog s)) (log_blk s 0) s) (\<lambda>(b, s).
     let lh = log_lh (klog s);
         d = wr32 (b_data (bufs s b)) 0 (word_of_int (lh_n lh));
         d = write_head_loop [0..<nat (lh_n lh)] lh d;
         s = set_data b d s in
     bindr (bwrite b s) (brelse b))"

definition recover_from_log :: "'a log_st_scheme \<Rightarrow> 'a log_st_scheme res" where
  "recover_from_log s =
     bindr (read_head s) (\<lambda>s.
     bindr (install_trans True s) (\<lambda>s.
     write_head (upd_lh (lh_n_update (\<lambda>_. 0)) s)))"

text \<open>\<^verbatim>\<open>sizeof(struct logheader)\<close> is 124, so the size check of \<open>initlog\<close> never fails.\<close>

definition initlog :: "u32 \<Rightarrow> superblock \<Rightarrow> 'a log_st_scheme \<Rightarrow> 'a log_st_scheme res" where
  "initlog dev sb s =
     (if 4 + 4 * LOGSIZE \<ge> (BSIZE :: nat) then Panic ''initlog: too big logheader''
      else
        recover_from_log (upd_log (\<lambda>l. l\<lparr>log_start := sint (sb_logstart sb), log_size := sint (sb_nlog sb),
                                          log_dev := dev\<rparr>) s))"

text \<open>The loop of \<open>begin_op\<close>, with \<open>others\<close> for what runs while the thread sleeps; for the callers nobody wakes the thread up.\<close>

definition begin_op_with :: "('a log_st_scheme \<Rightarrow> 'a log_st_scheme res) \<Rightarrow> 'a log_st_scheme \<Rightarrow> 'a log_st_scheme res" where
  "begin_op_with others s =
     bindr (acquire Log_lock s) (\<lambda>s.
     loopr (\<lambda>s.
       if log_committing (klog s) then bindr (sleep others Chan_log Log_lock s) (\<lambda>s. Ok (Inl s))
       else if lh_n (log_lh (klog s)) + (log_outstanding (klog s) + 1) * MAXOPBLOCKS > LOGSIZE
       then bindr (sleep others Chan_log Log_lock s) (\<lambda>s. Ok (Inl s))
       else bindr (release Log_lock (upd_log (log_outstanding_update (\<lambda>x. x + 1)) s)) (\<lambda>s. Ok (Inr s))) s)"

definition begin_op :: "'a log_st_scheme \<Rightarrow> 'a log_st_scheme res" where
  "begin_op s = begin_op_with (\<lambda>_. Block) s"

fun write_log_loop :: "nat list \<Rightarrow> 'a log_st_scheme \<Rightarrow> 'a log_st_scheme res" where
  "write_log_loop [] s = Ok s"
| "write_log_loop (tail # ts) s =
     bindr (bread (log_dev (klog s)) (log_blk s (tail + 1)) s) (\<lambda>(to, s).
     bindr (bread (log_dev (klog s)) (lh_block (log_lh (klog s)) tail) s) (\<lambda>(from, s).
     let s = set_data to (\<lambda>i. if i < BSIZE then b_data (bufs s from) i else b_data (bufs s to) i) s in
     bindr (bwrite to s) (\<lambda>s.
     bindr (brelse from s) (\<lambda>s.
     bindr (brelse to s) (write_log_loop ts)))))"

definition write_log :: "'a log_st_scheme \<Rightarrow> 'a log_st_scheme res" where
  "write_log s = write_log_loop [0..<nat (lh_n (log_lh (klog s)))] s"

definition commit :: "'a log_st_scheme \<Rightarrow> 'a log_st_scheme res" where
  "commit s =
     (if lh_n (log_lh (klog s)) > 0 then
        bindr (write_log s) (\<lambda>s.
        bindr (write_head s) (\<lambda>s.
        bindr (install_trans False s) (\<lambda>s.
        write_head (upd_lh (lh_n_update (\<lambda>_. 0)) s))))
      else Ok s)"

definition end_op :: "'a log_st_scheme \<Rightarrow> 'a log_st_scheme res" where
  "end_op s =
     bindr (acquire Log_lock s) (\<lambda>s.
     let s = upd_log (log_outstanding_update (\<lambda>x. x - 1)) s in
     if log_committing (klog s) then Panic ''log.committing''
     else
       let do_commit = (log_outstanding (klog s) = 0) in
       bindr (if do_commit then Ok (upd_log (log_committing_update (\<lambda>_. True)) s)
              else wakeup Chan_log s) (\<lambda>s.
       bindr (release Log_lock s) (\<lambda>s.
       if do_commit then
         bindr (commit s) (\<lambda>s.
         bindr (acquire Log_lock s) (\<lambda>s.
         bindr (wakeup Chan_log (upd_log (log_committing_update (\<lambda>_. False)) s)) (\<lambda>s.
         release Log_lock s)))
       else Ok s)))"

text \<open>The position of a block number in the header, \<open>lh_n\<close> if it is not there (log absorption).\<close>

fun absorb_pos :: "nat list \<Rightarrow> nat \<Rightarrow> logheader \<Rightarrow> u32 \<Rightarrow> nat" where
  "absorb_pos [] n lh b = n"
| "absorb_pos (i # is) n lh b = (if lh_block lh i = b then i else absorb_pos is n lh b)"

definition log_write :: "nat \<Rightarrow> 'a log_st_scheme \<Rightarrow> 'a log_st_scheme res" where
  "log_write b s =
     bindr (acquire Log_lock s) (\<lambda>s.
     let lh = log_lh (klog s) in
     if lh_n lh \<ge> LOGSIZE \<or> lh_n lh \<ge> log_size (klog s) - 1 then Panic ''too big a transaction''
     else if log_outstanding (klog s) < 1 then Panic ''log_write outside of trans''
     else
       let n = nat (lh_n lh);
           i = absorb_pos [0..<n] n lh (b_blockno (bufs s b));
           s = upd_lh (lh_block_update (\<lambda>bl. bl(i := b_blockno (bufs s b)))) s in
       bindr (if i = n then bindr (bpin b s) (\<lambda>s. Ok (upd_lh (lh_n_update (\<lambda>x. x + 1)) s)) else Ok s) (\<lambda>s.
       release Log_lock s))"

section \<open>Logging blocks\<close>

text \<open>The block numbers in the header.\<close>

definition logged :: "'a log_st_scheme \<Rightarrow> u32 list" where
  "logged s = map (lh_block (log_lh (klog s))) [0..<nat (lh_n (log_lh (klog s)))]"

fun log_write_all :: "nat list \<Rightarrow> 'a log_st_scheme \<Rightarrow> 'a log_st_scheme res" where
  "log_write_all [] s = Ok s"
| "log_write_all (b # bs) s = bindr (log_write b s) (log_write_all bs)"

text \<open>\<^verbatim>\<open>begin_op\<close> with room in the log.\<close>

lemma begin_op_room:
  assumes "held s = []" "\<not> log_committing (klog s)" "lh_n (log_lh (klog s)) + (log_outstanding (klog s) + 1) * MAXOPBLOCKS \<le> LOGSIZE"
  shows "begin_op_with others s = Ok (upd_log (log_outstanding_update (\<lambda>x. x + 1)) s)"
  using assms by (simp add: begin_op_with_def loopr_unfold [of _ "s\<lparr>held := [Log_lock]\<rparr>"] upd_log_def)

lemma absorb_pos_spec:
  "absorb_pos is n lh b = (case find (\<lambda>i. lh_block lh i = b) is of Some i \<Rightarrow> i | None \<Rightarrow> n)"
  by (induction "is") auto

lemma absorb_pos_cases:
  "absorb_pos [0..<n] n lh b = n \<and> b \<notin> lh_block lh ` {..<n} \<or> absorb_pos [0..<n] n lh b < n \<and> lh_block lh (absorb_pos [0..<n] n lh b) = b"
proof (cases "find (\<lambda>i. lh_block lh i = b) [0..<n]")
  case None
  moreover from None have "b \<notin> lh_block lh ` {..<n}" by (auto simp: find_None_iff)
  ultimately show ?thesis by (simp add: absorb_pos_spec)
next
  case (Some i)
  moreover from Some have "i < n \<and> lh_block lh i = b" by (auto simp: find_Some_iff)
  ultimately show ?thesis by (simp add: absorb_pos_spec)
qed

text \<open>With room in the header, \<open>log_write\<close> adds the block unless it is there already; it pins the buffer it adds.\<close>

lemma log_write_spec:
  assumes s: "held s = []" "1 \<le> log_outstanding (klog s)" "0 \<le> lh_n (log_lh (klog s))"
    "lh_n (log_lh (klog s)) < LOGSIZE" "lh_n (log_lh (klog s)) < log_size (klog s) - 1"
    and n: "n = b_blockno (bufs s b)"
  shows "\<exists>t. log_write b s = Ok t \<and> logged t = (if n \<in> set (logged s) then logged s else logged s @ [n]) \<and>
    0 \<le> lh_n (log_lh (klog t)) \<and> held t = [] \<and> log_outstanding (klog t) = log_outstanding (klog s) \<and> log_size (klog t) = log_size (klog s) \<and>
    bufs t = (if n \<in> set (logged s) then bufs s else (bufs s)(b := b_refcnt_update (\<lambda>r. r + 1) (bufs s b)))"
proof -
  let ?lh = "log_lh (klog s)"
  let ?n = "nat (lh_n ?lh)"
  let ?i = "absorb_pos [0..<?n] ?n ?lh n"
  have e: "set (logged s) = lh_block ?lh ` {..<?n}" by (simp add: logged_def lessThan_atLeast0)
  from absorb_pos_cases [of ?n ?lh n] show ?thesis
  proof
    assume a: "?i = ?n \<and> n \<notin> lh_block ?lh ` {..<?n}"
    then have "nat (lh_n ?lh + 1) = Suc ?n" using s(3) by simp
    moreover have "map ((lh_block ?lh)(?n := n)) [0..<?n] = map (lh_block ?lh) [0..<?n]" by simp
    ultimately show ?thesis using s a e
      by (simp add: log_write_def Let_def n [symmetric] bpin_def upd_buf_def upd_log_def upd_lh_def logged_def)
  next
    assume a: "?i < ?n \<and> lh_block ?lh ?i = n"
    then have "?i \<in> {..<?n}" "n = lh_block ?lh ?i" by simp_all
    then have "n \<in> set (logged s)" unfolding e by (metis imageI)
    moreover have "(lh_block ?lh)(?i := n) = lh_block ?lh" using a by auto
    ultimately show ?thesis using s a
      by (simp add: log_write_def Let_def n [symmetric] upd_log_def upd_lh_def logged_def)
  qed
qed

text \<open>A run of \<open>log_write\<close> with room for all its blocks logs each of them once.\<close>

lemma log_write_all_spec:
  assumes "held s = []" "1 \<le> log_outstanding (klog s)" "0 \<le> lh_n (log_lh (klog s))" "distinct (logged s)"
    "card (set (logged s) \<union> (\<lambda>b. b_blockno (bufs s b)) ` set bs) < LOGSIZE"
    "int (card (set (logged s) \<union> (\<lambda>b. b_blockno (bufs s b)) ` set bs)) < log_size (klog s) - 1"
  shows "\<exists>t. log_write_all bs s = Ok t \<and> distinct (logged t) \<and>
    set (logged t) = set (logged s) \<union> (\<lambda>b. b_blockno (bufs s b)) ` set bs \<and> held t = [] \<and> 0 \<le> lh_n (log_lh (klog t)) \<and>
    log_outstanding (klog t) = log_outstanding (klog s) \<and> log_size (klog t) = log_size (klog s) \<and>
    (\<forall>c. b_blockno (bufs t c) = b_blockno (bufs s c))"
  using assms
proof (induction bs arbitrary: s)
  case (Cons b bs)
  let ?n = "b_blockno (bufs s b)" and ?B = "(\<lambda>b. b_blockno (bufs s b)) ` set bs"
  have n: "lh_n (log_lh (klog s)) = int (card (set (logged s)))"
    using Cons.prems(3,4) by (simp add: distinct_card) (simp add: logged_def)
  have le: "card (set (logged s)) \<le> card (set (logged s) \<union> (\<lambda>b. b_blockno (bufs s b)) ` set (b # bs))" by (intro card_mono) auto
  obtain t where t: "log_write b s = Ok t" "logged t = (if ?n \<in> set (logged s) then logged s else logged s @ [?n])"
    "0 \<le> lh_n (log_lh (klog t))" "held t = []" "log_outstanding (klog t) = log_outstanding (klog s)" "log_size (klog t) = log_size (klog s)"
    "bufs t = (if ?n \<in> set (logged s) then bufs s else (bufs s)(b := b_refcnt_update (\<lambda>r. r + 1) (bufs s b)))"
    using log_write_spec [OF Cons.prems(1-3) _ _ refl, of b] Cons.prems(5,6) n le by auto
  have bn: "b_blockno (bufs t c) = b_blockno (bufs s c)" for c by (simp add: t(7))
  have st: "set (logged t) = insert ?n (set (logged s))" by (auto simp: t(2))
  have e: "set (logged t) \<union> (\<lambda>b. b_blockno (bufs t b)) ` set bs = set (logged s) \<union> (\<lambda>b. b_blockno (bufs s b)) ` set (b # bs)"
    by (auto simp: st bn)
  have "distinct (logged t)" using Cons.prems(4) by (simp add: t(2))
  then obtain u where "log_write_all bs t = Ok u" "distinct (logged u)" "set (logged u) = set (logged t) \<union> (\<lambda>b. b_blockno (bufs t b)) ` set bs"
    "held u = []" "0 \<le> lh_n (log_lh (klog u))" "log_outstanding (klog u) = log_outstanding (klog t)" "log_size (klog u) = log_size (klog t)"
    "\<forall>c. b_blockno (bufs u c) = b_blockno (bufs t c)"
    using Cons.IH [of t] Cons.prems(2,5,6) t(3-6) unfolding e by auto
  then show ?case using t(1,5,6) bn e by simp
qed simp

end
