(* ===== verification/Fs.thy ===== *)
theory Fs
  imports Log
begin

text \<open>
  The file system (\<^verbatim>\<open>kernel/fs.c\<close>): block allocation, inodes, file content, directories and path
  names. A pointer to an in-memory inode is an index into \<^verbatim>\<open>itable.inode[]\<close>, \<open>None\<close> the null
  pointer. Local buffers of the kernel (a \<^verbatim>\<open>struct dirent\<close>, a name) are byte arrays. Messages
  printed on the console are not part of the state.
\<close>

section \<open>State\<close>

abbreviation (input) NINODE :: "'a::numeral" where "NINODE \<equiv> 50"
abbreviation (input) NDIRECT :: "'a::numeral" where "NDIRECT \<equiv> 12"
abbreviation (input) NINDIRECT :: "'a::numeral" where "NINDIRECT \<equiv> 256"
abbreviation (input) MAXFILE :: "'a::numeral" where "MAXFILE \<equiv> 268"
abbreviation (input) IPB :: "'a::numeral" where "IPB \<equiv> 16"
abbreviation (input) BPB :: "'a::numeral" where "BPB \<equiv> 8192"
abbreviation (input) DIRSIZ :: "'a::numeral" where "DIRSIZ \<equiv> 14"
abbreviation (input) FSMAGIC :: u32 where "FSMAGIC \<equiv> 0x10203040"
abbreviation (input) T_DIR :: u16 where "T_DIR \<equiv> 1"
abbreviation (input) T_FILE :: u16 where "T_FILE \<equiv> 2"
abbreviation (input) T_DEVICE :: u16 where "T_DEVICE \<equiv> 3"
abbreviation (input) ROOTDEV :: u32 where "ROOTDEV \<equiv> 1"
abbreviation (input) ROOTINO :: u32 where "ROOTINO \<equiv> 1"

record dinode =
  d_type :: u16
  d_major :: u16
  d_minor :: u16
  d_nlink :: u16
  d_size :: u32
  d_addrs :: "nat \<Rightarrow> u32"

record inode =
  i_dev :: u32
  i_inum :: u32
  i_ref :: int
  i_valid :: bool
  i_type :: u16
  i_major :: u16
  i_minor :: u16
  i_nlink :: u16
  i_size :: u32
  i_addrs :: "nat \<Rightarrow> u32"

record fs_st = log_st +
  sb :: superblock
  itable :: "nat \<Rightarrow> inode"

definition upd_inode :: "nat \<Rightarrow> (inode \<Rightarrow> inode) \<Rightarrow> 'a fs_st_scheme \<Rightarrow> 'a fs_st_scheme" where
  "upd_inode ip f s = s\<lparr>itable := (itable s)(ip := f (itable s ip))\<rparr>"

text \<open>The superblock and an on-disk inode in their blocks; an inode takes 64 bytes.\<close>

definition rd_superblock :: "bytes \<Rightarrow> superblock" where
  "rd_superblock d =
     \<lparr>sb_magic = rd32 d 0, sb_size = rd32 d 4, sb_nblocks = rd32 d 8, sb_ninodes = rd32 d 12,
      sb_nlog = rd32 d 16, sb_logstart = rd32 d 20, sb_inodestart = rd32 d 24, sb_bmapstart = rd32 d 28\<rparr>"

definition rd_dinode :: "bytes \<Rightarrow> nat \<Rightarrow> dinode" where
  "rd_dinode d off =
     \<lparr>d_type = rd16 d off, d_major = rd16 d (off + 2), d_minor = rd16 d (off + 4), d_nlink = rd16 d (off + 6),
      d_size = rd32 d (off + 8), d_addrs = (\<lambda>i. if i \<le> NDIRECT then rd32 d (off + 12 + 4 * i) else 0)\<rparr>"

definition wr_dinode :: "bytes \<Rightarrow> nat \<Rightarrow> dinode \<Rightarrow> bytes" where
  "wr_dinode d off di =
     (let d = wr16 d off (d_type di);
          d = wr16 d (off + 2) (d_major di);
          d = wr16 d (off + 4) (d_minor di);
          d = wr16 d (off + 6) (d_nlink di);
          d = wr32 d (off + 8) (d_size di) in
      fold (\<lambda>i d. wr32 d (off + 12 + 4 * i) (d_addrs di i)) [0..<13] d)"

definition IBLOCK :: "u32 \<Rightarrow> superblock \<Rightarrow> u32" where
  "IBLOCK i b = i div IPB + sb_inodestart b"

definition BBLOCK :: "u32 \<Rightarrow> superblock \<Rightarrow> u32" where
  "BBLOCK b x = b div BPB + sb_bmapstart x"

text \<open>The byte offset of inode \<open>i\<close> in its block.\<close>

definition dinode_off :: "u32 \<Rightarrow> nat" where
  "dinode_off i = 64 * unat (i mod IPB)"

section \<open>Blocks\<close>

definition readsb :: "u32 \<Rightarrow> 'a fs_st_scheme \<Rightarrow> 'a fs_st_scheme res" where
  "readsb dev s =
     bindr (bread dev 1 s) (\<lambda>(bp, s).
     brelse bp (s\<lparr>sb := rd_superblock (b_data (bufs s bp))\<rparr>))"

definition fsinit :: "u32 \<Rightarrow> 'a fs_st_scheme \<Rightarrow> 'a fs_st_scheme res" where
  "fsinit dev s =
     bindr (readsb dev s) (\<lambda>s.
     if sb_magic (sb s) \<noteq> FSMAGIC then Panic ''invalid file system'' else initlog dev (sb s) s)"

definition bzero :: "u32 \<Rightarrow> u32 \<Rightarrow> 'a fs_st_scheme \<Rightarrow> 'a fs_st_scheme res" where
  "bzero dev bno s =
     bindr (bread dev bno s) (\<lambda>(bp, s).
     let s = set_data bp (\<lambda>i. if i < BSIZE then 0 else b_data (bufs s bp) i) s in
     bindr (log_write bp s) (brelse bp))"

text \<open>The first clear bit at or after \<open>bi\<close> below \<open>n\<close>, as the inner loop of \<open>balloc\<close> finds it.\<close>

fun clear_bit :: "nat list \<Rightarrow> bytes \<Rightarrow> nat option" where
  "clear_bit [] d = None"
| "clear_bit (bi # bs) d = (if d (bi div 8) AND push_bit (bi mod 8) 1 = 0 then Some bi else clear_bit bs d)"

fun balloc_loop :: "nat list \<Rightarrow> nat \<Rightarrow> u32 \<Rightarrow> 'a fs_st_scheme \<Rightarrow> (u32 \<times> 'a fs_st_scheme) res" where
  "balloc_loop [] limit dev s = Ok (0, s)"
| "balloc_loop (b # bs) limit dev s =
     bindr (bread dev (BBLOCK (of_nat b) (sb s)) s) (\<lambda>(bp, s).
     case clear_bit [0..<min BPB (limit - b)] (b_data (bufs s bp)) of
       Some bi \<Rightarrow>
         let d = b_data (bufs s bp);
             s = set_data bp (d(bi div 8 := d (bi div 8) OR push_bit (bi mod 8) 1)) s in
         bindr (log_write bp s) (\<lambda>s.
         bindr (brelse bp s) (\<lambda>s.
         bindr (bzero dev (of_nat (b + bi)) s) (\<lambda>s.
         Ok (of_nat (b + bi), s))))
     | None \<Rightarrow> bindr (brelse bp s) (balloc_loop bs limit dev))"

definition balloc :: "u32 \<Rightarrow> 'a fs_st_scheme \<Rightarrow> (u32 \<times> 'a fs_st_scheme) res" where
  "balloc dev s =
     (let limit = (if SWAPBASE > sb_size (sb s) then unat (sb_size (sb s)) else SWAPBASE) in
      balloc_loop (filter (\<lambda>b. b mod BPB = 0) [0..<limit]) limit dev s)"

definition bfree :: "u32 \<Rightarrow> u32 \<Rightarrow> 'a fs_st_scheme \<Rightarrow> 'a fs_st_scheme res" where
  "bfree dev b s =
     bindr (bread dev (BBLOCK b (sb s)) s) (\<lambda>(bp, s).
     let bi = unat (b mod BPB); m = push_bit (bi mod 8) 1; d = b_data (bufs s bp) in
     if d (bi div 8) AND m = 0 then Panic ''freeing free block''
     else
       let s = set_data bp (d(bi div 8 := d (bi div 8) AND NOT m)) s in
       bindr (log_write bp s) (brelse bp))"

section \<open>Inodes\<close>

definition iinit :: "'a fs_st_scheme \<Rightarrow> 'a fs_st_scheme" where
  "iinit s = s\<lparr>slocks := fold (\<lambda>i l. l(Inode_slock i := \<lparr>sl_locked = False, sl_pid = 0\<rparr>)) [0..<NINODE] (slocks s)\<rparr>"

text \<open>The scan of \<open>iget\<close>: the entry that holds the inode, or else the first unused one.\<close>

fun iget_scan :: "nat list \<Rightarrow> u32 \<Rightarrow> u32 \<Rightarrow> nat option \<Rightarrow> 'a fs_st_scheme \<Rightarrow> nat option \<times> nat option" where
  "iget_scan [] dev inum emp s = (None, emp)"
| "iget_scan (ip # ips) dev inum emp s =
     (if i_ref (itable s ip) > 0 \<and> i_dev (itable s ip) = dev \<and> i_inum (itable s ip) = inum then (Some ip, emp)
      else iget_scan ips dev inum (if emp = None \<and> i_ref (itable s ip) = 0 then Some ip else emp) s)"

definition iget :: "u32 \<Rightarrow> u32 \<Rightarrow> 'a fs_st_scheme \<Rightarrow> (nat \<times> 'a fs_st_scheme) res" where
  "iget dev inum s =
     bindr (acquire Itable_lock s) (\<lambda>s.
     case iget_scan [0..<NINODE] dev inum None s of
       (Some ip, _) \<Rightarrow>
         bindr (release Itable_lock (upd_inode ip (i_ref_update (\<lambda>r. r + 1)) s)) (\<lambda>s. Ok (ip, s))
     | (None, None) \<Rightarrow> Panic ''iget: no inodes''
     | (None, Some ip) \<Rightarrow>
         bindr (release Itable_lock
           (upd_inode ip (\<lambda>i. i\<lparr>i_dev := dev, i_inum := inum, i_ref := 1, i_valid := False\<rparr>) s)) (\<lambda>s. Ok (ip, s)))"

fun ialloc_loop :: "nat list \<Rightarrow> u32 \<Rightarrow> u16 \<Rightarrow> 'a fs_st_scheme \<Rightarrow> (nat option \<times> 'a fs_st_scheme) res" where
  "ialloc_loop [] dev ty s = Ok (None, s)"
| "ialloc_loop (inum # is) dev ty s =
     bindr (bread dev (IBLOCK (of_nat inum) (sb s)) s) (\<lambda>(bp, s).
     let d = b_data (bufs s bp); off = dinode_off (of_nat inum) in
     if d_type (rd_dinode d off) = 0 then
       let d = (\<lambda>i. if off \<le> i \<and> i < off + 64 then 0 else d i);
           s = set_data bp (wr16 d off ty) s in
       bindr (log_write bp s) (\<lambda>s.
       bindr (brelse bp s) (\<lambda>s.
       bindr (iget dev (of_nat inum) s) (\<lambda>(ip, s). Ok (Some ip, s))))
     else bindr (brelse bp s) (ialloc_loop is dev ty))"

definition ialloc :: "u32 \<Rightarrow> u16 \<Rightarrow> 'a fs_st_scheme \<Rightarrow> (nat option \<times> 'a fs_st_scheme) res" where
  "ialloc dev ty s = ialloc_loop [1..<unat (sb_ninodes (sb s))] dev ty s"

definition iupdate :: "nat \<Rightarrow> 'a fs_st_scheme \<Rightarrow> 'a fs_st_scheme res" where
  "iupdate ip s =
     bindr (bread (i_dev (itable s ip)) (IBLOCK (i_inum (itable s ip)) (sb s)) s) (\<lambda>(bp, s).
     let i = itable s ip;
         di = \<lparr>d_type = i_type i, d_major = i_major i, d_minor = i_minor i, d_nlink = i_nlink i,
               d_size = i_size i, d_addrs = i_addrs i\<rparr>;
         s = set_data bp (wr_dinode (b_data (bufs s bp)) (dinode_off (i_inum i)) di) s in
     bindr (log_write bp s) (brelse bp))"

definition idup :: "nat \<Rightarrow> 'a fs_st_scheme \<Rightarrow> 'a fs_st_scheme res" where
  "idup ip s =
     bindr (acquire Itable_lock s) (\<lambda>s. release Itable_lock (upd_inode ip (i_ref_update (\<lambda>r. r + 1)) s))"

definition ilock :: "nat option \<Rightarrow> 'a fs_st_scheme \<Rightarrow> 'a fs_st_scheme res" where
  "ilock ip0 s =
     (case ip0 of
        None \<Rightarrow> Panic ''ilock''
      | Some ip \<Rightarrow>
          if i_ref (itable s ip) < 1 then Panic ''ilock''
          else
            bindr (acquiresleep (Inode_slock ip) s) (\<lambda>s.
            if \<not> i_valid (itable s ip) then
              bindr (bread (i_dev (itable s ip)) (IBLOCK (i_inum (itable s ip)) (sb s)) s) (\<lambda>(bp, s).
              let di = rd_dinode (b_data (bufs s bp)) (dinode_off (i_inum (itable s ip)));
                  s = upd_inode ip (\<lambda>i. i\<lparr>i_type := d_type di, i_major := d_major di, i_minor := d_minor di,
                        i_nlink := d_nlink di, i_size := d_size di, i_addrs := d_addrs di\<rparr>) s in
              bindr (brelse bp s) (\<lambda>s.
              let s = upd_inode ip (i_valid_update (\<lambda>_. True)) s in
              if i_type (itable s ip) = 0 then Panic ''ilock: no type'' else Ok s))
            else Ok s))"

definition iunlock :: "nat option \<Rightarrow> 'a fs_st_scheme \<Rightarrow> 'a fs_st_scheme res" where
  "iunlock ip0 s =
     (case ip0 of
        None \<Rightarrow> Panic ''iunlock''
      | Some ip \<Rightarrow>
          bindr (holdingsleep (Inode_slock ip) s) (\<lambda>(h, s).
          if \<not> h \<or> i_ref (itable s ip) < 1 then Panic ''iunlock''
          else releasesleep (Inode_slock ip) s))"

section \<open>Inode content\<close>

definition bmap :: "nat \<Rightarrow> u32 \<Rightarrow> 'a fs_st_scheme \<Rightarrow> (u32 \<times> 'a fs_st_scheme) res" where
  "bmap ip bn s =
     (if bn < NDIRECT then
        let addr = i_addrs (itable s ip) (unat bn) in
        if addr = 0 then
          bindr (balloc (i_dev (itable s ip)) s) (\<lambda>(addr, s).
          if addr = 0 then Ok (0, s)
          else Ok (addr, upd_inode ip (i_addrs_update (\<lambda>a. a(unat bn := addr))) s))
        else Ok (addr, s)
      else
        let bn = bn - NDIRECT in
        if bn < NINDIRECT then
          bindr (if i_addrs (itable s ip) NDIRECT = 0 then
                   bindr (balloc (i_dev (itable s ip)) s) (\<lambda>(addr, s).
                   if addr = 0 then Ok (0, s)
                   else Ok (addr, upd_inode ip (i_addrs_update (\<lambda>a. a(NDIRECT := addr))) s))
                 else Ok (i_addrs (itable s ip) NDIRECT, s)) (\<lambda>(addr, s).
          if addr = 0 then Ok (0, s)
          else
            bindr (bread (i_dev (itable s ip)) addr s) (\<lambda>(bp, s).
            let addr = rd32 (b_data (bufs s bp)) (4 * unat bn) in
            bindr (if addr = 0 then
                     bindr (balloc (i_dev (itable s ip)) s) (\<lambda>(addr, s).
                     if addr \<noteq> 0 then
                       bindr (log_write bp (set_data bp (wr32 (b_data (bufs s bp)) (4 * unat bn) addr) s))
                         (\<lambda>s. Ok (addr, s))
                     else Ok (addr, s))
                   else Ok (addr, s)) (\<lambda>(addr, s).
            bindr (brelse bp s) (\<lambda>s. Ok (addr, s)))))
        else Panic ''bmap: out of range'')"

fun itrunc_direct :: "nat list \<Rightarrow> nat \<Rightarrow> 'a fs_st_scheme \<Rightarrow> 'a fs_st_scheme res" where
  "itrunc_direct [] ip s = Ok s"
| "itrunc_direct (i # is) ip s =
     (if i_addrs (itable s ip) i \<noteq> 0 then
        bindr (bfree (i_dev (itable s ip)) (i_addrs (itable s ip) i) s) (\<lambda>s.
        itrunc_direct is ip (upd_inode ip (i_addrs_update (\<lambda>a. a(i := 0))) s))
      else itrunc_direct is ip s)"

fun itrunc_indirect :: "nat list \<Rightarrow> nat \<Rightarrow> nat \<Rightarrow> 'a fs_st_scheme \<Rightarrow> 'a fs_st_scheme res" where
  "itrunc_indirect [] ip bp s = Ok s"
| "itrunc_indirect (j # js) ip bp s =
     (let a = rd32 (b_data (bufs s bp)) (4 * j) in
      if a \<noteq> 0 then bindr (bfree (i_dev (itable s ip)) a s) (itrunc_indirect js ip bp)
      else itrunc_indirect js ip bp s)"

definition itrunc :: "nat \<Rightarrow> 'a fs_st_scheme \<Rightarrow> 'a fs_st_scheme res" where
  "itrunc ip s =
     bindr (itrunc_direct [0..<NDIRECT] ip s) (\<lambda>s.
     bindr (if i_addrs (itable s ip) NDIRECT \<noteq> 0 then
              bindr (bread (i_dev (itable s ip)) (i_addrs (itable s ip) NDIRECT) s) (\<lambda>(bp, s).
              bindr (itrunc_indirect [0..<NINDIRECT] ip bp s) (\<lambda>s.
              bindr (brelse bp s) (\<lambda>s.
              bindr (bfree (i_dev (itable s ip)) (i_addrs (itable s ip) NDIRECT) s) (\<lambda>s.
              Ok (upd_inode ip (i_addrs_update (\<lambda>a. a(NDIRECT := 0))) s)))))
            else Ok s) (\<lambda>s.
     iupdate ip (upd_inode ip (i_size_update (\<lambda>_. 0)) s)))"

definition iput :: "nat \<Rightarrow> 'a fs_st_scheme \<Rightarrow> 'a fs_st_scheme res" where
  "iput ip s =
     bindr (acquire Itable_lock s) (\<lambda>s.
     bindr (if i_ref (itable s ip) = 1 \<and> i_valid (itable s ip) \<and> i_nlink (itable s ip) = 0 then
              bindr (acquiresleep (Inode_slock ip) s) (\<lambda>s.
              bindr (release Itable_lock s) (\<lambda>s.
              bindr (itrunc ip s) (\<lambda>s.
              bindr (iupdate ip (upd_inode ip (i_type_update (\<lambda>_. 0)) s)) (\<lambda>s.
              bindr (releasesleep (Inode_slock ip) (upd_inode ip (i_valid_update (\<lambda>_. False)) s)) (\<lambda>s.
              acquire Itable_lock s)))))
            else Ok s) (\<lambda>s.
     release Itable_lock (upd_inode ip (i_ref_update (\<lambda>r. r - 1)) s)))"

definition iunlockput :: "nat \<Rightarrow> 'a fs_st_scheme \<Rightarrow> 'a fs_st_scheme res" where
  "iunlockput ip s = bindr (iunlock (Some ip) s) (iput ip)"

record stat =
  st_dev :: u32
  st_ino :: u32
  st_type :: u16
  st_nlink :: u16
  st_size :: u64

definition stati :: "nat \<Rightarrow> 'a fs_st_scheme \<Rightarrow> stat" where
  "stati ip s =
     \<lparr>st_dev = i_dev (itable s ip), st_ino = i_inum (itable s ip), st_type = i_type (itable s ip),
      st_nlink = i_nlink (itable s ip), st_size = ucast (i_size (itable s ip))\<rparr>"

text \<open>Where \<open>readi\<close> and \<open>writei\<close> copy to and from: user memory, kernel memory, or a local buffer.\<close>

datatype place = User u64 | Kern u64 | Local

text \<open>Copy \<open>m\<close> bytes \<open>src\<close> to position \<open>tot\<close> of the destination.\<close>

definition copy_to :: "place \<Rightarrow> bytes \<Rightarrow> u32 \<Rightarrow> bytes \<Rightarrow> u32 \<Rightarrow> 'a fs_st_scheme \<Rightarrow> (int \<times> bytes \<times> 'a fs_st_scheme) res" where
  "copy_to dst buf tot src m s =
     (case dst of
        User a \<Rightarrow> bindr (either_copyout True (a + ucast tot) src (ucast m) s) (\<lambda>(r, s). Ok (r, buf, s))
      | Kern a \<Rightarrow> bindr (either_copyout False (a + ucast tot) src (ucast m) s) (\<lambda>(r, s). Ok (r, buf, s))
      | Local \<Rightarrow> Ok (0, \<lambda>i. if unat tot \<le> i \<and> i < unat tot + unat m then src (i - unat tot) else buf i, s))"

definition copy_from :: "bytes \<Rightarrow> place \<Rightarrow> bytes \<Rightarrow> u32 \<Rightarrow> u32 \<Rightarrow> 'a fs_st_scheme \<Rightarrow> (int \<times> bytes) res" where
  "copy_from dst src buf tot m s =
     (case src of
        User a \<Rightarrow> either_copyin dst True (a + ucast tot) (ucast m) s
      | Kern a \<Rightarrow> either_copyin dst False (a + ucast tot) (ucast m) s
      | Local \<Rightarrow> Ok (0, \<lambda>i. if i < unat m then buf (unat tot + i) else dst i))"

definition readi :: "nat \<Rightarrow> place \<Rightarrow> bytes \<Rightarrow> u32 \<Rightarrow> u32 \<Rightarrow> 'a fs_st_scheme \<Rightarrow> (u32 \<times> bytes \<times> 'a fs_st_scheme) res" where
  "readi ip dst buf off n s =
     (if off > i_size (itable s ip) \<or> off + n < off then Ok (0, buf, s)
      else
        let n = (if off + n > i_size (itable s ip) then i_size (itable s ip) - off else n) in
        loopr (\<lambda>(tot, off, buf, s).
          if tot < n then
            bindr (bmap ip (off div BSIZE) s) (\<lambda>(addr, s).
            if addr = 0 then Ok (Inr (tot, buf, s))
            else
              bindr (bread (i_dev (itable s ip)) addr s) (\<lambda>(bp, s).
              let m = min (n - tot) (BSIZE - off mod BSIZE);
                  src = (\<lambda>i. b_data (bufs s bp) (unat (off mod BSIZE) + i)) in
              bindr (copy_to dst buf tot src m s) (\<lambda>(r, buf, s).
              bindr (brelse bp s) (\<lambda>s.
              if r = -1 then Ok (Inr (- 1, buf, s))
              else Ok (Inl (tot + m, off + m, buf, s))))))
          else Ok (Inr (tot, buf, s))) (0, off, buf, s))"

text \<open>The loop of \<open>writei\<close>; it returns \<^verbatim>\<open>tot\<close> and \<^verbatim>\<open>off\<close>.\<close>

definition writei_loop :: "nat \<Rightarrow> place \<Rightarrow> bytes \<Rightarrow> u32 \<Rightarrow> u32 \<Rightarrow> 'a fs_st_scheme \<Rightarrow> (u32 \<times> u32 \<times> 'a fs_st_scheme) res" where
  "writei_loop ip src buf off n s =
     loopr (\<lambda>(tot, off, s).
       if tot < n then
         bindr (bmap ip (off div BSIZE) s) (\<lambda>(addr, s).
         if addr = 0 then Ok (Inr (tot, off, s))
         else
           bindr (bread (i_dev (itable s ip)) addr s) (\<lambda>(bp, s).
           let m = min (n - tot) (BSIZE - off mod BSIZE);
               o1 = unat (off mod BSIZE);
               d = b_data (bufs s bp) in
           bindr (copy_from (\<lambda>i. d (o1 + i)) src buf tot m s) (\<lambda>(r, e).
           let s = set_data bp (\<lambda>i. if o1 \<le> i then e (i - o1) else d i) s in
           if r = -1 then bindr (brelse bp s) (\<lambda>s. Ok (Inr (tot, off, s)))
           else
             bindr (log_write bp s) (\<lambda>s.
             bindr (brelse bp s) (\<lambda>s.
             Ok (Inl (tot + m, off + m, s)))))))
       else Ok (Inr (tot, off, s))) (0, off, s)"

definition writei :: "nat \<Rightarrow> place \<Rightarrow> bytes \<Rightarrow> u32 \<Rightarrow> u32 \<Rightarrow> 'a fs_st_scheme \<Rightarrow> (int \<times> 'a fs_st_scheme) res" where
  "writei ip src buf off n s =
     (if off > i_size (itable s ip) \<or> off + n < off then Ok (-1, s)
      else if off + n > MAXFILE * BSIZE then Ok (-1, s)
      else
        bindr (writei_loop ip src buf off n s) (\<lambda>(tot, off, s).
        let s = (if off > i_size (itable s ip) then upd_inode ip (i_size_update (\<lambda>_. off)) s else s) in
        bindr (iupdate ip s) (\<lambda>s. Ok (sint tot, s))))"

section \<open>Directories\<close>

definition namecmp :: "bytes \<Rightarrow> bytes \<Rightarrow> int" where
  "namecmp p q = strncmp p q DIRSIZ"

text \<open>\<^verbatim>\<open>strncpy\<close> into a local name buffer: copy up to the terminator, then zeros.\<close>

definition strncpy_buf :: "bytes \<Rightarrow> bytes \<Rightarrow> nat \<Rightarrow> bytes" where
  "strncpy_buf d t n = (\<lambda>i. if i < n then (if \<forall>j \<in> set [0..<i]. t j \<noteq> 0 then t i else 0) else d i)"

definition dirlookup :: "nat \<Rightarrow> bytes \<Rightarrow> 'a fs_st_scheme \<Rightarrow> ((nat \<times> u32) option \<times> 'a fs_st_scheme) res" where
  "dirlookup dp name s =
     (if i_type (itable s dp) \<noteq> T_DIR then Panic ''dirlookup not DIR''
      else
        loopr (\<lambda>(off, de, s).
          if off < i_size (itable s dp) then
            bindr (readi dp Local de off 16 s) (\<lambda>(r, de, s).
            if r \<noteq> 16 then Panic ''dirlookup read''
            else if rd16 de 0 = 0 then Ok (Inl (off + 16, de, s))
            else if namecmp name (\<lambda>i. de (2 + i)) = 0 then
              bindr (iget (i_dev (itable s dp)) (ucast (rd16 de 0)) s) (\<lambda>(ip, s). Ok (Inr (Some (ip, off), s)))
            else Ok (Inl (off + 16, de, s)))
          else Ok (Inr (None, s))) (0, \<lambda>_. 0, s))"

definition dirlink :: "nat \<Rightarrow> bytes \<Rightarrow> u32 \<Rightarrow> 'a fs_st_scheme \<Rightarrow> (int \<times> 'a fs_st_scheme) res" where
  "dirlink dp name inum s =
     bindr (dirlookup dp name s) (\<lambda>(x, s).
     case x of
       Some (ip, _) \<Rightarrow> bindr (iput ip s) (\<lambda>s. Ok (-1, s))
     | None \<Rightarrow>
         bindr (loopr (\<lambda>(off, de, s).
           if off < i_size (itable s dp) then
             bindr (readi dp Local de off 16 s) (\<lambda>(r, de, s).
             if r \<noteq> 16 then Panic ''dirlink read''
             else if rd16 de 0 = 0 then Ok (Inr (off, de, s))
             else Ok (Inl (off + 16, de, s)))
           else Ok (Inr (off, de, s))) (0, \<lambda>_. 0, s)) (\<lambda>(off, de, s).
         let nm = strncpy_buf (\<lambda>i. de (2 + i)) name DIRSIZ;
             de = (\<lambda>i. if i < 2 then de i else nm (i - 2));
             de = wr16 de 0 (ucast inum) in
         bindr (writei dp Local de off 16 s) (\<lambda>(r, s).
         if r \<noteq> 16 then Ok (-1, s) else Ok (0, s))))"

section \<open>Paths\<close>

text \<open>A path is the list of its characters before the terminating zero; \<open>name\<close> is the buffer of
  \<^verbatim>\<open>DIRSIZ\<close> bytes.\<close>

abbreviation (input) slash :: u8 where "slash \<equiv> 47"

definition skipelem :: "u8 list \<Rightarrow> bytes \<Rightarrow> (u8 list \<times> bytes) option" where
  "skipelem path name =
     (let path = dropWhile (\<lambda>c. c = slash) path in
      if path = [] then None
      else
        let s = takeWhile (\<lambda>c. c \<noteq> slash) path;
            path = dropWhile (\<lambda>c. c \<noteq> slash) path;
            len = length s;
            name = (if len \<ge> DIRSIZ then (\<lambda>i. if i < DIRSIZ then s ! i else name i)
                    else (\<lambda>i. if i < len then s ! i else name i)(len := 0)) in
        Some (dropWhile (\<lambda>c. c = slash) path, name))"

definition namex_loop :: "bool \<Rightarrow> nat \<times> u8 list \<times> bytes \<times> 'a fs_st_scheme \<Rightarrow> (nat option \<times> bytes \<times> 'a fs_st_scheme) res" where
  "namex_loop nameiparent =
     loopr (\<lambda>(ip, path, name, s).
       case skipelem path name of
         None \<Rightarrow>
           if nameiparent then bindr (iput ip s) (\<lambda>s. Ok (Inr (None, name, s)))
           else Ok (Inr (Some ip, name, s))
       | Some (path, name) \<Rightarrow>
           bindr (ilock (Some ip) s) (\<lambda>s.
           if i_type (itable s ip) \<noteq> T_DIR then
             bindr (iunlockput ip s) (\<lambda>s. Ok (Inr (None, name, s)))
           else if nameiparent \<and> path = [] then
             bindr (iunlock (Some ip) s) (\<lambda>s. Ok (Inr (Some ip, name, s)))
           else
             bindr (dirlookup ip name s) (\<lambda>(x, s).
             case x of
               None \<Rightarrow> bindr (iunlockput ip s) (\<lambda>s. Ok (Inr (None, name, s)))
             | Some (nxt, _) \<Rightarrow> bindr (iunlockput ip s) (\<lambda>s. Ok (Inl (nxt, path, name, s))))))"

definition namex :: "u8 list \<Rightarrow> bool \<Rightarrow> bytes \<Rightarrow> 'a fs_st_scheme \<Rightarrow> (nat option \<times> bytes \<times> 'a fs_st_scheme) res" where
  "namex path nameiparent name s =
     bindr
       (case path of
          c # _ \<Rightarrow> if c = slash then iget ROOTDEV ROOTINO s
                   else (case cur s of None \<Rightarrow> Panic ''kerneltrap''
                         | Some p \<Rightarrow> (case p_cwd (ptab s p) of None \<Rightarrow> Panic ''kerneltrap''
                             | Some ip \<Rightarrow> bindr (idup ip s) (\<lambda>s. Ok (ip, s))))
        | [] \<Rightarrow> (case cur s of None \<Rightarrow> Panic ''kerneltrap''
                         | Some p \<Rightarrow> (case p_cwd (ptab s p) of None \<Rightarrow> Panic ''kerneltrap''
                             | Some ip \<Rightarrow> bindr (idup ip s) (\<lambda>s. Ok (ip, s)))))
       (\<lambda>(ip, s). namex_loop nameiparent (ip, path, name, s))"

definition namei :: "u8 list \<Rightarrow> 'a fs_st_scheme \<Rightarrow> (nat option \<times> 'a fs_st_scheme) res" where
  "namei path s = bindr (namex path False (\<lambda>_. 0) s) (\<lambda>(ip, _, s). Ok (ip, s))"

definition nameiparent :: "u8 list \<Rightarrow> bytes \<Rightarrow> 'a fs_st_scheme \<Rightarrow> (nat option \<times> bytes \<times> 'a fs_st_scheme) res" where
  "nameiparent path name s = namex path True name s"

end
