(* ===== verification/Fifo.thy ===== *)
theory Fifo
  imports Xv6_Prelude
begin

text \<open>
  Ring buffers with running counters, as in \<^verbatim>\<open>struct pipe\<close>, the UART transmit buffer and the
  console input buffer: a byte goes to index \<open>w mod N\<close> and comes from index \<open>r mod N\<close>, and the
  counters wrap around with their machine word. \<open>ring_list\<close> is the queue such a buffer stands for.
  The locale \<open>fifo\<close> is the contract of a bounded queue; its clients see every byte once and in
  order.
\<close>

section \<open>The queue in a ring\<close>

definition ring_list :: "nat \<Rightarrow> (nat \<Rightarrow> 'b) \<Rightarrow> 'n::len word \<Rightarrow> 'n word \<Rightarrow> 'b list" where
  "ring_list N buf r w = map (\<lambda>k. buf (unat (r + of_nat k) mod N)) [0..<unat (w - r)]"

lemma length_ring_list [simp]: "length (ring_list N buf r w) = unat (w - r)"
  by (simp add: ring_list_def)

lemma ring_list_Nil_iff [simp]: "ring_list N buf r w = [] \<longleftrightarrow> r = w"
  by (auto simp: ring_list_def unat_eq_0)

lemma unat_of_nat_small: "k < 2 ^ LENGTH('n) \<Longrightarrow> unat (of_nat k :: 'n::len word) = k"
  by (simp add: unat_of_nat take_bit_nat_eq_self)

lemma dvd_power_le: "N dvd 2 ^ n \<Longrightarrow> (N :: nat) \<le> 2 ^ n"
  by (rule dvd_imp_le) simp_all

text \<open>Positions less than \<open>N\<close> apart are different indices, also across the wrap-around.\<close>

lemma ring_index_neq:
  fixes r :: "'n::len word"
  assumes N: "N dvd 2 ^ LENGTH('n)" and j: "j < k" "k < j + N"
  shows "unat (r + of_nat j) mod N \<noteq> unat (r + of_nat k) mod N"
proof
  have u: "unat (r + of_nat i) mod N = (unat r + i) mod N" for i
    by (simp add: unat_word_ariths unat_of_nat take_bit_eq_mod mod_mod_cancel [OF N] mod_add_right_eq)
  assume "unat (r + of_nat j) mod N = unat (r + of_nat k) mod N"
  then have "(unat r + j) mod N = (unat r + k) mod N" by (simp only: u)
  then have "N dvd (unat r + k) - (unat r + j)" using j by (intro mod_eq_dvd_iff_nat [THEN iffD1]) simp_all
  then have "N dvd k - j" by simp
  moreover have "0 < k - j" "k - j < N" using j by auto
  ultimately show False by (auto dest: dvd_imp_le)
qed

lemma ring_list_put:
  fixes r w :: "'n::len word"
  assumes N: "N dvd 2 ^ LENGTH('n)" and room: "unat (w - r) < N" and lt: "N < 2 ^ LENGTH('n)"
  shows "ring_list N (buf(unat w mod N := c)) r (w + 1) = ring_list N buf r w @ [c]"
proof -
  let ?n = "unat (w - r)"
  have w: "w = r + of_nat ?n" by simp
  have e: "w + 1 - r = (w - r) + 1" by simp
  have len: "unat (w + 1 - r) = Suc ?n"
    unfolding e using room lt by (simp add: unat_word_ariths)
  have "(buf(unat w mod N := c)) (unat (r + of_nat k) mod N) = buf (unat (r + of_nat k) mod N)" if "k < ?n" for k
    using ring_index_neq [OF N that, of r] room w by auto
  then have "map (\<lambda>k. (buf(unat w mod N := c)) (unat (r + of_nat k) mod N)) [0..<?n] = ring_list N buf r w"
    unfolding ring_list_def by (intro map_cong) auto
  then show ?thesis unfolding ring_list_def [of N "buf(unat w mod N := c)"] len using w by simp
qed

lemma ring_list_get:
  assumes "r \<noteq> w"
  shows "ring_list N buf r w = buf (unat r mod N) # ring_list N buf (r + 1) w"
proof -
  have pos: "w - r \<noteq> 0" using assms by simp
  have e: "w - (r + 1) = (w - r) - 1" by simp
  have len: "unat (w - r) = Suc (unat (w - (r + 1)))"
    unfolding e using unat_minus_one [OF pos] unat_gt_0 [of "w - r"] pos by simp
  show ?thesis unfolding ring_list_def len
    by (simp add: upt_conv_Cons map_Suc_upt [symmetric] add.commute add.left_commute del: upt_Suc)
qed

section \<open>The contract of a bounded queue\<close>

datatype 'b queue_op = Put 'b | Get

text \<open>A run of puts and gets. A put into a full queue and a get from an empty one have to wait:
  they are skipped. The result is the bytes taken in, the bytes given out and the last state.\<close>

fun queue_run :: "('b \<Rightarrow> 's \<Rightarrow> 's) \<Rightarrow> ('s \<Rightarrow> 'b \<times> 's) \<Rightarrow> ('s \<Rightarrow> bool) \<Rightarrow> ('s \<Rightarrow> bool) \<Rightarrow> 'b queue_op list \<Rightarrow> 's \<Rightarrow>
    'b list \<times> 'b list \<times> 's" where
  "queue_run put get isfull isempty [] s = ([], [], s)"
| "queue_run put get isfull isempty (Put x # ops) s =
     (if isfull s then queue_run put get isfull isempty ops s
      else let (i, out, t) = queue_run put get isfull isempty ops (put x s) in (x # i, out, t))"
| "queue_run put get isfull isempty (Get # ops) s =
     (if isempty s then queue_run put get isfull isempty ops s
      else let (x, s') = get s; (i, out, t) = queue_run put get isfull isempty ops s' in (i, x # out, t))"

locale fifo =
  fixes put :: "'b \<Rightarrow> 's \<Rightarrow> 's" and get :: "'s \<Rightarrow> 'b \<times> 's"
    and isfull :: "'s \<Rightarrow> bool" and isempty :: "'s \<Rightarrow> bool"
    and queue :: "'s \<Rightarrow> 'b list" and invar :: "'s \<Rightarrow> bool" and capacity :: nat
  assumes bound: "invar s \<Longrightarrow> length (queue s) \<le> capacity"
    and full_iff: "invar s \<Longrightarrow> isfull s \<longleftrightarrow> length (queue s) = capacity"
    and empty_iff: "invar s \<Longrightarrow> isempty s \<longleftrightarrow> queue s = []"
    and put_queue: "invar s \<Longrightarrow> \<not> isfull s \<Longrightarrow> queue (put x s) = queue s @ [x]"
    and put_invar: "invar s \<Longrightarrow> \<not> isfull s \<Longrightarrow> invar (put x s)"
    and get_queue: "invar s \<Longrightarrow> \<not> isempty s \<Longrightarrow> queue s = fst (get s) # queue (snd (get s))"
    and get_invar: "invar s \<Longrightarrow> \<not> isempty s \<Longrightarrow> invar (snd (get s))"
begin

lemma run_fifo:
  assumes "invar s" "queue_run put get isfull isempty ops s = (i, out, t)"
  shows "queue s @ i = out @ queue t \<and> invar t"
  using assms
proof (induction ops arbitrary: s i out)
  case (Cons op ops)
  show ?case
  proof (cases op)
    case (Put x)
    show ?thesis
    proof (cases "isfull s")
      case True
      then show ?thesis using Cons Put by simp
    next
      case False
      then obtain j where j: "queue_run put get isfull isempty ops (put x s) = (j, out, t)" "i = x # j"
        using Cons.prems(2) Put by (auto split: prod.splits)
      from Cons.IH [OF put_invar [OF Cons.prems(1) False] j(1)] put_queue [OF Cons.prems(1) False] j(2)
      show ?thesis by simp
    qed
  next
    case Get
    show ?thesis
    proof (cases "isempty s")
      case True
      then show ?thesis using Cons Get by simp
    next
      case False
      then obtain p where p: "queue_run put get isfull isempty ops (snd (get s)) = (i, p, t)" "out = fst (get s) # p"
        using Cons.prems(2) Get by (auto split: prod.splits)
      from Cons.IH [OF get_invar [OF Cons.prems(1) False] p(1)] get_queue [OF Cons.prems(1) False] p(2)
      show ?thesis by simp
    qed
  qed
qed auto

end

end
