(* ===== verification/Console.thy ===== *)
theory Console
  imports Fs Sched Fifo
begin

text \<open>
  The UART driver (\<^verbatim>\<open>kernel/uart.c\<close>) and the console (\<^verbatim>\<open>kernel/console.c\<close>). The device is seen
  through its registers: \<open>uart_idle\<close> is how many bytes the transmit register takes before it is
  busy, \<open>uart_out\<close> the bytes it has got, \<open>uart_in\<close> the received bytes not yet read.
\<close>

section \<open>State\<close>

abbreviation (input) UART_TX_BUF_SIZE :: "'a::numeral" where "UART_TX_BUF_SIZE \<equiv> 32"
abbreviation (input) INPUT_BUF_SIZE :: "'a::numeral" where "INPUT_BUF_SIZE \<equiv> 128"
abbreviation (input) BACKSPACE :: int where "BACKSPACE \<equiv> 0x100"

record txbuf =
  uart_tx_buf :: "nat \<Rightarrow> u8"
  uart_tx_w :: u64
  uart_tx_r :: u64

record consbuf =
  c_buf :: "nat \<Rightarrow> u8"
  c_r :: u32
  c_w :: u32
  c_e :: u32

record cons_st = fs_st +
  uart_tx :: txbuf
  uart_idle :: nat
  uart_out :: "u8 list"
  uart_in :: "u8 list"
  panicked :: bool
  cons :: consbuf

section \<open>UART\<close>

definition tx_full :: "txbuf \<Rightarrow> bool" where
  "tx_full t \<longleftrightarrow> uart_tx_w t = uart_tx_r t + UART_TX_BUF_SIZE"

definition tx_empty :: "txbuf \<Rightarrow> bool" where
  "tx_empty t \<longleftrightarrow> uart_tx_w t = uart_tx_r t"

definition tx_put :: "u8 \<Rightarrow> txbuf \<Rightarrow> txbuf" where
  "tx_put c t =
     t\<lparr>uart_tx_buf := (uart_tx_buf t)(unat (uart_tx_w t mod UART_TX_BUF_SIZE) := c),
       uart_tx_w := uart_tx_w t + 1\<rparr>"

definition tx_get :: "txbuf \<Rightarrow> u8 \<times> txbuf" where
  "tx_get t = (uart_tx_buf t (unat (uart_tx_r t mod UART_TX_BUF_SIZE)), t\<lparr>uart_tx_r := uart_tx_r t + 1\<rparr>)"

definition uartstart :: "'a cons_st_scheme \<Rightarrow> 'a cons_st_scheme res" where
  "uartstart =
     loopr (\<lambda>s.
       if tx_empty (uart_tx s) then Ok (Inr s)
       else if uart_idle s = 0 then Ok (Inr s)
       else
         let (c, t) = tx_get (uart_tx s) in
         bindr (wakeup Chan_uart (s\<lparr>uart_tx := t\<rparr>)) (\<lambda>s.
         Ok (Inl (s\<lparr>uart_out := uart_out s @ [c], uart_idle := uart_idle s - 1\<rparr>))))"

definition uartputc :: "('a cons_st_scheme \<Rightarrow> 'a cons_st_scheme res) \<Rightarrow> u8 \<Rightarrow> 'a cons_st_scheme \<Rightarrow> 'a cons_st_scheme res" where
  "uartputc others c s =
     bindr (acquire Uart_lock s) (\<lambda>s.
     if panicked s then Loop
     else
       bindr (loopr (\<lambda>s.
         if tx_full (uart_tx s) then bindr (sleep others Chan_uart Uart_lock s) (\<lambda>s. Ok (Inl s))
         else Ok (Inr s)) s) (\<lambda>s.
       bindr (uartstart (s\<lparr>uart_tx := tx_put c (uart_tx s)\<rparr>)) (\<lambda>s.
       release Uart_lock s)))"

text \<open>The busy wait for the transmit register ends when the device has sent a byte.\<close>

definition uartputc_sync :: "u8 \<Rightarrow> 'a cons_st_scheme \<Rightarrow> 'a cons_st_scheme res" where
  "uartputc_sync c s = (if panicked s then Loop else Ok (s\<lparr>uart_out := uart_out s @ [c]\<rparr>))"

definition uartgetc :: "'a cons_st_scheme \<Rightarrow> int \<times> 'a cons_st_scheme" where
  "uartgetc s = (case uart_in s of [] \<Rightarrow> (-1, s) | c # cs \<Rightarrow> (uint c, s\<lparr>uart_in := cs\<rparr>))"

section \<open>Console\<close>

definition consputc :: "int \<Rightarrow> 'a cons_st_scheme \<Rightarrow> 'a cons_st_scheme res" where
  "consputc c s =
     (if c = BACKSPACE then
        bindr (uartputc_sync 8 s) (\<lambda>s. bindr (uartputc_sync 32 s) (\<lambda>s. uartputc_sync 8 s))
      else uartputc_sync (word_of_int c) s)"

definition cons_get :: "consbuf \<Rightarrow> u8 \<times> consbuf" where
  "cons_get k = (c_buf k (unat (c_r k mod INPUT_BUF_SIZE)), k\<lparr>c_r := c_r k + 1\<rparr>)"

definition cons_put :: "u8 \<Rightarrow> consbuf \<Rightarrow> consbuf" where
  "cons_put c k = k\<lparr>c_buf := (c_buf k)(unat (c_e k mod INPUT_BUF_SIZE) := c), c_e := c_e k + 1\<rparr>"

definition consolewrite :: "('a cons_st_scheme \<Rightarrow> 'a cons_st_scheme res) \<Rightarrow> bool \<Rightarrow> u64 \<Rightarrow> int \<Rightarrow> 'a cons_st_scheme \<Rightarrow>
    (int \<times> 'a cons_st_scheme) res" where
  "consolewrite others user_src src n s =
     loopr (\<lambda>(i, s).
       if i < n then
         bindr (either_copyin (\<lambda>_. 0) user_src (src + word_of_int i) 1 s) (\<lambda>(r, d).
         if r = -1 then Ok (Inr (i, s))
         else bindr (uartputc others (d 0) s) (\<lambda>s. Ok (Inl (i + 1, s))))
       else Ok (Inr (i, s))) (0, s)"

text \<open>Waiting for input: \<open>True\<close> when there is some, \<open>False\<close> when the process was killed.\<close>

definition cons_wait :: "('a cons_st_scheme \<Rightarrow> 'a cons_st_scheme res) \<Rightarrow> 'a cons_st_scheme \<Rightarrow> (bool \<times> 'a cons_st_scheme) res" where
  "cons_wait others =
     loopr (\<lambda>s.
       if c_r (cons s) = c_w (cons s) then
         bindr (myproc s) (\<lambda>p.
         bindr (killed p s) (\<lambda>(k, s).
         if k \<noteq> 0 then Ok (Inr (False, s))
         else bindr (sleep others Chan_cons Cons_lock s) (\<lambda>s. Ok (Inl s))))
       else Ok (Inr (True, s)))"

definition consoleread :: "('a cons_st_scheme \<Rightarrow> 'a cons_st_scheme res) \<Rightarrow> bool \<Rightarrow> u64 \<Rightarrow> int \<Rightarrow> 'a cons_st_scheme \<Rightarrow>
    (int \<times> 'a cons_st_scheme) res" where
  "consoleread others user_dst dst n0 s =
     bindr (acquire Cons_lock s) (\<lambda>s.
     bindr (loopr (\<lambda>(n, dst, s).
       if n > 0 then
         bindr (cons_wait others s) (\<lambda>(input, s).
         if \<not> input then bindr (release Cons_lock s) (\<lambda>s. Ok (Inr (None, s)))
         else
           let (c, k) = cons_get (cons s); s = s\<lparr>cons := k\<rparr> in
           if c = 4 then
             Ok (Inr (Some n, if n < n0 then s\<lparr>cons := k\<lparr>c_r := c_r k - 1\<rparr>\<rparr> else s))
           else
             bindr (either_copyout user_dst dst (\<lambda>_. c) 1 s) (\<lambda>(r, s).
             if r = -1 then Ok (Inr (Some n, s))
             else if c = 10 then Ok (Inr (Some (n - 1), s))
             else Ok (Inl (n - 1, dst + 1, s))))
       else Ok (Inr (Some n, s))) (n0, dst, s)) (\<lambda>(r, s).
     case r of
       None \<Rightarrow> Ok (-1, s)
     | Some n \<Rightarrow> bindr (release Cons_lock s) (\<lambda>s. Ok (n0 - n, s))))"

definition kill_line :: "'a cons_st_scheme \<Rightarrow> 'a cons_st_scheme res" where
  "kill_line =
     loopr (\<lambda>s.
       if c_e (cons s) \<noteq> c_w (cons s) \<and> c_buf (cons s) (unat ((c_e (cons s) - 1) mod INPUT_BUF_SIZE)) \<noteq> 10
       then bindr (consputc BACKSPACE (s\<lparr>cons := (cons s)\<lparr>c_e := c_e (cons s) - 1\<rparr>\<rparr>)) (\<lambda>s. Ok (Inl s))
       else Ok (Inr s))"

text \<open>\<^verbatim>\<open>C('P')\<close> is 16, \<^verbatim>\<open>C('U')\<close> is 21, \<^verbatim>\<open>C('H')\<close> is 8; \<open>procdump\<close> only prints.\<close>

definition consoleintr :: "int \<Rightarrow> 'a cons_st_scheme \<Rightarrow> 'a cons_st_scheme res" where
  "consoleintr c s =
     bindr (acquire Cons_lock s) (\<lambda>s.
     bindr
       (if c = 16 then Ok s
        else if c = 21 then kill_line s
        else if c = 8 \<or> c = 127 then
          (if c_e (cons s) \<noteq> c_w (cons s)
           then consputc BACKSPACE (s\<lparr>cons := (cons s)\<lparr>c_e := c_e (cons s) - 1\<rparr>\<rparr>) else Ok s)
        else if c \<noteq> 0 \<and> c_e (cons s) - c_r (cons s) < INPUT_BUF_SIZE then
          let c = (if c = 13 then 10 else c) in
          bindr (consputc c s) (\<lambda>s.
          let s = s\<lparr>cons := cons_put (word_of_int c) (cons s)\<rparr> in
          if c = 10 \<or> c = 4 \<or> c_e (cons s) - c_r (cons s) = INPUT_BUF_SIZE
          then wakeup Chan_cons (s\<lparr>cons := (cons s)\<lparr>c_w := c_e (cons s)\<rparr>\<rparr>) else Ok s)
        else Ok s)
       (\<lambda>s. release Cons_lock s))"

definition uartintr :: "'a cons_st_scheme \<Rightarrow> 'a cons_st_scheme res" where
  "uartintr s =
     bindr (loopr (\<lambda>s.
       let (c, s) = uartgetc s in
       if c = -1 then Ok (Inr s) else bindr (consoleintr c s) (\<lambda>s. Ok (Inl s))) s) (\<lambda>s.
     bindr (acquire Uart_lock s) (\<lambda>s.
     bindr (uartstart s) (\<lambda>s.
     release Uart_lock s)))"

section \<open>The buffers as queues\<close>

definition tx_inv :: "txbuf \<Rightarrow> bool" where
  "tx_inv t \<longleftrightarrow> unat (uart_tx_w t - uart_tx_r t) \<le> UART_TX_BUF_SIZE"

definition tx_queue :: "txbuf \<Rightarrow> u8 list" where
  "tx_queue t = ring_list UART_TX_BUF_SIZE (uart_tx_buf t) (uart_tx_r t) (uart_tx_w t)"

lemma word_eq_add_iff: "(w :: 'a::len word) = r + n \<longleftrightarrow> w - r = n"
  by (auto simp: diff_eq_eq add.commute)

lemma tx_full_iff: "tx_full t \<longleftrightarrow> unat (uart_tx_w t - uart_tx_r t) = UART_TX_BUF_SIZE"
  unfolding tx_full_def word_eq_add_iff by (simp add: word_unat_eq_iff)

interpretation tx: fifo tx_put tx_get tx_full tx_empty tx_queue tx_inv UART_TX_BUF_SIZE
proof
  fix t :: txbuf and x assume inv: "tx_inv t"
  show "length (tx_queue t) \<le> UART_TX_BUF_SIZE" using inv by (simp add: tx_queue_def tx_inv_def)
  show "tx_full t \<longleftrightarrow> length (tx_queue t) = UART_TX_BUF_SIZE" by (simp add: tx_queue_def tx_full_iff)
  show "tx_empty t \<longleftrightarrow> tx_queue t = []" by (auto simp: tx_queue_def tx_empty_def)
  { assume "\<not> tx_full t"
    then have room: "unat (uart_tx_w t - uart_tx_r t) < UART_TX_BUF_SIZE" using inv by (simp add: tx_full_iff tx_inv_def)
    show "tx_queue (tx_put x t) = tx_queue t @ [x]"
      using ring_list_put [OF _ room, of "uart_tx_buf t" x] by (simp add: tx_queue_def tx_put_def unat_mod)
    then have "length (tx_queue (tx_put x t)) = Suc (length (tx_queue t))" by simp
    then show "tx_inv (tx_put x t)" using room by (simp add: tx_queue_def tx_inv_def) }
  { assume "\<not> tx_empty t"
    then have ne: "uart_tx_r t \<noteq> uart_tx_w t" by (auto simp: tx_empty_def)
    show "tx_queue t = fst (tx_get t) # tx_queue (snd (tx_get t))"
      using ring_list_get [OF ne, of UART_TX_BUF_SIZE "uart_tx_buf t"] by (simp add: tx_queue_def tx_get_def unat_mod)
    then have "length (tx_queue t) = Suc (length (tx_queue (snd (tx_get t))))" by simp
    then show "tx_inv (snd (tx_get t))" using inv by (simp add: tx_queue_def tx_inv_def) }
qed

end
