(* ===== verification/File.thy ===== *)
theory File
  imports Console
begin

text \<open>
  Open files (\<^verbatim>\<open>kernel/file.c\<close>) and pipes (\<^verbatim>\<open>kernel/pipe.c\<close>). A pointer to a file is an index into
  \<^verbatim>\<open>ftable.file[]\<close>; a pipe lives in a page of its own and is named by the address of that page.
\<close>

section \<open>State\<close>

abbreviation (input) NFILE :: "'a::numeral" where "NFILE \<equiv> 100"
abbreviation (input) NDEV :: "'a::numeral" where "NDEV \<equiv> 10"
abbreviation (input) PIPESIZE :: "'a::numeral" where "PIPESIZE \<equiv> 512"
abbreviation (input) CONSOLE :: u16 where "CONSOLE \<equiv> 1"

datatype filetype = FD_NONE | FD_PIPE | FD_INODE | FD_DEVICE

record kfile =
  f_type :: filetype
  f_ref :: int
  f_readable :: bool
  f_writable :: bool
  f_pipe :: u64
  f_ip :: "nat option"
  f_off :: u32
  f_major :: u16

record pipe =
  pi_data :: "nat \<Rightarrow> u8"
  pi_nread :: u32
  pi_nwrite :: u32
  pi_readopen :: bool
  pi_writeopen :: bool

record file_st = cons_st +
  ftable :: "nat \<Rightarrow> kfile"
  pipes :: "u64 \<Rightarrow> pipe"

definition upd_file :: "nat \<Rightarrow> (kfile \<Rightarrow> kfile) \<Rightarrow> 'a file_st_scheme \<Rightarrow> 'a file_st_scheme" where
  "upd_file f g s = s\<lparr>ftable := (ftable s)(f := g (ftable s f))\<rparr>"

definition upd_pipe :: "u64 \<Rightarrow> (pipe \<Rightarrow> pipe) \<Rightarrow> 'a file_st_scheme \<Rightarrow> 'a file_st_scheme" where
  "upd_pipe pi g s = s\<lparr>pipes := (pipes s)(pi := g (pipes s pi))\<rparr>"

section \<open>Pipes\<close>

definition pipe_full :: "pipe \<Rightarrow> bool" where
  "pipe_full p \<longleftrightarrow> pi_nwrite p = pi_nread p + PIPESIZE"

definition pipe_empty :: "pipe \<Rightarrow> bool" where
  "pipe_empty p \<longleftrightarrow> pi_nread p = pi_nwrite p"

definition pipe_put :: "u8 \<Rightarrow> pipe \<Rightarrow> pipe" where
  "pipe_put ch p =
     p\<lparr>pi_data := (pi_data p)(unat (pi_nwrite p mod PIPESIZE) := ch), pi_nwrite := pi_nwrite p + 1\<rparr>"

definition pipe_get :: "pipe \<Rightarrow> u8 \<times> pipe" where
  "pipe_get p = (pi_data p (unat (pi_nread p mod PIPESIZE)), p\<lparr>pi_nread := pi_nread p + 1\<rparr>)"

definition pipeclose :: "u64 \<Rightarrow> bool \<Rightarrow> 'a file_st_scheme \<Rightarrow> 'a file_st_scheme res" where
  "pipeclose pi writable s =
     bindr (acquire (Pipe_lock pi) s) (\<lambda>s.
     bindr (if writable then wakeup (Chan_pipe_nread pi) (upd_pipe pi (pi_writeopen_update (\<lambda>_. False)) s)
            else wakeup (Chan_pipe_nwrite pi) (upd_pipe pi (pi_readopen_update (\<lambda>_. False)) s)) (\<lambda>s.
     if \<not> pi_readopen (pipes s pi) \<and> \<not> pi_writeopen (pipes s pi)
     then bindr (release (Pipe_lock pi) s) (kfree pi)
     else release (Pipe_lock pi) s))"

definition pipewrite :: "('a file_st_scheme \<Rightarrow> 'a file_st_scheme res) \<Rightarrow> u64 \<Rightarrow> u64 \<Rightarrow> int \<Rightarrow> 'a file_st_scheme \<Rightarrow>
    (int \<times> 'a file_st_scheme) res" where
  "pipewrite others pi addr n s =
     bindr (myproc s) (\<lambda>pr.
     bindr (acquire (Pipe_lock pi) s) (\<lambda>s.
     bindr (loopr (\<lambda>(i, s).
       if i < n then
         bindr (if \<not> pi_readopen (pipes s pi) then Ok (1, s) else killed pr s) (\<lambda>(k, s).
         if k \<noteq> 0 then bindr (release (Pipe_lock pi) s) (\<lambda>s. Ok (Inr (None, s)))
         else if pipe_full (pipes s pi) then
           bindr (wakeup (Chan_pipe_nread pi) s) (\<lambda>s.
           bindr (sleep others (Chan_pipe_nwrite pi) (Pipe_lock pi) s) (\<lambda>s.
           Ok (Inl (i, s))))
         else
           bindr (copyin (p_pagetable (ptab s pr)) (\<lambda>_. 0) (addr + word_of_int i) 1 s) (\<lambda>(r, d).
           if r = -1 then Ok (Inr (Some i, s))
           else Ok (Inl (i + 1, upd_pipe pi (pipe_put (d 0)) s))))
       else Ok (Inr (Some i, s))) (0, s)) (\<lambda>(r, s).
     case r of
       None \<Rightarrow> Ok (-1, s)
     | Some i \<Rightarrow>
         bindr (wakeup (Chan_pipe_nread pi) s) (\<lambda>s.
         bindr (release (Pipe_lock pi) s) (\<lambda>s. Ok (i, s))))))"

text \<open>The wait of \<open>piperead\<close> for data; \<open>False\<close> when the process was killed.\<close>

definition pipe_wait :: "('a file_st_scheme \<Rightarrow> 'a file_st_scheme res) \<Rightarrow> u64 \<Rightarrow> nat \<Rightarrow> 'a file_st_scheme \<Rightarrow>
    (bool \<times> 'a file_st_scheme) res" where
  "pipe_wait others pi pr =
     loopr (\<lambda>s.
       if pipe_empty (pipes s pi) \<and> pi_writeopen (pipes s pi) then
         bindr (killed pr s) (\<lambda>(k, s).
         if k \<noteq> 0 then bindr (release (Pipe_lock pi) s) (\<lambda>s. Ok (Inr (False, s)))
         else bindr (sleep others (Chan_pipe_nread pi) (Pipe_lock pi) s) (\<lambda>s. Ok (Inl s)))
       else Ok (Inr (True, s)))"

definition piperead :: "('a file_st_scheme \<Rightarrow> 'a file_st_scheme res) \<Rightarrow> u64 \<Rightarrow> u64 \<Rightarrow> int \<Rightarrow> 'a file_st_scheme \<Rightarrow>
    (int \<times> 'a file_st_scheme) res" where
  "piperead others pi addr n s =
     bindr (myproc s) (\<lambda>pr.
     bindr (acquire (Pipe_lock pi) s) (\<lambda>s.
     bindr (pipe_wait others pi pr s) (\<lambda>(go, s).
     if \<not> go then Ok (-1, s)
     else
       bindr (loopr (\<lambda>(i, s).
         if i < n then
           if pipe_empty (pipes s pi) then Ok (Inr (i, s))
           else
             let (ch, p) = pipe_get (pipes s pi); s = upd_pipe pi (\<lambda>_. p) s in
             bindr (copyout (p_pagetable (ptab s pr)) (addr + word_of_int i) (\<lambda>_. ch) 1 s) (\<lambda>(r, s).
             if r = -1 then Ok (Inr (i, s)) else Ok (Inl (i + 1, s)))
         else Ok (Inr (i, s))) (0, s)) (\<lambda>(i, s).
       bindr (wakeup (Chan_pipe_nwrite pi) s) (\<lambda>s.
       bindr (release (Pipe_lock pi) s) (\<lambda>s. Ok (i, s)))))))"

section \<open>Files\<close>

fun filealloc_loop :: "nat list \<Rightarrow> 'a file_st_scheme \<Rightarrow> (nat option \<times> 'a file_st_scheme) res" where
  "filealloc_loop [] s = bindr (release Ftable_lock s) (\<lambda>s. Ok (None, s))"
| "filealloc_loop (f # fs) s =
     (if f_ref (ftable s f) = 0
      then bindr (release Ftable_lock (upd_file f (f_ref_update (\<lambda>_. 1)) s)) (\<lambda>s. Ok (Some f, s))
      else filealloc_loop fs s)"

definition filealloc :: "'a file_st_scheme \<Rightarrow> (nat option \<times> 'a file_st_scheme) res" where
  "filealloc s = bindr (acquire Ftable_lock s) (filealloc_loop [0..<NFILE])"

definition filedup :: "nat \<Rightarrow> 'a file_st_scheme \<Rightarrow> 'a file_st_scheme res" where
  "filedup f s =
     bindr (acquire Ftable_lock s) (\<lambda>s.
     if f_ref (ftable s f) < 1 then Panic ''filedup''
     else release Ftable_lock (upd_file f (f_ref_update (\<lambda>r. r + 1)) s))"

definition put_ip :: "nat option \<Rightarrow> 'a file_st_scheme \<Rightarrow> 'a file_st_scheme res" where
  "put_ip ip s = (case ip of None \<Rightarrow> Panic ''kerneltrap'' | Some i \<Rightarrow> iput i s)"

definition fileclose :: "nat \<Rightarrow> 'a file_st_scheme \<Rightarrow> 'a file_st_scheme res" where
  "fileclose f s =
     bindr (acquire Ftable_lock s) (\<lambda>s.
     if f_ref (ftable s f) < 1 then Panic ''fileclose''
     else
       let s = upd_file f (f_ref_update (\<lambda>r. r - 1)) s in
       if f_ref (ftable s f) > 0 then release Ftable_lock s
       else
         let ff = ftable s f;
             s = upd_file f (\<lambda>x. x\<lparr>f_ref := 0, f_type := FD_NONE\<rparr>) s in
         bindr (release Ftable_lock s) (\<lambda>s.
         if f_type ff = FD_PIPE then pipeclose (f_pipe ff) (f_writable ff) s
         else if f_type ff = FD_INODE \<or> f_type ff = FD_DEVICE then
           bindr (begin_op s) (\<lambda>s. bindr (put_ip (f_ip ff) s) end_op)
         else Ok s))"

text \<open>\<^verbatim>\<open>struct stat\<close> as it is copied out: 24 bytes with the size at offset 16.\<close>

definition stat_bytes :: "stat \<Rightarrow> bytes" where
  "stat_bytes st =
     (let d = wr32 (\<lambda>_. 0) 0 (st_dev st);
          d = wr32 d 4 (st_ino st);
          d = wr16 d 8 (st_type st);
          d = wr16 d 10 (st_nlink st) in
      (\<lambda>j. if 16 \<le> j \<and> j < 24 then ucast (drop_bit (8 * (j - 16)) (st_size st)) else d j))"

definition filestat :: "nat \<Rightarrow> u64 \<Rightarrow> 'a file_st_scheme \<Rightarrow> (int \<times> 'a file_st_scheme) res" where
  "filestat f addr s =
     bindr (myproc s) (\<lambda>p.
     if f_type (ftable s f) = FD_INODE \<or> f_type (ftable s f) = FD_DEVICE then
       bindr (ilock (f_ip (ftable s f)) s) (\<lambda>s.
       let st = stati (the (f_ip (ftable s f))) s in
       bindr (iunlock (f_ip (ftable s f)) s) (\<lambda>s.
       bindr (copyout (p_pagetable (ptab s p)) addr (stat_bytes st) 24 s) (\<lambda>(r, s).
       if r < 0 then Ok (-1, s) else Ok (0, s))))
     else Ok (-1, s))"

text \<open>\<^verbatim>\<open>devsw[]\<close> after \<^verbatim>\<open>consoleinit\<close>: only the console has functions.\<close>

definition devsw_read :: "u16 \<Rightarrow> (('a cons_st_scheme \<Rightarrow> 'a cons_st_scheme res) \<Rightarrow> bool \<Rightarrow> u64 \<Rightarrow> int \<Rightarrow> 'a cons_st_scheme \<Rightarrow>
    (int \<times> 'a cons_st_scheme) res) option" where
  "devsw_read m = (if m = CONSOLE then Some consoleread else None)"

definition devsw_write :: "u16 \<Rightarrow> (('a cons_st_scheme \<Rightarrow> 'a cons_st_scheme res) \<Rightarrow> bool \<Rightarrow> u64 \<Rightarrow> int \<Rightarrow> 'a cons_st_scheme \<Rightarrow>
    (int \<times> 'a cons_st_scheme) res) option" where
  "devsw_write m = (if m = CONSOLE then Some consolewrite else None)"

definition fileread :: "('a file_st_scheme \<Rightarrow> 'a file_st_scheme res) \<Rightarrow> nat \<Rightarrow> u64 \<Rightarrow> int \<Rightarrow> 'a file_st_scheme \<Rightarrow>
    (int \<times> 'a file_st_scheme) res" where
  "fileread others f addr n s =
     (if \<not> f_readable (ftable s f) then Ok (-1, s)
      else case f_type (ftable s f) of
        FD_PIPE \<Rightarrow> piperead others (f_pipe (ftable s f)) addr n s
      | FD_DEVICE \<Rightarrow>
          if sint (f_major (ftable s f)) < 0 \<or> sint (f_major (ftable s f)) \<ge> NDEV then Ok (-1, s)
          else (case devsw_read (f_major (ftable s f)) of
                  None \<Rightarrow> Ok (-1, s) | Some rd \<Rightarrow> rd others True addr n s)
      | FD_INODE \<Rightarrow>
          bindr (ilock (f_ip (ftable s f)) s) (\<lambda>s.
          bindr (readi (the (f_ip (ftable s f))) (User addr) (\<lambda>_. 0) (f_off (ftable s f)) (word_of_int n) s) (\<lambda>(r, _, s).
          let s = (if sint r > 0 then upd_file f (f_off_update (\<lambda>x. x + r)) s else s) in
          bindr (iunlock (f_ip (ftable s f)) s) (\<lambda>s. Ok (sint r, s))))
      | FD_NONE \<Rightarrow> Panic ''fileread'')"

text \<open>One chunk of \<open>filewrite\<close> to an inode, a transaction of its own.\<close>

definition write_chunk :: "nat \<Rightarrow> u64 \<Rightarrow> int \<Rightarrow> 'a file_st_scheme \<Rightarrow> (int \<times> 'a file_st_scheme) res" where
  "write_chunk f addr n1 s =
     bindr (begin_op s) (\<lambda>s.
     bindr (ilock (f_ip (ftable s f)) s) (\<lambda>s.
     bindr (writei (the (f_ip (ftable s f))) (User addr) (\<lambda>_. 0) (f_off (ftable s f)) (word_of_int n1) s) (\<lambda>(r, s).
     let s = (if r > 0 then upd_file f (f_off_update (\<lambda>x. x + word_of_int r)) s else s) in
     bindr (iunlock (f_ip (ftable s f)) s) (\<lambda>s.
     bindr (end_op s) (\<lambda>s. Ok (r, s))))))"

definition filewrite :: "('a file_st_scheme \<Rightarrow> 'a file_st_scheme res) \<Rightarrow> nat \<Rightarrow> u64 \<Rightarrow> int \<Rightarrow> 'a file_st_scheme \<Rightarrow>
    (int \<times> 'a file_st_scheme) res" where
  "filewrite others f addr n s =
     (if \<not> f_writable (ftable s f) then Ok (-1, s)
      else case f_type (ftable s f) of
        FD_PIPE \<Rightarrow> pipewrite others (f_pipe (ftable s f)) addr n s
      | FD_DEVICE \<Rightarrow>
          if sint (f_major (ftable s f)) < 0 \<or> sint (f_major (ftable s f)) \<ge> NDEV then Ok (-1, s)
          else (case devsw_write (f_major (ftable s f)) of
                  None \<Rightarrow> Ok (-1, s) | Some wr \<Rightarrow> wr others True addr n s)
      | FD_INODE \<Rightarrow>
          let mx = ((MAXOPBLOCKS - 1 - 1 - 2) div 2) * BSIZE in
          bindr (loopr (\<lambda>(i, s).
            if i < n then
              let n1 = (if n - i > mx then mx else n - i) in
              bindr (write_chunk f (addr + word_of_int i) n1 s) (\<lambda>(r, s).
              if r \<noteq> n1 then Ok (Inr (i, s)) else Ok (Inl (i + r, s)))
            else Ok (Inr (i, s))) (0, s)) (\<lambda>(i, s).
          Ok (if i = n then n else -1, s))
      | FD_NONE \<Rightarrow> Panic ''filewrite'')"

definition pipealloc :: "'a file_st_scheme \<Rightarrow> (int \<times> nat option \<times> nat option \<times> 'a file_st_scheme) res" where
  "pipealloc s =
     (let bad = (\<lambda>f0 f1 s.
        bindr (case f0 of None \<Rightarrow> Ok s | Some f \<Rightarrow> fileclose f s) (\<lambda>s.
        bindr (case f1 of None \<Rightarrow> Ok s | Some f \<Rightarrow> fileclose f s) (\<lambda>s.
        Ok (-1, f0, f1, s)))) in
      bindr (filealloc s) (\<lambda>(f0, s).
      case f0 of
        None \<Rightarrow> bad f0 None s
      | Some g0 \<Rightarrow>
          bindr (filealloc s) (\<lambda>(f1, s).
          case f1 of
            None \<Rightarrow> bad f0 f1 s
          | Some g1 \<Rightarrow>
              bindr (kalloc s) (\<lambda>(pi, s).
              if pi = 0 then bad f0 f1 s
              else
                let s = upd_pipe pi (\<lambda>p. p\<lparr>pi_readopen := True, pi_writeopen := True, pi_nwrite := 0, pi_nread := 0\<rparr>) s;
                    s = upd_file g0 (\<lambda>x. x\<lparr>f_type := FD_PIPE, f_readable := True, f_writable := False, f_pipe := pi\<rparr>) s;
                    s = upd_file g1 (\<lambda>x. x\<lparr>f_type := FD_PIPE, f_readable := False, f_writable := True, f_pipe := pi\<rparr>) s in
                Ok (0, f0, f1, s)))))"

section \<open>The pipe as a queue\<close>

definition pipe_inv :: "pipe \<Rightarrow> bool" where
  "pipe_inv p \<longleftrightarrow> unat (pi_nwrite p - pi_nread p) \<le> PIPESIZE"

definition pipe_queue :: "pipe \<Rightarrow> u8 list" where
  "pipe_queue p = ring_list PIPESIZE (pi_data p) (pi_nread p) (pi_nwrite p)"

lemma pipe_full_iff: "pipe_full p \<longleftrightarrow> unat (pi_nwrite p - pi_nread p) = PIPESIZE"
  unfolding pipe_full_def word_eq_add_iff by (simp add: word_unat_eq_iff)

interpretation pipe: fifo pipe_put pipe_get pipe_full pipe_empty pipe_queue pipe_inv PIPESIZE
proof
  fix p :: pipe and x assume inv: "pipe_inv p"
  show "length (pipe_queue p) \<le> PIPESIZE" using inv by (simp add: pipe_queue_def pipe_inv_def)
  show "pipe_full p \<longleftrightarrow> length (pipe_queue p) = PIPESIZE" by (simp add: pipe_queue_def pipe_full_iff)
  show "pipe_empty p \<longleftrightarrow> pipe_queue p = []" by (auto simp: pipe_queue_def pipe_empty_def)
  { assume "\<not> pipe_full p"
    then have room: "unat (pi_nwrite p - pi_nread p) < PIPESIZE" using inv by (simp add: pipe_full_iff pipe_inv_def)
    show "pipe_queue (pipe_put x p) = pipe_queue p @ [x]"
      using ring_list_put [OF _ room, of "pi_data p" x] by (simp add: pipe_queue_def pipe_put_def unat_mod)
    then have "length (pipe_queue (pipe_put x p)) = Suc (length (pipe_queue p))" by simp
    then show "pipe_inv (pipe_put x p)" using room by (simp add: pipe_queue_def pipe_inv_def) }
  { assume "\<not> pipe_empty p"
    then have ne: "pi_nread p \<noteq> pi_nwrite p" by (auto simp: pipe_empty_def)
    show "pipe_queue p = fst (pipe_get p) # pipe_queue (snd (pipe_get p))"
      using ring_list_get [OF ne, of PIPESIZE "pi_data p"] by (simp add: pipe_queue_def pipe_get_def unat_mod)
    then have "length (pipe_queue p) = Suc (length (pipe_queue (snd (pipe_get p))))" by simp
    then show "pipe_inv (snd (pipe_get p))" using inv by (simp add: pipe_queue_def pipe_inv_def) }
qed

end
