(* ===== verification/Proc.thy ===== *)
theory Proc
  imports File
begin

text \<open>
  Processes (\<^verbatim>\<open>kernel/proc.c\<close>): creation, memory, \<open>fork\<close>, \<open>exit\<close> and \<open>wait\<close>. A \<^verbatim>\<open>struct proc *\<close> is an
  index into \<^verbatim>\<open>proc[]\<close>. The trap frame is a page of memory in the layout of \<^verbatim>\<open>struct trapframe\<close>.
  \<open>trampoline\<close> and \<open>forkret_addr\<close> are linker symbols. No process sleeps on the null channel, so
  \<^verbatim>\<open>wakeup(0)\<close> is left out.
\<close>

section \<open>State\<close>

abbreviation (input) NOFILE :: "'a::numeral" where "NOFILE \<equiv> 16"

text \<open>Byte offsets in \<^verbatim>\<open>struct trapframe\<close>.\<close>

abbreviation (input) TF_EPC :: u64 where "TF_EPC \<equiv> 24"
abbreviation (input) TF_SP :: u64 where "TF_SP \<equiv> 48"
abbreviation (input) TF_A0 :: u64 where "TF_A0 \<equiv> 112"

record proc_st = file_st +
  nextpid :: int
  initproc :: "nat option"
  first :: bool
  trampoline :: u64
  forkret_addr :: u64

definition set_tf :: "nat \<Rightarrow> u64 \<Rightarrow> u64 \<Rightarrow> 'a proc_st_scheme \<Rightarrow> 'a proc_st_scheme" where
  "set_tf p off v s = s\<lparr>mem := st64 (mem s) (p_trapframe (ptab s p) + off) v\<rparr>"

section \<open>Creation\<close>

fun procinit_loop :: "nat list \<Rightarrow> 'a proc_st_scheme \<Rightarrow> 'a proc_st_scheme" where
  "procinit_loop [] s = s"
| "procinit_loop (p # ps) s =
     procinit_loop ps (upd_proc p (\<lambda>x. x\<lparr>p_state := UNUSED, p_kstack := KSTACK p\<rparr>) s)"

definition procinit :: "'a proc_st_scheme \<Rightarrow> 'a proc_st_scheme" where
  "procinit s = procinit_loop [0..<NPROC] s"

definition allocpid :: "'a proc_st_scheme \<Rightarrow> (int \<times> 'a proc_st_scheme) res" where
  "allocpid s =
     bindr (acquire Pid_lock s) (\<lambda>s.
     let pid = nextpid s in
     bindr (release Pid_lock (s\<lparr>nextpid := nextpid s + 1\<rparr>)) (\<lambda>s. Ok (pid, s)))"

definition proc_freepagetable :: "u64 \<Rightarrow> u64 \<Rightarrow> 'a proc_st_scheme \<Rightarrow> 'a proc_st_scheme res" where
  "proc_freepagetable pagetable sz s =
     bindr (uvmunmap pagetable TRAMPOLINE 1 False s) (\<lambda>s.
     bindr (uvmunmap pagetable TRAPFRAME 1 False s) (\<lambda>s.
     uvmfree pagetable sz s))"

definition freeproc :: "nat \<Rightarrow> 'a proc_st_scheme \<Rightarrow> 'a proc_st_scheme res" where
  "freeproc p s =
     bindr (if p_trapframe (ptab s p) \<noteq> 0 then kfree (p_trapframe (ptab s p)) s else Ok s) (\<lambda>s.
     let s = upd_proc p (p_trapframe_update (\<lambda>_. 0)) s in
     bindr (if p_pagetable (ptab s p) \<noteq> 0
            then proc_freepagetable (p_pagetable (ptab s p)) (p_sz (ptab s p)) s else Ok s) (\<lambda>s.
     Ok (upd_proc p (\<lambda>x. x\<lparr>p_pagetable := 0, p_sz := 0, p_pid := 0, p_parent := None, p_name := [],
           p_chan := None, p_killed := 0, p_xstate := 0, p_state := UNUSED\<rparr>) s)))"

definition proc_pagetable :: "nat \<Rightarrow> 'a proc_st_scheme \<Rightarrow> (u64 \<times> 'a proc_st_scheme) res" where
  "proc_pagetable p s =
     bindr (uvmcreate s) (\<lambda>(pagetable, s).
     if pagetable = 0 then Ok (0, s)
     else
       bindr (mappages pagetable TRAMPOLINE PGSIZE (trampoline s) (PTE_R OR PTE_X) s) (\<lambda>(r, s).
       if r < 0 then bindr (uvmfree pagetable 0 s) (\<lambda>s. Ok (0, s))
       else
         bindr (mappages pagetable TRAPFRAME PGSIZE (p_trapframe (ptab s p)) (PTE_R OR PTE_W) s) (\<lambda>(r, s).
         if r < 0 then
           bindr (uvmunmap pagetable TRAMPOLINE 1 False s) (\<lambda>s.
           bindr (uvmfree pagetable 0 s) (\<lambda>s. Ok (0, s)))
         else Ok (pagetable, s))))"

text \<open>The search of \<open>allocproc\<close> for an unused entry; it is returned with its lock held.\<close>

fun find_unused :: "nat list \<Rightarrow> 'a proc_st_scheme \<Rightarrow> (nat option \<times> 'a proc_st_scheme) res" where
  "find_unused [] s = Ok (None, s)"
| "find_unused (p # ps) s =
     bindr (acquire (Proc_lock p) s) (\<lambda>s.
     if p_state (ptab s p) = UNUSED then Ok (Some p, s)
     else bindr (release (Proc_lock p) s) (find_unused ps))"

definition drop_proc :: "nat \<Rightarrow> 'a proc_st_scheme \<Rightarrow> 'a proc_st_scheme res" where
  "drop_proc p s =
     bindr (acquire (Proc_lock p) s) (\<lambda>s. bindr (freeproc p s) (\<lambda>s. release (Proc_lock p) s))"

definition allocproc :: "'a proc_st_scheme \<Rightarrow> (nat option \<times> 'a proc_st_scheme) res" where
  "allocproc s =
     bindr (find_unused [0..<NPROC] s) (\<lambda>(x, s).
     case x of
       None \<Rightarrow> Ok (None, s)
     | Some p \<Rightarrow>
         bindr (allocpid s) (\<lambda>(pid, s).
         let s = upd_proc p (p_pid_update (\<lambda>_. pid)) s;
             s = upd_proc p (p_state_update (\<lambda>_. USED)) s in
         bindr (release (Proc_lock p) s) (\<lambda>s.
         bindr (kalloc s) (\<lambda>(tf, s).
         let s = upd_proc p (p_trapframe_update (\<lambda>_. tf)) s in
         if tf = 0 then bindr (drop_proc p s) (\<lambda>s. Ok (None, s))
         else
           bindr (proc_pagetable p s) (\<lambda>(pt, s).
           let s = upd_proc p (p_pagetable_update (\<lambda>_. pt)) s in
           if pt = 0 then bindr (drop_proc p s) (\<lambda>s. Ok (None, s))
           else
             bindr (acquire (Proc_lock p) s) (\<lambda>s.
             let s = upd_proc p (\<lambda>x. x\<lparr>p_context := \<lparr>ra = forkret_addr s, sp = p_kstack x + PGSIZE, s_regs = (\<lambda>_. 0)\<rparr>\<rparr>) s in
             Ok (Some p, s)))))))"

text \<open>The program \<^verbatim>\<open>initcode\<close>.\<close>

definition initcode :: "u8 list" where
  "initcode =
    [0x17, 0x05, 0x00, 0x00, 0x13, 0x05, 0x45, 0x02, 0x97, 0x05, 0x00, 0x00, 0x93, 0x85, 0x35, 0x02,
     0x93, 0x08, 0x70, 0x00, 0x73, 0x00, 0x00, 0x00, 0x93, 0x08, 0x20, 0x00, 0x73, 0x00, 0x00, 0x00,
     0xef, 0xf0, 0x9f, 0xff, 0x2f, 0x69, 0x6e, 0x69, 0x74, 0x00, 0x00, 0x24, 0x00, 0x00, 0x00, 0x00,
     0x00, 0x00, 0x00, 0x00]"

definition userinit :: "'a proc_st_scheme \<Rightarrow> 'a proc_st_scheme res" where
  "userinit s =
     bindr (allocproc s) (\<lambda>(x, s).
     let s = s\<lparr>initproc := x\<rparr> in
     case x of
       None \<Rightarrow> Panic ''kerneltrap''
     | Some p \<Rightarrow>
         bindr (uvmfirst (p_pagetable (ptab s p)) (\<lambda>i. if i < 52 then initcode ! i else 0) 52 s) (\<lambda>s.
         let s = upd_proc p (p_sz_update (\<lambda>_. PGSIZE)) s;
             s = set_tf p TF_EPC 0 s;
             s = set_tf p TF_SP PGSIZE s;
             s = upd_proc p (p_name_update (\<lambda>_. [105, 110, 105, 116, 99, 111, 100, 101])) s in
         bindr (namei [slash] s) (\<lambda>(ip, s).
         let s = upd_proc p (p_cwd_update (\<lambda>_. ip)) s;
             s = upd_proc p (p_state_update (\<lambda>_. RUNNABLE)) s in
         release (Proc_lock p) s)))"

section \<open>Memory of a process\<close>

definition growproc :: "int \<Rightarrow> 'a proc_st_scheme \<Rightarrow> (int \<times> 'a proc_st_scheme) res" where
  "growproc n s =
     bindr (myproc s) (\<lambda>p.
     let sz = p_sz (ptab s p) in
     if n > 0 then
       bindr (uvmalloc (p_pagetable (ptab s p)) sz (sz + word_of_int n) PTE_W s) (\<lambda>(sz, s).
       if sz = 0 then Ok (-1, s) else Ok (0, upd_proc p (p_sz_update (\<lambda>_. sz)) s))
     else if n < 0 then
       bindr (uvmdealloc (p_pagetable (ptab s p)) sz (sz + word_of_int n) s) (\<lambda>(sz, s).
       Ok (0, upd_proc p (p_sz_update (\<lambda>_. sz)) s))
     else Ok (0, upd_proc p (p_sz_update (\<lambda>_. sz)) s))"

section \<open>fork\<close>

fun dup_files :: "nat list \<Rightarrow> nat \<Rightarrow> nat \<Rightarrow> 'a proc_st_scheme \<Rightarrow> 'a proc_st_scheme res" where
  "dup_files [] p np s = Ok s"
| "dup_files (i # is) p np s =
     (case p_ofile (ptab s p) i of
        None \<Rightarrow> dup_files is p np s
      | Some f \<Rightarrow>
          bindr (filedup f s) (\<lambda>s.
          dup_files is p np (upd_proc np (p_ofile_update (\<lambda>o'. o'(i := Some f))) s)))"

definition fork :: "'a proc_st_scheme \<Rightarrow> (int \<times> 'a proc_st_scheme) res" where
  "fork s =
     bindr (myproc s) (\<lambda>p.
     bindr (allocproc s) (\<lambda>(x, s).
     case x of
       None \<Rightarrow> Ok (-1, s)
     | Some np \<Rightarrow>
         bindr (release (Proc_lock np) s) (\<lambda>s.
         bindr (uvmcopy (p_pagetable (ptab s p)) (p_pagetable (ptab s np)) (p_sz (ptab s p)) s) (\<lambda>(r, s).
         if r < 0 then bindr (drop_proc np s) (\<lambda>s. Ok (-1, s))
         else
           let s = upd_proc np (p_sz_update (\<lambda>_. p_sz (ptab s p))) s;
               s = s\<lparr>mem := mem_write (mem s) (p_trapframe (ptab s np)) (mem_read (mem s) (p_trapframe (ptab s p))) 288\<rparr>;
               s = set_tf np TF_A0 0 s in
           bindr (dup_files [0..<NOFILE] p np s) (\<lambda>s.
           bindr (case p_cwd (ptab s p) of None \<Rightarrow> Panic ''kerneltrap'' | Some ip \<Rightarrow> idup ip s) (\<lambda>s.
           let s = upd_proc np (p_cwd_update (\<lambda>_. p_cwd (ptab s p))) s;
               s = upd_proc np (p_name_update (\<lambda>_. p_name (ptab s p))) s;
               pid = p_pid (ptab s np) in
           bindr (acquire Wait_lock s) (\<lambda>s.
           bindr (release Wait_lock (upd_proc np (p_parent_update (\<lambda>_. Some p)) s)) (\<lambda>s.
           bindr (acquire (Proc_lock np) s) (\<lambda>s.
           bindr (release (Proc_lock np) (upd_proc np (p_state_update (\<lambda>_. RUNNABLE)) s)) (\<lambda>s.
           Ok (pid, s)))))))))))"

section \<open>exit and wait\<close>

fun reparent_loop :: "nat list \<Rightarrow> nat \<Rightarrow> 'a proc_st_scheme \<Rightarrow> 'a proc_st_scheme res" where
  "reparent_loop [] p s = Ok s"
| "reparent_loop (pp # pps) p s =
     (if p_parent (ptab s pp) = Some p then
        (case initproc s of
           None \<Rightarrow> reparent_loop pps p (upd_proc pp (p_parent_update (\<lambda>_. None)) s)
         | Some ini \<Rightarrow>
             bindr (wakeup (Chan_proc ini) (upd_proc pp (p_parent_update (\<lambda>_. Some ini)) s)) (reparent_loop pps p))
      else reparent_loop pps p s)"

definition reparent :: "nat \<Rightarrow> 'a proc_st_scheme \<Rightarrow> 'a proc_st_scheme res" where
  "reparent p s = reparent_loop [0..<NPROC] p s"

fun close_files :: "nat list \<Rightarrow> nat \<Rightarrow> 'a proc_st_scheme \<Rightarrow> 'a proc_st_scheme res" where
  "close_files [] p s = Ok s"
| "close_files (fd # fds) p s =
     (case p_ofile (ptab s p) fd of
        None \<Rightarrow> close_files fds p s
      | Some f \<Rightarrow>
          bindr (fileclose f s) (\<lambda>s.
          close_files fds p (upd_proc p (p_ofile_update (\<lambda>o'. o'(fd := None))) s)))"

text \<open>\<open>exit\<close> up to the call of \<open>sched\<close>.\<close>

definition exit_zombie :: "int \<Rightarrow> 'a proc_st_scheme \<Rightarrow> 'a proc_st_scheme res" where
  "exit_zombie status s =
     bindr (myproc s) (\<lambda>p.
     if Some p = initproc s then Panic ''init exiting''
     else
       bindr (close_files [0..<NOFILE] p s) (\<lambda>s.
       bindr (begin_op s) (\<lambda>s.
       bindr (put_ip (p_cwd (ptab s p)) s) (\<lambda>s.
       bindr (end_op s) (\<lambda>s.
       let s = upd_proc p (p_cwd_update (\<lambda>_. None)) s in
       bindr (acquire Wait_lock s) (\<lambda>s.
       bindr (reparent p s) (\<lambda>s.
       bindr (case p_parent (ptab s p) of None \<Rightarrow> Ok s | Some pp \<Rightarrow> wakeup (Chan_proc pp) s) (\<lambda>s.
       bindr (acquire (Proc_lock p) s) (\<lambda>s.
       let s = upd_proc p (\<lambda>x. x\<lparr>p_xstate := status, p_state := ZOMBIE\<rparr>) s in
       release Wait_lock s)))))))))"

definition exit :: "('a proc_st_scheme \<Rightarrow> 'a proc_st_scheme res) \<Rightarrow> int \<Rightarrow> 'a proc_st_scheme \<Rightarrow> 'a proc_st_scheme res" where
  "exit others status s =
     bindr (exit_zombie status s) (\<lambda>s. bindr (sched others s) (\<lambda>s. Panic ''zombie exit''))"

text \<open>One scan of \<open>wait\<close> over the table: \<open>Inr\<close> is the value \<open>wait\<close> returns, \<open>Inl\<close> tells whether
  there are children.\<close>

fun wait_scan :: "nat list \<Rightarrow> nat \<Rightarrow> u64 \<Rightarrow> bool \<Rightarrow> 'a proc_st_scheme \<Rightarrow> ((bool + int) \<times> 'a proc_st_scheme) res" where
  "wait_scan [] p addr havekids s = Ok (Inl havekids, s)"
| "wait_scan (pp # pps) p addr havekids s =
     (if p_parent (ptab s pp) = Some p then
        bindr (acquire (Proc_lock pp) s) (\<lambda>s.
        if p_state (ptab s pp) = ZOMBIE then
          let pid = p_pid (ptab s pp) in
          bindr (if addr \<noteq> 0
                 then copyout (p_pagetable (ptab s p)) addr (wr32 (\<lambda>_. 0) 0 (word_of_int (p_xstate (ptab s pp)))) 4 s
                 else Ok (0, s)) (\<lambda>(r, s).
          if r < 0 then
            bindr (release (Proc_lock pp) s) (\<lambda>s. bindr (release Wait_lock s) (\<lambda>s. Ok (Inr (-1), s)))
          else
            bindr (freeproc pp s) (\<lambda>s.
            bindr (release (Proc_lock pp) s) (\<lambda>s. bindr (release Wait_lock s) (\<lambda>s. Ok (Inr pid, s)))))
        else bindr (release (Proc_lock pp) s) (wait_scan pps p addr True))
      else wait_scan pps p addr havekids s)"

definition wait :: "('a proc_st_scheme \<Rightarrow> 'a proc_st_scheme res) \<Rightarrow> u64 \<Rightarrow> 'a proc_st_scheme \<Rightarrow> (int \<times> 'a proc_st_scheme) res" where
  "wait others addr s =
     bindr (myproc s) (\<lambda>p.
     bindr (acquire Wait_lock s) (\<lambda>s.
     loopr (\<lambda>s.
       bindr (wait_scan [0..<NPROC] p addr False s) (\<lambda>(x, s).
       case x of
         Inr r \<Rightarrow> Ok (Inr (r, s))
       | Inl havekids \<Rightarrow>
           bindr (if \<not> havekids then Ok (1, s) else killed p s) (\<lambda>(k, s).
           if k \<noteq> 0 then bindr (release Wait_lock s) (\<lambda>s. Ok (Inr (-1, s)))
           else bindr (sleep others (Chan_proc p) Wait_lock s) (\<lambda>s. Ok (Inl s))))) s))"

definition forkret :: "'a proc_st_scheme \<Rightarrow> 'a proc_st_scheme res" where
  "forkret s =
     bindr (myproc s) (\<lambda>p.
     bindr (release (Proc_lock p) s) (\<lambda>s.
     if first s then bindr (fsinit ROOTDEV s) (\<lambda>s. Ok (s\<lparr>first := False\<rparr>)) else Ok s))"

end
