(* ===== verification/Exec.thy ===== *)
theory Exec
  imports Proc
begin

text \<open>
  Loading programs (\<^verbatim>\<open>kernel/exec.c\<close>). The ELF and program headers are local buffers in the layout
  of \<^verbatim>\<open>kernel/elf.h\<close>; \<open>argv\<close> is the list of the pages that hold the argument strings.
\<close>

section \<open>Headers\<close>

abbreviation (input) ELF_MAGIC :: u32 where "ELF_MAGIC \<equiv> 0x464C457F"
abbreviation (input) ELF_PROG_LOAD :: u32 where "ELF_PROG_LOAD \<equiv> 1"
abbreviation (input) MAXARG :: "'a::numeral" where "MAXARG \<equiv> 32"
abbreviation (input) TF_A1 :: u64 where "TF_A1 \<equiv> 120"

definition rd64 :: "bytes \<Rightarrow> nat \<Rightarrow> u64" where
  "rd64 d i = rd_bytes 8 (\<lambda>j. d (i + j))"

record elfhdr =
  e_magic :: u32
  e_entry :: u64
  e_phoff :: u64
  e_phnum :: u16

record proghdr =
  ph_type :: u32
  ph_flags :: u32
  ph_off :: u64
  ph_vaddr :: u64
  ph_filesz :: u64
  ph_memsz :: u64

definition rd_elfhdr :: "bytes \<Rightarrow> elfhdr" where
  "rd_elfhdr d = \<lparr>e_magic = rd32 d 0, e_entry = rd64 d 24, e_phoff = rd64 d 32, e_phnum = rd16 d 56\<rparr>"

definition rd_proghdr :: "bytes \<Rightarrow> proghdr" where
  "rd_proghdr d = \<lparr>ph_type = rd32 d 0, ph_flags = rd32 d 4, ph_off = rd64 d 8, ph_vaddr = rd64 d 16,
                   ph_filesz = rd64 d 32, ph_memsz = rd64 d 40\<rparr>"

section \<open>Operations\<close>

definition flags2perm :: "u32 \<Rightarrow> u64" where
  "flags2perm flags =
     (let perm = (if flags AND 1 \<noteq> 0 then PTE_X else 0) in
      if flags AND 2 \<noteq> 0 then perm OR PTE_W else perm)"

definition loadseg :: "u64 \<Rightarrow> u64 \<Rightarrow> nat \<Rightarrow> u32 \<Rightarrow> u32 \<Rightarrow> 'a proc_st_scheme \<Rightarrow> (int \<times> 'a proc_st_scheme) res" where
  "loadseg pagetable va ip offset sz s =
     loopr (\<lambda>(i, s).
       if i < sz then
         bindr (walkaddr pagetable (va + ucast i) s) (\<lambda>pa.
         if pa = 0 then Panic ''loadseg: address should exist''
         else
           let n = (if sz - i < PGSIZE then sz - i else PGSIZE) in
           bindr (readi ip (Kern pa) (\<lambda>_. 0) (offset + i) n s) (\<lambda>(r, _, s).
           if r \<noteq> n then Ok (Inr (-1, s)) else Ok (Inl (i + PGSIZE, s))))
       else Ok (Inr (0, s))) (0, s)"

text \<open>The loop over the program headers; the result tells whether to go on, and the size.\<close>

definition load_segs :: "elfhdr \<Rightarrow> nat \<Rightarrow> u64 \<Rightarrow> 'a proc_st_scheme \<Rightarrow> (bool \<times> u64 \<times> 'a proc_st_scheme) res" where
  "load_segs elf ip pagetable s =
     loopr (\<lambda>(i, off, sz, s).
       if i < unat (e_phnum elf) then
         bindr (readi ip Local (\<lambda>_. 0) off 56 s) (\<lambda>(r, d, s).
         if r \<noteq> 56 then Ok (Inr (False, sz, s))
         else
           let ph = rd_proghdr d in
           if ph_type ph \<noteq> ELF_PROG_LOAD then Ok (Inl (i + 1, off + 56, sz, s))
           else if ph_memsz ph < ph_filesz ph then Ok (Inr (False, sz, s))
           else if ph_vaddr ph + ph_memsz ph < ph_vaddr ph then Ok (Inr (False, sz, s))
           else if ph_vaddr ph mod PGSIZE \<noteq> 0 then Ok (Inr (False, sz, s))
           else
             bindr (uvmalloc pagetable sz (ph_vaddr ph + ph_memsz ph) (flags2perm (ph_flags ph)) s) (\<lambda>(sz1, s).
             if sz1 = 0 then Ok (Inr (False, sz, s))
             else
               bindr (loadseg pagetable (ph_vaddr ph) ip (ucast (ph_off ph)) (ucast (ph_filesz ph)) s) (\<lambda>(r, s).
               if r < 0 then Ok (Inr (False, sz1, s))
               else Ok (Inl (i + 1, off + 56, sz1, s)))))
       else Ok (Inr (True, sz, s))) (0 :: nat, ucast (e_phoff elf), 0, s)"

text \<open>Pushing the argument strings: the new stack pointer and the string addresses, or failure.\<close>

fun push_args :: "u64 list \<Rightarrow> u64 \<Rightarrow> u64 \<Rightarrow> u64 \<Rightarrow> u64 list \<Rightarrow> 'a proc_st_scheme \<Rightarrow>
    ((u64 \<times> u64 list) option \<times> 'a proc_st_scheme) res" where
  "push_args [] pagetable stackbase sp' ustack s = Ok (Some (sp', ustack), s)"
| "push_args (arg # args) pagetable stackbase sp' ustack s =
     (if length ustack \<ge> MAXARG then Ok (None, s)
      else
        bindr (strlen (mem_read (mem s) arg)) (\<lambda>len.
        let sp' = sp' - of_nat (len + 1); sp' = sp' - sp' mod 16 in
        if sp' < stackbase then Ok (None, s)
        else
          bindr (copyout pagetable sp' (mem_read (mem s) arg) (of_nat (len + 1)) s) (\<lambda>(r, s).
          if r < 0 then Ok (None, s)
          else push_args args pagetable stackbase sp' (ustack @ [sp']) s)))"

definition words_bytes :: "u64 list \<Rightarrow> bytes" where
  "words_bytes ws = (\<lambda>j. if j div 8 < length ws then ucast (drop_bit (8 * (j mod 8)) (ws ! (j div 8))) else 0)"

text \<open>The part of \<open>path\<close> behind the last slash.\<close>

fun last_elem :: "u8 list \<Rightarrow> u8 list \<Rightarrow> u8 list" where
  "last_elem [] l = l"
| "last_elem (c # cs) l = last_elem cs (if c = slash then cs else l)"

text \<open>The exit of \<open>exec\<close> at the label \<^verbatim>\<open>bad\<close>.\<close>

definition exec_bad :: "u64 \<Rightarrow> u64 \<Rightarrow> nat option \<Rightarrow> 'a proc_st_scheme \<Rightarrow> (int \<times> 'a proc_st_scheme) res" where
  "exec_bad pagetable sz ip s =
     bindr (if pagetable \<noteq> 0 then proc_freepagetable pagetable sz s else Ok s) (\<lambda>s.
     bindr (case ip of None \<Rightarrow> Ok s | Some i \<Rightarrow> bindr (iunlockput i s) end_op) (\<lambda>s.
     Ok (-1, s)))"

text \<open>\<open>exec\<close> from the allocation of the stack on.\<close>

definition exec_stack :: "elfhdr \<Rightarrow> u8 list \<Rightarrow> u64 list \<Rightarrow> u64 \<Rightarrow> u64 \<Rightarrow> 'a proc_st_scheme \<Rightarrow> (int \<times> 'a proc_st_scheme) res" where
  "exec_stack elf path argv pagetable sz s =
     bindr (myproc s) (\<lambda>p.
     let oldsz = p_sz (ptab s p); sz = PGROUNDUP sz in
     bindr (uvmalloc pagetable sz (sz + 2 * PGSIZE) PTE_W s) (\<lambda>(sz1, s).
     if sz1 = 0 then exec_bad pagetable sz None s
     else
       let sz = sz1 in
       bindr (uvmclear pagetable (sz - 2 * PGSIZE) s) (\<lambda>s.
       let sp' = sz; stackbase = sp' - PGSIZE in
       bindr (push_args argv pagetable stackbase sp' [] s) (\<lambda>(x, s).
       case x of
         None \<Rightarrow> exec_bad pagetable sz None s
       | Some (sp', ustack) \<Rightarrow>
           let argc = length ustack;
               sp' = sp' - of_nat ((argc + 1) * 8);
               sp' = sp' - sp' mod 16 in
           if sp' < stackbase then exec_bad pagetable sz None s
           else
             bindr (copyout pagetable sp' (words_bytes (ustack @ [0])) (of_nat ((argc + 1) * 8)) s) (\<lambda>(r, s).
             if r < 0 then exec_bad pagetable sz None s
             else
               let s = set_tf p TF_A1 sp' s;
                   s = upd_proc p (p_name_update (\<lambda>_. take 15 (last_elem path path))) s;
                   oldpagetable = p_pagetable (ptab s p);
                   s = upd_proc p (p_pagetable_update (\<lambda>_. pagetable)) s;
                   s = upd_proc p (p_sz_update (\<lambda>_. sz)) s;
                   s = set_tf p TF_EPC (e_entry elf) s;
                   s = set_tf p TF_SP sp' s in
               bindr (proc_freepagetable oldpagetable oldsz s) (\<lambda>s. Ok (int argc, s)))))))"

definition exec :: "u8 list \<Rightarrow> u64 list \<Rightarrow> 'a proc_st_scheme \<Rightarrow> (int \<times> 'a proc_st_scheme) res" where
  "exec path argv s =
     bindr (myproc s) (\<lambda>p.
     bindr (begin_op s) (\<lambda>s.
     bindr (namei path s) (\<lambda>(x, s).
     case x of
       None \<Rightarrow> bindr (end_op s) (\<lambda>s. Ok (-1, s))
     | Some ip \<Rightarrow>
         bindr (ilock (Some ip) s) (\<lambda>s.
         bindr (readi ip Local (\<lambda>_. 0) 0 64 s) (\<lambda>(r, d, s).
         if r \<noteq> 64 then exec_bad 0 0 (Some ip) s
         else
           let elf = rd_elfhdr d in
           if e_magic elf \<noteq> ELF_MAGIC then exec_bad 0 0 (Some ip) s
           else
             bindr (proc_pagetable p s) (\<lambda>(pagetable, s).
             if pagetable = 0 then exec_bad 0 0 (Some ip) s
             else
               bindr (load_segs elf ip pagetable s) (\<lambda>(ok, sz, s).
               if \<not> ok then exec_bad pagetable sz (Some ip) s
               else
                 bindr (iunlockput ip s) (\<lambda>s.
                 bindr (end_op s) (\<lambda>s.
                 exec_stack elf path argv pagetable sz s)))))))))"

end
