(* ===== verification/Sysfile.thy ===== *)
theory Sysfile
  imports Exec
begin

text \<open>
  System calls (\<^verbatim>\<open>kernel/syscall.c\<close>, \<^verbatim>\<open>kernel/sysproc.c\<close>, \<^verbatim>\<open>kernel/sysfile.c\<close>). Arguments come from the
  registers saved in the trap frame. The value of a call is the 64-bit word stored into \<^verbatim>\<open>a0\<close>.
\<close>

section \<open>Arguments\<close>

abbreviation (input) MAXPATH :: "'a::numeral" where "MAXPATH \<equiv> 128"
abbreviation (input) TF_A7 :: u64 where "TF_A7 \<equiv> 168"

record sys_st = proc_st +
  ticks :: u32

definition fetchaddr :: "u64 \<Rightarrow> 'a sys_st_scheme \<Rightarrow> (int \<times> u64) res" where
  "fetchaddr addr s =
     bindr (myproc s) (\<lambda>p.
     if addr \<ge> p_sz (ptab s p) \<or> addr + 8 > p_sz (ptab s p) then Ok (-1, 0)
     else bindr (copyin (p_pagetable (ptab s p)) (\<lambda>_. 0) addr 8 s) (\<lambda>(r, d).
       if r \<noteq> 0 then Ok (-1, 0) else Ok (0, rd64 d 0)))"

text \<open>The buffer and the length of the string, or -1.\<close>

definition fetchstr :: "u64 \<Rightarrow> bytes \<Rightarrow> u64 \<Rightarrow> 'a sys_st_scheme \<Rightarrow> (int \<times> bytes) res" where
  "fetchstr addr buf mx s =
     bindr (myproc s) (\<lambda>p.
     bindr (copyinstr (p_pagetable (ptab s p)) buf addr mx s) (\<lambda>(r, buf).
     if r < 0 then Ok (-1, buf)
     else bindr (strlen buf) (\<lambda>n. Ok (int n, buf))))"

definition argraw :: "nat \<Rightarrow> 'a sys_st_scheme \<Rightarrow> u64 res" where
  "argraw n s =
     bindr (myproc s) (\<lambda>p.
     if n \<le> 5 then Ok (ld64 (mem s) (p_trapframe (ptab s p) + 112 + 8 * of_nat n)) else Panic ''argraw'')"

definition argint :: "nat \<Rightarrow> 'a sys_st_scheme \<Rightarrow> int res" where
  "argint n s = bindr (argraw n s) (\<lambda>v. Ok (sint (ucast v :: u32)))"

definition argaddr :: "nat \<Rightarrow> 'a sys_st_scheme \<Rightarrow> u64 res" where
  "argaddr n s = argraw n s"

definition argstr :: "nat \<Rightarrow> u64 \<Rightarrow> 'a sys_st_scheme \<Rightarrow> (int \<times> u8 list) res" where
  "argstr n mx s =
     bindr (argaddr n s) (\<lambda>addr.
     bindr (fetchstr addr (\<lambda>_. 0) mx s) (\<lambda>(r, buf). Ok (r, map buf [0..<nat r])))"

text \<open>The descriptor and its file, if the argument is an open descriptor.\<close>

definition argfd :: "nat \<Rightarrow> 'a sys_st_scheme \<Rightarrow> (nat \<times> nat) option res" where
  "argfd n s =
     bindr (argint n s) (\<lambda>fd.
     bindr (myproc s) (\<lambda>p.
     if fd < 0 \<or> fd \<ge> NOFILE then Ok None
     else case p_ofile (ptab s p) (nat fd) of None \<Rightarrow> Ok None | Some f \<Rightarrow> Ok (Some (nat fd, f))))"

fun fdalloc_loop :: "nat list \<Rightarrow> nat \<Rightarrow> nat \<Rightarrow> 'a sys_st_scheme \<Rightarrow> int \<times> 'a sys_st_scheme" where
  "fdalloc_loop [] p f s = (-1, s)"
| "fdalloc_loop (fd # fds) p f s =
     (if p_ofile (ptab s p) fd = None
      then (int fd, upd_proc p (p_ofile_update (\<lambda>o'. o'(fd := Some f))) s)
      else fdalloc_loop fds p f s)"

definition fdalloc :: "nat \<Rightarrow> 'a sys_st_scheme \<Rightarrow> (int \<times> 'a sys_st_scheme) res" where
  "fdalloc f s = bindr (myproc s) (\<lambda>p. Ok (fdalloc_loop [0..<NOFILE] p f s))"

section \<open>Files and descriptors\<close>

definition sys_dup :: "'a sys_st_scheme \<Rightarrow> (int \<times> 'a sys_st_scheme) res" where
  "sys_dup s =
     bindr (argfd 0 s) (\<lambda>x.
     case x of
       None \<Rightarrow> Ok (-1, s)
     | Some (_, f) \<Rightarrow>
         bindr (fdalloc f s) (\<lambda>(fd, s).
         if fd < 0 then Ok (-1, s) else bindr (filedup f s) (\<lambda>s. Ok (fd, s))))"

definition sys_read :: "('a sys_st_scheme \<Rightarrow> 'a sys_st_scheme res) \<Rightarrow> 'a sys_st_scheme \<Rightarrow> (int \<times> 'a sys_st_scheme) res" where
  "sys_read others s =
     bindr (argaddr 1 s) (\<lambda>p.
     bindr (argint 2 s) (\<lambda>n.
     bindr (argfd 0 s) (\<lambda>x.
     case x of None \<Rightarrow> Ok (-1, s) | Some (_, f) \<Rightarrow> fileread others f p n s)))"

definition sys_write :: "('a sys_st_scheme \<Rightarrow> 'a sys_st_scheme res) \<Rightarrow> 'a sys_st_scheme \<Rightarrow> (int \<times> 'a sys_st_scheme) res" where
  "sys_write others s =
     bindr (argaddr 1 s) (\<lambda>p.
     bindr (argint 2 s) (\<lambda>n.
     bindr (argfd 0 s) (\<lambda>x.
     case x of None \<Rightarrow> Ok (-1, s) | Some (_, f) \<Rightarrow> filewrite others f p n s)))"

definition sys_close :: "'a sys_st_scheme \<Rightarrow> (int \<times> 'a sys_st_scheme) res" where
  "sys_close s =
     bindr (argfd 0 s) (\<lambda>x.
     case x of
       None \<Rightarrow> Ok (-1, s)
     | Some (fd, f) \<Rightarrow>
         bindr (myproc s) (\<lambda>p.
         bindr (fileclose f (upd_proc p (p_ofile_update (\<lambda>o'. o'(fd := None))) s)) (\<lambda>s. Ok (0, s))))"

definition sys_fstat :: "'a sys_st_scheme \<Rightarrow> (int \<times> 'a sys_st_scheme) res" where
  "sys_fstat s =
     bindr (argaddr 1 s) (\<lambda>st.
     bindr (argfd 0 s) (\<lambda>x.
     case x of None \<Rightarrow> Ok (-1, s) | Some (_, f) \<Rightarrow> filestat f st s))"

section \<open>Links and names\<close>

definition with_end_op :: "int \<Rightarrow> 'a sys_st_scheme \<Rightarrow> (int \<times> 'a sys_st_scheme) res" where
  "with_end_op r s = bindr (end_op s) (\<lambda>s. Ok (r, s))"

text \<open>The exit of \<open>sys_link\<close> at the label \<^verbatim>\<open>bad\<close>.\<close>

definition link_bad :: "nat \<Rightarrow> 'a sys_st_scheme \<Rightarrow> (int \<times> 'a sys_st_scheme) res" where
  "link_bad ip s =
     bindr (ilock (Some ip) s) (\<lambda>s.
     bindr (iupdate ip (upd_inode ip (i_nlink_update (\<lambda>n. n - 1)) s)) (\<lambda>s.
     bindr (iunlockput ip s) (with_end_op (-1))))"

definition sys_link :: "'a sys_st_scheme \<Rightarrow> (int \<times> 'a sys_st_scheme) res" where
  "sys_link s =
     bindr (argstr 0 MAXPATH s) (\<lambda>(r, old).
     if r < 0 then Ok (-1, s)
     else bindr (argstr 1 MAXPATH s) (\<lambda>(r, new).
     if r < 0 then Ok (-1, s)
     else
       bindr (begin_op s) (\<lambda>s.
       bindr (namei old s) (\<lambda>(x, s).
       case x of
         None \<Rightarrow> with_end_op (-1) s
       | Some ip \<Rightarrow>
           bindr (ilock (Some ip) s) (\<lambda>s.
           if i_type (itable s ip) = T_DIR then bindr (iunlockput ip s) (with_end_op (-1))
           else
             bindr (iupdate ip (upd_inode ip (i_nlink_update (\<lambda>n. n + 1)) s)) (\<lambda>s.
             bindr (iunlock (Some ip) s) (\<lambda>s.
             bindr (nameiparent new (\<lambda>_. 0) s) (\<lambda>(y, name, s).
             case y of
               None \<Rightarrow> link_bad ip s
             | Some dp \<Rightarrow>
                 bindr (ilock (Some dp) s) (\<lambda>s.
                 bindr (if i_dev (itable s dp) \<noteq> i_dev (itable s ip) then Ok (-1, s)
                        else dirlink dp name (i_inum (itable s ip)) s) (\<lambda>(r, s).
                 if r < 0 then bindr (iunlockput dp s) (link_bad ip)
                 else
                   bindr (iunlockput dp s) (\<lambda>s.
                   bindr (iput ip s) (with_end_op 0))))))))))))"

definition isdirempty :: "nat \<Rightarrow> 'a sys_st_scheme \<Rightarrow> (bool \<times> 'a sys_st_scheme) res" where
  "isdirempty dp s =
     loopr (\<lambda>(off, de, s).
       if off < i_size (itable s dp) then
         bindr (readi dp Local de off 16 s) (\<lambda>(r, de, s).
         if r \<noteq> 16 then Panic ''isdirempty: readi''
         else if rd16 de 0 \<noteq> 0 then Ok (Inr (False, s))
         else Ok (Inl (off + 16, de, s)))
       else Ok (Inr (True, s))) (32, \<lambda>_. 0, s)"

text \<open>The names \<^verbatim>\<open>.\<close> and \<^verbatim>\<open>..\<close> as byte arrays.\<close>

definition dot :: bytes where "dot = (\<lambda>i. if i = 0 then 46 else 0)"
definition dotdot :: bytes where "dotdot = (\<lambda>i. if i < 2 then 46 else 0)"

definition sys_unlink :: "'a sys_st_scheme \<Rightarrow> (int \<times> 'a sys_st_scheme) res" where
  "sys_unlink s =
     bindr (argstr 0 MAXPATH s) (\<lambda>(r, path).
     if r < 0 then Ok (-1, s)
     else
       bindr (begin_op s) (\<lambda>s.
       bindr (nameiparent path (\<lambda>_. 0) s) (\<lambda>(x, name, s).
       case x of
         None \<Rightarrow> with_end_op (-1) s
       | Some dp \<Rightarrow>
           let bad = (\<lambda>s. bindr (iunlockput dp s) (with_end_op (-1))) in
           bindr (ilock (Some dp) s) (\<lambda>s.
           if namecmp name dot = 0 \<or> namecmp name dotdot = 0 then bad s
           else
             bindr (dirlookup dp name s) (\<lambda>(y, s).
             case y of
               None \<Rightarrow> bad s
             | Some (ip, off) \<Rightarrow>
                 bindr (ilock (Some ip) s) (\<lambda>s.
                 if sint (i_nlink (itable s ip)) < 1 then Panic ''unlink: nlink < 1''
                 else
                   bindr (if i_type (itable s ip) = T_DIR then isdirempty ip s else Ok (True, s)) (\<lambda>(e, s).
                   if \<not> e then bindr (iunlockput ip s) bad
                   else
                     bindr (writei dp Local (\<lambda>_. 0) off 16 s) (\<lambda>(r, s).
                     if r \<noteq> 16 then Panic ''unlink: writei''
                     else
                       bindr (if i_type (itable s ip) = T_DIR
                              then iupdate dp (upd_inode dp (i_nlink_update (\<lambda>n. n - 1)) s) else Ok s) (\<lambda>s.
                       bindr (iunlockput dp s) (\<lambda>s.
                       bindr (iupdate ip (upd_inode ip (i_nlink_update (\<lambda>n. n - 1)) s)) (\<lambda>s.
                       bindr (iunlockput ip s) (with_end_op 0))))))))))))"

text \<open>The exit of \<open>create\<close> at the label \<^verbatim>\<open>fail\<close>.\<close>

definition create_fail :: "nat \<Rightarrow> nat \<Rightarrow> 'a sys_st_scheme \<Rightarrow> (nat option \<times> 'a sys_st_scheme) res" where
  "create_fail ip dp s =
     bindr (iupdate ip (upd_inode ip (i_nlink_update (\<lambda>_. 0)) s)) (\<lambda>s.
     bindr (iunlockput ip s) (\<lambda>s.
     bindr (iunlockput dp s) (\<lambda>s. Ok (None, s))))"

definition create :: "u8 list \<Rightarrow> u16 \<Rightarrow> u16 \<Rightarrow> u16 \<Rightarrow> 'a sys_st_scheme \<Rightarrow> (nat option \<times> 'a sys_st_scheme) res" where
  "create path ty major minor s =
     bindr (nameiparent path (\<lambda>_. 0) s) (\<lambda>(x, name, s).
     case x of
       None \<Rightarrow> Ok (None, s)
     | Some dp \<Rightarrow>
         bindr (ilock (Some dp) s) (\<lambda>s.
         bindr (dirlookup dp name s) (\<lambda>(y, s).
         case y of
           Some (ip, _) \<Rightarrow>
             bindr (iunlockput dp s) (\<lambda>s.
             bindr (ilock (Some ip) s) (\<lambda>s.
             if ty = T_FILE \<and> (i_type (itable s ip) = T_FILE \<or> i_type (itable s ip) = T_DEVICE) then Ok (Some ip, s)
             else bindr (iunlockput ip s) (\<lambda>s. Ok (None, s))))
         | None \<Rightarrow>
             bindr (ialloc (i_dev (itable s dp)) ty s) (\<lambda>(z, s).
             case z of
               None \<Rightarrow> bindr (iunlockput dp s) (\<lambda>s. Ok (None, s))
             | Some ip \<Rightarrow>
                 bindr (ilock (Some ip) s) (\<lambda>s.
                 bindr (iupdate ip (upd_inode ip (\<lambda>i. i\<lparr>i_major := major, i_minor := minor, i_nlink := 1\<rparr>) s)) (\<lambda>s.
                 bindr (if ty = T_DIR then
                          bindr (dirlink ip dot (i_inum (itable s ip)) s) (\<lambda>(r, s).
                          if r < 0 then Ok (r, s) else dirlink ip dotdot (i_inum (itable s dp)) s)
                        else Ok (0, s)) (\<lambda>(r, s).
                 if r < 0 then create_fail ip dp s
                 else
                   bindr (dirlink dp name (i_inum (itable s ip)) s) (\<lambda>(r, s).
                   if r < 0 then create_fail ip dp s
                   else
                     bindr (if ty = T_DIR then iupdate dp (upd_inode dp (i_nlink_update (\<lambda>n. n + 1)) s) else Ok s) (\<lambda>s.
                     bindr (iunlockput dp s) (\<lambda>s. Ok (Some ip, s)))))))))))"

text \<open>The part of \<open>sys_open\<close> after the inode is found and locked.\<close>

definition open_inode :: "nat \<Rightarrow> u32 \<Rightarrow> 'a sys_st_scheme \<Rightarrow> (int \<times> 'a sys_st_scheme) res" where
  "open_inode ip omode s =
     (if i_type (itable s ip) = T_DEVICE \<and> (sint (i_major (itable s ip)) < 0 \<or> sint (i_major (itable s ip)) \<ge> NDEV)
      then bindr (iunlockput ip s) (with_end_op (-1))
      else
        bindr (filealloc s) (\<lambda>(x, s).
        case x of
          None \<Rightarrow> bindr (iunlockput ip s) (with_end_op (-1))
        | Some f \<Rightarrow>
            bindr (fdalloc f s) (\<lambda>(fd, s).
            if fd < 0 then bindr (fileclose f s) (\<lambda>s. bindr (iunlockput ip s) (with_end_op (-1)))
            else
              let s = (if i_type (itable s ip) = T_DEVICE
                       then upd_file f (\<lambda>x. x\<lparr>f_type := FD_DEVICE, f_major := i_major (itable s ip)\<rparr>) s
                       else upd_file f (\<lambda>x. x\<lparr>f_type := FD_INODE, f_off := 0\<rparr>) s);
                  s = upd_file f (\<lambda>x. x\<lparr>f_ip := Some ip, f_readable := (omode AND 1 = 0),
                                         f_writable := (omode AND 1 \<noteq> 0 \<or> omode AND 2 \<noteq> 0)\<rparr>) s in
              bindr (if omode AND 0x400 \<noteq> 0 \<and> i_type (itable s ip) = T_FILE then itrunc ip s else Ok s) (\<lambda>s.
              bindr (iunlock (Some ip) s) (with_end_op fd)))))"

definition sys_open :: "'a sys_st_scheme \<Rightarrow> (int \<times> 'a sys_st_scheme) res" where
  "sys_open s =
     bindr (argint 1 s) (\<lambda>om.
     let omode = word_of_int om in
     bindr (argstr 0 MAXPATH s) (\<lambda>(n, path).
     if n < 0 then Ok (-1, s)
     else
       bindr (begin_op s) (\<lambda>s.
       if omode AND 0x200 \<noteq> 0 then
         bindr (create path T_FILE 0 0 s) (\<lambda>(x, s).
         case x of None \<Rightarrow> with_end_op (-1) s | Some ip \<Rightarrow> open_inode ip omode s)
       else
         bindr (namei path s) (\<lambda>(x, s).
         case x of
           None \<Rightarrow> with_end_op (-1) s
         | Some ip \<Rightarrow>
             bindr (ilock (Some ip) s) (\<lambda>s.
             if i_type (itable s ip) = T_DIR \<and> omode \<noteq> 0 then bindr (iunlockput ip s) (with_end_op (-1))
             else open_inode ip omode s)))))"

definition sys_mkdir :: "'a sys_st_scheme \<Rightarrow> (int \<times> 'a sys_st_scheme) res" where
  "sys_mkdir s =
     bindr (begin_op s) (\<lambda>s.
     bindr (argstr 0 MAXPATH s) (\<lambda>(r, path).
     bindr (if r < 0 then Ok (None, s) else create path T_DIR 0 0 s) (\<lambda>(x, s).
     case x of None \<Rightarrow> with_end_op (-1) s | Some ip \<Rightarrow> bindr (iunlockput ip s) (with_end_op 0))))"

definition sys_mknod :: "'a sys_st_scheme \<Rightarrow> (int \<times> 'a sys_st_scheme) res" where
  "sys_mknod s =
     bindr (begin_op s) (\<lambda>s.
     bindr (argint 1 s) (\<lambda>major.
     bindr (argint 2 s) (\<lambda>minor.
     bindr (argstr 0 MAXPATH s) (\<lambda>(r, path).
     bindr (if r < 0 then Ok (None, s) else create path T_DEVICE (word_of_int major) (word_of_int minor) s) (\<lambda>(x, s).
     case x of None \<Rightarrow> with_end_op (-1) s | Some ip \<Rightarrow> bindr (iunlockput ip s) (with_end_op 0))))))"

definition sys_chdir :: "'a sys_st_scheme \<Rightarrow> (int \<times> 'a sys_st_scheme) res" where
  "sys_chdir s =
     bindr (myproc s) (\<lambda>p.
     bindr (begin_op s) (\<lambda>s.
     bindr (argstr 0 MAXPATH s) (\<lambda>(r, path).
     bindr (if r < 0 then Ok (None, s) else namei path s) (\<lambda>(x, s).
     case x of
       None \<Rightarrow> with_end_op (-1) s
     | Some ip \<Rightarrow>
         bindr (ilock (Some ip) s) (\<lambda>s.
         if i_type (itable s ip) \<noteq> T_DIR then bindr (iunlockput ip s) (with_end_op (-1))
         else
           bindr (iunlock (Some ip) s) (\<lambda>s.
           bindr (put_ip (p_cwd (ptab s p)) s) (\<lambda>s.
           bindr (end_op s) (\<lambda>s.
           Ok (0, upd_proc p (p_cwd_update (\<lambda>_. Some ip)) s)))))))))"

section \<open>exec and pipe\<close>

fun free_args :: "u64 list \<Rightarrow> 'a sys_st_scheme \<Rightarrow> 'a sys_st_scheme res" where
  "free_args [] s = Ok s"
| "free_args (a # as) s = bindr (kfree a s) (free_args as)"

text \<open>The loop of \<open>sys_exec\<close>: \<open>True\<close> when all arguments were fetched, and the pages so far.\<close>

definition fetch_args :: "u64 \<Rightarrow> 'a sys_st_scheme \<Rightarrow> (bool \<times> u64 list \<times> 'a sys_st_scheme) res" where
  "fetch_args uargv s =
     loopr (\<lambda>(argv, s).
       if length argv \<ge> MAXARG then Ok (Inr (False, argv, s))
       else
         bindr (fetchaddr (uargv + 8 * of_nat (length argv)) s) (\<lambda>(r, uarg).
         if r < 0 then Ok (Inr (False, argv, s))
         else if uarg = 0 then Ok (Inr (True, argv, s))
         else
           bindr (kalloc s) (\<lambda>(a, s).
           if a = 0 then Ok (Inr (False, argv, s))
           else
             bindr (fetchstr uarg (mem_read (mem s) a) PGSIZE s) (\<lambda>(r, d).
             let s = s\<lparr>mem := mem_write (mem s) a d PGSIZE\<rparr> in
             if r < 0 then Ok (Inr (False, argv @ [a], s)) else Ok (Inl (argv @ [a], s)))))) ([], s)"

definition sys_exec :: "'a sys_st_scheme \<Rightarrow> (int \<times> 'a sys_st_scheme) res" where
  "sys_exec s =
     bindr (argaddr 1 s) (\<lambda>uargv.
     bindr (argstr 0 MAXPATH s) (\<lambda>(r, path).
     if r < 0 then Ok (-1, s)
     else
       bindr (fetch_args uargv s) (\<lambda>(ok, argv, s).
       if ok then bindr (exec path argv s) (\<lambda>(ret, s). bindr (free_args argv s) (\<lambda>s. Ok (ret, s)))
       else bindr (free_args argv s) (\<lambda>s. Ok (-1, s)))))"

definition sys_pipe :: "'a sys_st_scheme \<Rightarrow> (int \<times> 'a sys_st_scheme) res" where
  "sys_pipe s =
     bindr (myproc s) (\<lambda>p.
     bindr (argaddr 0 s) (\<lambda>fdarray.
     bindr (pipealloc s) (\<lambda>(r, f0, f1, s).
     if r < 0 then Ok (-1, s)
     else
       let rf = the f0; wf = the f1;
           close2 = (\<lambda>s. bindr (fileclose rf s) (\<lambda>s. bindr (fileclose wf s) (\<lambda>s. Ok (-1, s))));
           clear = (\<lambda>fd s. upd_proc p (p_ofile_update (\<lambda>o'. o'(nat fd := None))) s) in
       bindr (fdalloc rf s) (\<lambda>(fd0, s).
       if fd0 < 0 then close2 s
       else
         bindr (fdalloc wf s) (\<lambda>(fd1, s).
         if fd1 < 0 then close2 (clear fd0 s)
         else
           bindr (copyout (p_pagetable (ptab s p)) fdarray (wr32 (\<lambda>_. 0) 0 (word_of_int fd0)) 4 s) (\<lambda>(r, s).
           bindr (if r < 0 then Ok (r, s)
                  else copyout (p_pagetable (ptab s p)) (fdarray + 4) (wr32 (\<lambda>_. 0) 0 (word_of_int fd1)) 4 s) (\<lambda>(r, s).
           if r < 0 then close2 (clear fd1 (clear fd0 s)) else Ok (0, s))))))))"

section \<open>Swap calls\<close>

definition sys_swapread :: "'a sys_st_scheme \<Rightarrow> (int \<times> 'a sys_st_scheme) res" where
  "sys_swapread s =
     bindr (argaddr 0 s) (\<lambda>ptr.
     bindr (argint 1 s) (\<lambda>blkno.
     bindr (swapread ptr blkno s) (\<lambda>s. Ok (0, s))))"

definition sys_swapwrite :: "'a sys_st_scheme \<Rightarrow> (int \<times> 'a sys_st_scheme) res" where
  "sys_swapwrite s =
     bindr (argaddr 0 s) (\<lambda>ptr.
     bindr (argint 1 s) (\<lambda>blkno.
     bindr (swapwrite ptr blkno s) (\<lambda>s. Ok (0, s))))"

definition sys_swapstat :: "'a sys_st_scheme \<Rightarrow> (int \<times> 'a sys_st_scheme) res" where
  "sys_swapstat s =
     bindr (myproc s) (\<lambda>p.
     bindr (argaddr 0 s) (\<lambda>rptr.
     bindr (argaddr 1 s) (\<lambda>wptr.
     bindr (copyout (p_pagetable (ptab s p)) rptr (wr32 (\<lambda>_. 0) 0 (nr_sectors_read s)) 4 s) (\<lambda>(r, s).
     if r < 0 then Ok (-1, s)
     else
       bindr (copyout (p_pagetable (ptab s p)) wptr (wr32 (\<lambda>_. 0) 0 (nr_sectors_write s)) 4 s) (\<lambda>(r, s).
       if r < 0 then Ok (-1, s) else Ok (0, s))))))"

section \<open>Process calls\<close>

definition sys_exit :: "('a sys_st_scheme \<Rightarrow> 'a sys_st_scheme res) \<Rightarrow> 'a sys_st_scheme \<Rightarrow> (int \<times> 'a sys_st_scheme) res" where
  "sys_exit others s = bindr (argint 0 s) (\<lambda>n. bindr (exit others n s) (\<lambda>s. Ok (0, s)))"

definition sys_getpid :: "'a sys_st_scheme \<Rightarrow> (int \<times> 'a sys_st_scheme) res" where
  "sys_getpid s = bindr (myproc s) (\<lambda>p. Ok (p_pid (ptab s p), s))"

definition sys_fork :: "'a sys_st_scheme \<Rightarrow> (int \<times> 'a sys_st_scheme) res" where
  "sys_fork s = fork s"

definition sys_wait :: "('a sys_st_scheme \<Rightarrow> 'a sys_st_scheme res) \<Rightarrow> 'a sys_st_scheme \<Rightarrow> (int \<times> 'a sys_st_scheme) res" where
  "sys_wait others s = bindr (argaddr 0 s) (\<lambda>p. wait others p s)"

definition sys_sbrk :: "'a sys_st_scheme \<Rightarrow> (int \<times> 'a sys_st_scheme) res" where
  "sys_sbrk s =
     bindr (argint 0 s) (\<lambda>n.
     bindr (myproc s) (\<lambda>p.
     let addr = p_sz (ptab s p) in
     bindr (growproc n s) (\<lambda>(r, s). if r < 0 then Ok (-1, s) else Ok (uint addr, s))))"

definition sys_sleep :: "('a sys_st_scheme \<Rightarrow> 'a sys_st_scheme res) \<Rightarrow> 'a sys_st_scheme \<Rightarrow> (int \<times> 'a sys_st_scheme) res" where
  "sys_sleep others s =
     bindr (argint 0 s) (\<lambda>n.
     let n = (if n < 0 then 0 else n) in
     bindr (acquire Ticks_lock s) (\<lambda>s.
     let ticks0 = ticks s in
     loopr (\<lambda>s.
       if ticks s - ticks0 < word_of_int n then
         bindr (myproc s) (\<lambda>p.
         bindr (killed p s) (\<lambda>(k, s).
         if k \<noteq> 0 then bindr (release Ticks_lock s) (\<lambda>s. Ok (Inr (-1, s)))
         else bindr (sleep others Chan_ticks Ticks_lock s) (\<lambda>s. Ok (Inl s))))
       else bindr (release Ticks_lock s) (\<lambda>s. Ok (Inr (0, s)))) s))"

definition sys_kill :: "'a sys_st_scheme \<Rightarrow> (int \<times> 'a sys_st_scheme) res" where
  "sys_kill s = bindr (argint 0 s) (\<lambda>pid. kill pid s)"

definition sys_uptime :: "'a sys_st_scheme \<Rightarrow> (int \<times> 'a sys_st_scheme) res" where
  "sys_uptime s =
     bindr (acquire Ticks_lock s) (\<lambda>s.
     let x = ticks s in
     bindr (release Ticks_lock s) (\<lambda>s. Ok (uint x, s)))"

section \<open>Dispatch\<close>

text \<open>The table \<^verbatim>\<open>syscalls[]\<close>.\<close>

definition syscalls :: "('a sys_st_scheme \<Rightarrow> 'a sys_st_scheme res) \<Rightarrow> int \<Rightarrow>
    ('a sys_st_scheme \<Rightarrow> (int \<times> 'a sys_st_scheme) res) option" where
  "syscalls others num =
     map_of [(1, sys_fork), (2, sys_exit others), (3, sys_wait others), (4, sys_pipe), (5, sys_read others),
             (6, sys_kill), (7, sys_exec), (8, sys_fstat), (9, sys_chdir), (10, sys_dup), (11, sys_getpid),
             (12, sys_sbrk), (13, sys_sleep others), (14, sys_uptime), (15, sys_open), (16, sys_write others),
             (17, sys_mknod), (18, sys_unlink), (19, sys_link), (20, sys_mkdir), (21, sys_close),
             (22, sys_swapread), (23, sys_swapwrite), (24, sys_swapstat)] num"

definition syscall :: "('a sys_st_scheme \<Rightarrow> 'a sys_st_scheme res) \<Rightarrow> 'a sys_st_scheme \<Rightarrow> 'a sys_st_scheme res" where
  "syscall others s =
     bindr (myproc s) (\<lambda>p.
     let num = sint (ucast (ld64 (mem s) (p_trapframe (ptab s p) + TF_A7)) :: u32) in
     case syscalls others num of
       Some f \<Rightarrow> bindr (f s) (\<lambda>(r, s). Ok (set_tf p TF_A0 (word_of_int r) s))
     | None \<Rightarrow> Ok (set_tf p TF_A0 (- 1) s))"

end
