(* ===== verification/Virtio.thy ===== *)
theory Virtio
  imports Sysfile
begin

text \<open>
  The descriptors and rings of the virtio disk driver (\<^verbatim>\<open>kernel/virtio_disk.c\<close>). The descriptor table, the
  available and the used ring are shared with the device; an address in a descriptor names the object it
  points to. \<^verbatim>\<open>Bio.virtio_disk_rw\<close> is the completed effect of a request.
\<close>

section \<open>State\<close>

abbreviation (input) VIRTIO_NUM :: "'a::numeral" where "VIRTIO_NUM \<equiv> 8"
abbreviation (input) VRING_DESC_F_NEXT :: u16 where "VRING_DESC_F_NEXT \<equiv> 1"
abbreviation (input) VRING_DESC_F_WRITE :: u16 where "VRING_DESC_F_WRITE \<equiv> 2"
abbreviation (input) VIRTIO_BLK_T_IN :: u32 where "VIRTIO_BLK_T_IN \<equiv> 0"
abbreviation (input) VIRTIO_BLK_T_OUT :: u32 where "VIRTIO_BLK_T_OUT \<equiv> 1"

datatype vaddr = VNull | VOp nat | VData nat | VStatus nat

record virtq_desc =
  vd_addr :: vaddr
  vd_len :: u32
  vd_flags :: u16
  vd_next :: u16

record virtq_avail =
  avail_idx :: u16
  avail_ring :: "nat \<Rightarrow> u16"

record virtq_used =
  used_dev_idx :: u16
  used_ring :: "nat \<Rightarrow> u32"

record virtio_blk_req =
  rq_type :: u32
  rq_reserved :: u32
  rq_sector :: u64

record vdisk =
  vdesc :: "nat \<Rightarrow> virtq_desc"
  vavail :: virtq_avail
  vused :: virtq_used
  vfree :: "nat \<Rightarrow> bool"
  used_idx :: u16
  info_b :: "nat \<Rightarrow> nat option"
  info_status :: "nat \<Rightarrow> u8"
  vops :: "nat \<Rightarrow> virtio_blk_req"

record virtio_st = sys_st +
  vdisk :: vdisk

definition upd_vd :: "(vdisk \<Rightarrow> vdisk) \<Rightarrow> 'a virtio_st_scheme \<Rightarrow> 'a virtio_st_scheme" where
  "upd_vd f s = s\<lparr>vdisk := f (vdisk s)\<rparr>"

section \<open>Descriptors\<close>

definition alloc_desc :: "'a virtio_st_scheme \<Rightarrow> int \<times> 'a virtio_st_scheme" where
  "alloc_desc s =
     (case find (vfree (vdisk s)) [0..<VIRTIO_NUM] of
        Some i \<Rightarrow> (int i, upd_vd (vfree_update (\<lambda>f. f(i := False))) s)
      | None \<Rightarrow> (-1, s))"

definition free_desc :: "nat \<Rightarrow> 'a virtio_st_scheme \<Rightarrow> 'a virtio_st_scheme res" where
  "free_desc i s =
     (if i \<ge> VIRTIO_NUM then Panic ''free_desc 1''
      else if vfree (vdisk s) i then Panic ''free_desc 2''
      else
        let s = upd_vd (vdesc_update (\<lambda>d. d(i := \<lparr>vd_addr = VNull, vd_len = 0, vd_flags = 0, vd_next = 0\<rparr>))) s;
            s = upd_vd (vfree_update (\<lambda>f. f(i := True))) s in
        wakeup Chan_disk s)"

definition free_chain :: "nat \<Rightarrow> 'a virtio_st_scheme \<Rightarrow> 'a virtio_st_scheme res" where
  "free_chain i s =
     loopr (\<lambda>(i, s).
       let flag = vd_flags (vdesc (vdisk s) i); nxt = vd_next (vdesc (vdisk s) i) in
       bindr (free_desc i s) (\<lambda>s.
       if flag AND VRING_DESC_F_NEXT \<noteq> 0 then Ok (Inl (unat nxt, s)) else Ok (Inr s))) (i, s)"

fun free_descs :: "nat list \<Rightarrow> 'a virtio_st_scheme \<Rightarrow> 'a virtio_st_scheme res" where
  "free_descs [] s = Ok s"
| "free_descs (i # is) s = bindr (free_desc i s) (free_descs is)"

fun alloc3_loop :: "nat \<Rightarrow> nat list \<Rightarrow> 'a virtio_st_scheme \<Rightarrow> (nat list option \<times> 'a virtio_st_scheme) res" where
  "alloc3_loop 0 idx s = Ok (Some idx, s)"
| "alloc3_loop (Suc k) idx s =
     (let (i, s) = alloc_desc s in
      if i < 0 then bindr (free_descs idx s) (\<lambda>s. Ok (None, s)) else alloc3_loop k (idx @ [nat i]) s)"

text \<open>The three indices, or \<open>None\<close> for \<^verbatim>\<open>-1\<close>.\<close>

definition alloc3_desc :: "'a virtio_st_scheme \<Rightarrow> (nat list option \<times> 'a virtio_st_scheme) res" where
  "alloc3_desc s = alloc3_loop 3 [] s"

section \<open>Requests\<close>

text \<open>
  Formatting the three descriptors and making the chain available. The sector is computed in 32 bits.
\<close>

definition vd_submit :: "nat \<Rightarrow> bool \<Rightarrow> nat \<Rightarrow> nat \<Rightarrow> nat \<Rightarrow> 'a virtio_st_scheme \<Rightarrow> 'a virtio_st_scheme" where
  "vd_submit b write i0 i1 i2 s =
     (let sector = ucast (b_blockno (bufs s b) * 2);
          s = upd_vd (vops_update (\<lambda>r. r(i0 := \<lparr>rq_type = (if write then VIRTIO_BLK_T_OUT else VIRTIO_BLK_T_IN),
                                               rq_reserved = 0, rq_sector = sector\<rparr>))) s;
          s = upd_vd (vdesc_update (\<lambda>d. d(i0 := \<lparr>vd_addr = VOp i0, vd_len = 16, vd_flags = VRING_DESC_F_NEXT,
                                                vd_next = of_nat i1\<rparr>))) s;
          s = upd_vd (vdesc_update (\<lambda>d. d(i1 := \<lparr>vd_addr = VData b, vd_len = BSIZE,
                        vd_flags = (if write then 0 else VRING_DESC_F_WRITE) OR VRING_DESC_F_NEXT,
                        vd_next = of_nat i2\<rparr>))) s;
          s = upd_vd (info_status_update (\<lambda>st. st(i0 := 0xff))) s;
          s = upd_vd (vdesc_update (\<lambda>d. d(i2 := \<lparr>vd_addr = VStatus i0, vd_len = 1, vd_flags = VRING_DESC_F_WRITE,
                                                vd_next = 0\<rparr>))) s;
          s = upd_buf b (b_disk_update (\<lambda>_. True)) s;
          s = upd_vd (info_b_update (\<lambda>i. i(i0 := Some b))) s;
          s = upd_vd (vavail_update (\<lambda>a. a\<lparr>avail_ring := (avail_ring a)(unat (avail_idx a) mod VIRTIO_NUM := of_nat i0)\<rparr>)) s in
      upd_vd (vavail_update (\<lambda>a. a\<lparr>avail_idx := avail_idx a + 1\<rparr>)) s)"

text \<open>\<^verbatim>\<open>virtio_disk_rw\<close> with its two waits; \<open>others\<close> runs while the thread sleeps.\<close>

definition vd_rw :: "('a virtio_st_scheme \<Rightarrow> 'a virtio_st_scheme res) \<Rightarrow> nat \<Rightarrow> bool \<Rightarrow> 'a virtio_st_scheme \<Rightarrow> 'a virtio_st_scheme res" where
  "vd_rw others b write s =
     bindr (acquire Vdisk_lock s) (\<lambda>s.
     bindr (loopr (\<lambda>s.
       bindr (alloc3_desc s) (\<lambda>(r, s).
       case r of Some idx \<Rightarrow> Ok (Inr (idx, s)) | None \<Rightarrow> bindr (sleep others Chan_disk Vdisk_lock s) (\<lambda>s. Ok (Inl s)))) s) (\<lambda>(idx, s).
     let s = vd_submit b write (idx ! 0) (idx ! 1) (idx ! 2) s in
     bindr (loopr (\<lambda>s.
       if b_disk (bufs s b) then bindr (sleep others (Chan_buf b) Vdisk_lock s) (\<lambda>s. Ok (Inl s)) else Ok (Inr s)) s) (\<lambda>s.
     let s = upd_vd (info_b_update (\<lambda>i. i(idx ! 0 := None))) s in
     bindr (free_chain (idx ! 0) s) (\<lambda>s.
     release Vdisk_lock s))))"

text \<open>A used entry without a buffer is a null pointer for the handler: the kernel faults.\<close>

definition virtio_disk_intr :: "'a virtio_st_scheme \<Rightarrow> 'a virtio_st_scheme res" where
  "virtio_disk_intr s =
     bindr (acquire Vdisk_lock s) (\<lambda>s.
     bindr (loopr (\<lambda>s.
       if used_idx (vdisk s) = used_dev_idx (vused (vdisk s)) then Ok (Inr s)
       else
         let ident = unat (used_ring (vused (vdisk s)) (unat (used_idx (vdisk s)) mod VIRTIO_NUM)) in
         if info_status (vdisk s) ident \<noteq> 0 then Panic ''virtio_disk_intr status''
         else case info_b (vdisk s) ident of
           None \<Rightarrow> Panic ''kerneltrap''
         | Some b \<Rightarrow>
             let s = upd_buf b (b_disk_update (\<lambda>_. False)) s in
             bindr (wakeup (Chan_buf b) s) (\<lambda>s.
             Ok (Inl (upd_vd (used_idx_update (\<lambda>u. u + 1)) s)))) s) (\<lambda>s.
     release Vdisk_lock s))"

section \<open>No descriptor is lost\<close>

abbreviation (input) vdfree :: "'a virtio_st_scheme \<Rightarrow> nat \<Rightarrow> bool" where
  "vdfree s \<equiv> vfree (vdisk s)"

lemma upd_vd_sched [simp]:
  "held (upd_vd f s) = held s" "cur (upd_vd f s) = cur s" "ptab (upd_vd f s) = ptab s" "vdisk (upd_vd f s) = f (vdisk s)"
  "no_proc_lock (upd_vd f s) = no_proc_lock s" "bufs (upd_vd f s) = bufs s"
  by (simp_all add: upd_vd_def no_proc_lock_def)

text \<open>The operations on descriptors change only the driver's structures and, by \<^verbatim>\<open>wakeup\<close>, the process table.\<close>

definition vd_only :: "'a virtio_st_scheme \<Rightarrow> 'a virtio_st_scheme \<Rightarrow> bool" where
  "vd_only s t \<longleftrightarrow> (\<exists>d f pt. t = s\<lparr>vdisk := (vdisk s)\<lparr>vdesc := d, vfree := f\<rparr>, ptab := pt\<rparr>)"

lemma vd_only_trans: "vd_only s t \<Longrightarrow> vd_only t u \<Longrightarrow> vd_only s u"
  unfolding vd_only_def by (elim exE, intro exI) simp

lemma alloc_desc_Some:
  assumes "alloc_desc s = (i, t)" "\<not> i < 0"
  shows "nat i < VIRTIO_NUM \<and> vdfree s (nat i) \<and> t = upd_vd (vfree_update (\<lambda>f. f(nat i := False))) s"
  using assms
  by (auto simp: alloc_desc_def find_Some_iff simp del: upt_rec_numeral split: option.splits)

lemma alloc_desc_None: "alloc_desc s = (i, t) \<Longrightarrow> i < 0 \<Longrightarrow> t = s \<and> (\<forall>i < VIRTIO_NUM. \<not> vdfree s i)"
  by (auto simp: alloc_desc_def find_None_iff simp del: upt_rec_numeral split: option.splits)

lemma free_desc_spec:
  assumes "i < VIRTIO_NUM" "\<not> vdfree s i" "no_proc_lock s"
  shows "\<exists>t. free_desc i s = Ok t \<and> vfree (vdisk t) = (vdfree s)(i := True) \<and> no_proc_lock t \<and> held t = held s \<and>
    (\<forall>j. j \<noteq> i \<longrightarrow> vdesc (vdisk t) j = vdesc (vdisk s) j) \<and> vd_only s t"
proof -
  let ?v = "vdisk s"
  define u where "u = s\<lparr>vdisk := ?v\<lparr>vdesc := (vdesc ?v)(i := \<lparr>vd_addr = VNull, vd_len = 0, vd_flags = 0, vd_next = 0\<rparr>), vfree := (vdfree s)(i := True)\<rparr>\<rparr>"
  have "upd_vd (vfree_update (\<lambda>f. f(i := True)))
      (upd_vd (vdesc_update (\<lambda>d. d(i := \<lparr>vd_addr = VNull, vd_len = 0, vd_flags = 0, vd_next = 0\<rparr>))) s) = u"
    by (simp add: u_def upd_vd_def)
  moreover have n: "no_proc_lock u" using assms(3) by (simp add: u_def no_proc_lock_def)
  ultimately have "free_desc i s = Ok (u\<lparr>ptab := woken Chan_disk {..<NPROC} u\<rparr>)"
    using assms by (simp add: free_desc_def Let_def wakeup_spec)
  moreover have "vd_only s (u\<lparr>ptab := pt\<rparr>)" for pt unfolding vd_only_def u_def by (intro exI) (rule refl)
  ultimately show ?thesis using n by (simp add: u_def no_proc_lock_def)
qed

lemma free_descs_spec:
  "distinct is \<Longrightarrow> \<forall>i \<in> set is. i < VIRTIO_NUM \<and> \<not> vdfree s i \<Longrightarrow> no_proc_lock s \<Longrightarrow>
   \<exists>t. free_descs is s = Ok t \<and> vfree (vdisk t) = (\<lambda>i. i \<in> set is \<or> vdfree s i) \<and> no_proc_lock t \<and> held t = held s"
proof (induction "is" arbitrary: s)
  case (Cons i "is")
  obtain t where t: "free_desc i s = Ok t" "vfree (vdisk t) = (vdfree s)(i := True)" "no_proc_lock t" "held t = held s"
    using free_desc_spec [of i s] Cons.prems by auto
  have "\<forall>j \<in> set is. j < VIRTIO_NUM \<and> \<not> vdfree t j" using Cons.prems t(2) by auto
  with Cons.IH [of t] Cons.prems t show ?case by (auto simp: fun_eq_iff)
qed simp

text \<open>Descriptors taken so far are given back when there are not three.\<close>

lemma alloc3_loop_spec:
  "no_proc_lock s \<Longrightarrow> distinct idx \<Longrightarrow> \<forall>i \<in> set idx. i < VIRTIO_NUM \<and> \<not> vdfree s i \<Longrightarrow>
   \<exists>r t. alloc3_loop k idx s = Ok (r, t) \<and> no_proc_lock t \<and> held t = held s \<and>
    (case r of None \<Rightarrow> vfree (vdisk t) = (\<lambda>i. i \<in> set idx \<or> vdfree s i)
     | Some js \<Rightarrow> \<exists>is. js = idx @ is \<and> length is = k \<and> distinct js \<and> (\<forall>i \<in> set is. i < VIRTIO_NUM \<and> vdfree s i) \<and>
         vfree (vdisk t) = (\<lambda>i. i \<notin> set is \<and> vdfree s i) \<and> t = upd_vd (vfree_update (\<lambda>_. vfree (vdisk t))) s)"
proof (induction k arbitrary: idx s)
  case 0
  then show ?case by (simp add: upd_vd_def)
next
  case (Suc k)
  obtain i u where i: "alloc_desc s = (i, u)" by (cases "alloc_desc s")
  show ?case
  proof (cases "i < 0")
    case True
    then have "u = s" using alloc_desc_None [OF i] by simp
    moreover obtain t where "free_descs idx s = Ok t" "vfree (vdisk t) = (\<lambda>i. i \<in> set idx \<or> vdfree s i)" "no_proc_lock t" "held t = held s"
      using free_descs_spec [OF Suc.prems(2,3,1)] by blast
    ultimately show ?thesis using i True by simp
  next
    case False
    note a = alloc_desc_Some [OF i False]
    have "i \<ge> 0" using False by simp
    then have ni: "nat i \<notin> set idx" using Suc.prems(3) a by auto
    have hu: "held u = held s" using a by simp
    have p: "no_proc_lock u" "distinct (idx @ [nat i])" using a ni Suc.prems(1,2) by auto
    have q: "\<forall>j \<in> set (idx @ [nat i]). j < VIRTIO_NUM \<and> \<not> vdfree u j" using a ni Suc.prems(3) by auto
    from Suc.IH [OF p q] obtain r t where
      t: "alloc3_loop k (idx @ [nat i]) u = Ok (r, t)" "no_proc_lock t" "held t = held u" and
      r: "case r of None \<Rightarrow> vfree (vdisk t) = (\<lambda>j. j \<in> set (idx @ [nat i]) \<or> vdfree u j)
        | Some js \<Rightarrow> \<exists>is. js = (idx @ [nat i]) @ is \<and> length is = k \<and> distinct js \<and> (\<forall>i \<in> set is. i < VIRTIO_NUM \<and> vdfree u i) \<and>
            vfree (vdisk t) = (\<lambda>i. i \<notin> set is \<and> vdfree u i) \<and> t = upd_vd (vfree_update (\<lambda>_. vfree (vdisk t))) u"
      by blast
    have vu: "vdfree u j \<longleftrightarrow> j \<noteq> nat i \<and> vdfree s j" for j using a by simp
    show ?thesis
    proof (cases r)
      case None
      then have "vfree (vdisk t) = (\<lambda>j. j \<in> set idx \<or> vdfree s j)" using r vu a by (auto simp: fun_eq_iff)
      then show ?thesis using t hu i False None by simp
    next
      case (Some js)
      then obtain "is" where js: "js = idx @ nat i # is" "length is = k" "distinct js" "\<forall>j \<in> set is. j < VIRTIO_NUM \<and> vdfree u j"
        "vfree (vdisk t) = (\<lambda>i. i \<notin> set is \<and> vdfree u i)" "t = upd_vd (vfree_update (\<lambda>_. vfree (vdisk t))) u" using r by auto
      have e: "t = upd_vd (vfree_update (\<lambda>_. vfree (vdisk t))) s"
        by (subst js(6)) (use a in \<open>simp add: upd_vd_def\<close>)
      have f: "\<forall>j \<in> set (nat i # is). j < VIRTIO_NUM \<and> vdfree s j" using js(4) vu a by auto
      have g: "vfree (vdisk t) = (\<lambda>j. j \<notin> set (nat i # is) \<and> vdfree s j)" using js(5) vu by auto
      have "\<exists>is. js = idx @ is \<and> length is = Suc k \<and> distinct js \<and> (\<forall>i \<in> set is. i < VIRTIO_NUM \<and> vdfree s i) \<and>
         vfree (vdisk t) = (\<lambda>i. i \<notin> set is \<and> vdfree s i) \<and> t = upd_vd (vfree_update (\<lambda>_. vfree (vdisk t))) s"
        by (rule exI [of _ "nat i # is"], intro conjI) (rule js(1), simp add: js(2), rule js(3), rule f, rule g, rule e)
      moreover have "alloc3_loop (Suc k) idx s = Ok (r, t)" using t(1) i False by simp
      ultimately show ?thesis using t(2,3) hu Some by auto
    qed
  qed
qed

lemma free_chain_step:
  assumes "i < VIRTIO_NUM" "\<not> vdfree s i" "no_proc_lock s"
  shows "\<exists>t. vfree (vdisk t) = (vdfree s)(i := True) \<and> no_proc_lock t \<and> held t = held s \<and>
    (\<forall>j. j \<noteq> i \<longrightarrow> vdesc (vdisk t) j = vdesc (vdisk s) j) \<and> vd_only s t \<and>
    free_chain i s = (if vd_flags (vdesc (vdisk s) i) AND VRING_DESC_F_NEXT \<noteq> 0
      then free_chain (unat (vd_next (vdesc (vdisk s) i))) t else Ok t)"
proof -
  obtain t where t: "free_desc i s = Ok t" "vfree (vdisk t) = (vdfree s)(i := True)" "no_proc_lock t" "held t = held s"
    "\<forall>j. j \<noteq> i \<longrightarrow> vdesc (vdisk t) j = vdesc (vdisk s) j" "vd_only s t" using free_desc_spec [OF assms] by blast
  then show ?thesis unfolding free_chain_def
    by (intro exI [of _ t] conjI) (simp_all add: loopr_unfold [of _ "(i, s)"] Let_def)
qed

text \<open>A chain of three descriptors, as a request has it.\<close>

definition chain3 :: "vdisk \<Rightarrow> nat \<Rightarrow> nat \<Rightarrow> nat \<Rightarrow> bool" where
  "chain3 v i j k \<longleftrightarrow> vd_flags (vdesc v i) AND VRING_DESC_F_NEXT \<noteq> 0 \<and> unat (vd_next (vdesc v i)) = j \<and>
     vd_flags (vdesc v j) AND VRING_DESC_F_NEXT \<noteq> 0 \<and> unat (vd_next (vdesc v j)) = k \<and>
     vd_flags (vdesc v k) AND VRING_DESC_F_NEXT = 0"

lemma free_chain3:
  assumes c: "chain3 (vdisk s) i j k" and d: "distinct [i, j, k]"
    and u: "\<forall>x \<in> {i, j, k}. x < VIRTIO_NUM \<and> \<not> vdfree s x" and n: "no_proc_lock s"
  shows "\<exists>t. free_chain i s = Ok t \<and> vfree (vdisk t) = (\<lambda>x. x \<in> {i, j, k} \<or> vdfree s x) \<and> vd_only s t"
proof -
  obtain t where t: "vfree (vdisk t) = (vdfree s)(i := True)" "no_proc_lock t" "vd_only s t"
    "\<forall>x. x \<noteq> i \<longrightarrow> vdesc (vdisk t) x = vdesc (vdisk s) x" "free_chain i s = free_chain j t"
    using free_chain_step [of i s] u n c by (auto simp: chain3_def)
  obtain w where w: "vfree (vdisk w) = (vdfree t)(j := True)" "no_proc_lock w" "vd_only t w"
    "\<forall>x. x \<noteq> j \<longrightarrow> vdesc (vdisk w) x = vdesc (vdisk t) x" "free_chain j t = free_chain k w"
    using free_chain_step [of j t] u t c d by (auto simp: chain3_def)
  obtain z where z: "vfree (vdisk z) = (vdfree w)(k := True)" "vd_only w z" "free_chain k w = Ok z"
    using free_chain_step [of k w] u t w c d by (auto simp: chain3_def)
  have "vfree (vdisk z) = (\<lambda>x. x \<in> {i, j, k} \<or> vdfree s x)" by (simp add: z w t fun_eq_iff)
  then show ?thesis using t(3,5) w(3,5) z(2,3) vd_only_trans by metis
qed

lemma vd_submit_chain:
  assumes "distinct [i, j, k]" "i < VIRTIO_NUM" "j < VIRTIO_NUM" "k < VIRTIO_NUM"
  shows "chain3 (vdisk (vd_submit b write i j k s)) i j k" "vfree (vdisk (vd_submit b write i j k s)) = vdfree s"
proof -
  have u: "unat (of_nat x :: u16) = x" if "x < VIRTIO_NUM" for x :: nat using that by (simp add: unat_of_nat)
  have f: "((if write then 0 else 2) OR 1 :: u16) AND 1 \<noteq> 0" by simp
  have v: "vdisk (upd_buf b g s) = vdisk s" for g and s :: "'a virtio_st_scheme" by (simp add: upd_buf_def)
  show "chain3 (vdisk (vd_submit b write i j k s)) i j k"
    using assms u f by (simp add: vd_submit_def Let_def chain3_def v)
  show "vfree (vdisk (vd_submit b write i j k s)) = vdfree s"
    by (simp add: vd_submit_def Let_def v)
qed

text \<open>Three free descriptors are enough.\<close>

lemma alloc3_enough: "k \<le> card {i. i < VIRTIO_NUM \<and> vdfree s i} \<Longrightarrow> \<exists>js t. alloc3_loop k idx s = Ok (Some js, t)"
proof (induction k arbitrary: idx s)
  case (Suc k)
  obtain i u where i: "alloc_desc s = (i, u)" by (cases "alloc_desc s")
  have "\<not> i < 0"
  proof
    assume "i < 0"
    then have "{i. i < VIRTIO_NUM \<and> vdfree s i} = {}" using alloc_desc_None [OF i] by auto
    then have "card {i. i < VIRTIO_NUM \<and> vdfree s i} = 0" by (simp only: card.empty)
    then show False using Suc.prems by linarith
  qed
  moreover from alloc_desc_Some [OF i this] have "{x. x < VIRTIO_NUM \<and> vdfree u x} = {x. x < VIRTIO_NUM \<and> vdfree s x} - {nat i}"
    and "nat i \<in> {x. x < VIRTIO_NUM \<and> vdfree s x}" by auto
  ultimately show ?case using Suc.IH [of u "idx @ [nat i]"] Suc.prems i by simp
qed simp

end
