(* ===== verification/Trap.thy ===== *)
theory Trap
  imports Sysfile Virtio
begin

text \<open>
  Traps (\<^verbatim>\<open>kernel/trap.c\<close>) and the interrupt controller (\<^verbatim>\<open>kernel/plic.c\<close>). The supervisor registers of the
  running hart are fields of the state. What the PLIC answers to a claim is the next element of \<open>plic_pending\<close>;
  completions are recorded. Leaving through the trampoline is the register file \<open>usertrapret\<close> sets up.
\<close>

section \<open>State\<close>

abbreviation (input) SSTATUS_SPP :: u64 where "SSTATUS_SPP \<equiv> 0x100"
abbreviation (input) SSTATUS_SPIE :: u64 where "SSTATUS_SPIE \<equiv> 0x20"
abbreviation (input) SSTATUS_SIE :: u64 where "SSTATUS_SIE \<equiv> 2"
abbreviation (input) UART0_IRQ :: int where "UART0_IRQ \<equiv> 10"
abbreviation (input) VIRTIO0_IRQ :: int where "VIRTIO0_IRQ \<equiv> 1"
abbreviation (input) TF_KSATP :: u64 where "TF_KSATP \<equiv> 0"
abbreviation (input) TF_KSP :: u64 where "TF_KSP \<equiv> 8"
abbreviation (input) TF_KTRAP :: u64 where "TF_KTRAP \<equiv> 16"
abbreviation (input) TF_KHARTID :: u64 where "TF_KHARTID \<equiv> 32"

text \<open>Addresses the linker assigns.\<close>

record ksyms =
  kernelvec_addr :: u64
  usertrap_addr :: u64
  uservec_off :: u64
  userret_off :: u64

record trap_st = virtio_st +
  sstatus :: u64
  sepc :: u64
  scause :: u64
  stval :: u64
  stvec :: u64
  satp :: u64
  hart_tp :: u64
  mtime :: u64
  stimecmp :: u64
  plic_pending :: "int list"
  plic_done :: "int list"
  ksym :: ksyms
  user_jump :: "(u64 \<times> u64) option"

definition intr_get :: "'a trap_st_scheme \<Rightarrow> bool" where
  "intr_get s \<longleftrightarrow> sstatus s AND SSTATUS_SIE \<noteq> 0"

definition intr_on :: "'a trap_st_scheme \<Rightarrow> 'a trap_st_scheme" where
  "intr_on s = s\<lparr>sstatus := sstatus s OR SSTATUS_SIE\<rparr>"

definition intr_off :: "'a trap_st_scheme \<Rightarrow> 'a trap_st_scheme" where
  "intr_off s = s\<lparr>sstatus := sstatus s AND NOT SSTATUS_SIE\<rparr>"

definition cpuid :: "'a trap_st_scheme \<Rightarrow> int" where
  "cpuid s = sint (ucast (hart_tp s) :: u32)"

definition trapinithart :: "'a trap_st_scheme \<Rightarrow> 'a trap_st_scheme" where
  "trapinithart s = s\<lparr>stvec := kernelvec_addr (ksym s)\<rparr>"

section \<open>Device interrupts\<close>

definition plic_claim :: "'a trap_st_scheme \<Rightarrow> int \<times> 'a trap_st_scheme" where
  "plic_claim s = (case plic_pending s of [] \<Rightarrow> (0, s) | irq # is \<Rightarrow> (irq, s\<lparr>plic_pending := is\<rparr>))"

definition plic_complete :: "int \<Rightarrow> 'a trap_st_scheme \<Rightarrow> 'a trap_st_scheme" where
  "plic_complete irq s = s\<lparr>plic_done := plic_done s @ [irq]\<rparr>"

definition clockintr :: "'a trap_st_scheme \<Rightarrow> 'a trap_st_scheme res" where
  "clockintr s =
     bindr (if cpuid s = 0 then
              bindr (acquire Ticks_lock s) (\<lambda>s.
              bindr (wakeup Chan_ticks (s\<lparr>ticks := ticks s + 1\<rparr>)) (\<lambda>s.
              release Ticks_lock s))
            else Ok s) (\<lambda>s.
     Ok (s\<lparr>stimecmp := mtime s + 1000000\<rparr>))"

definition devintr :: "'a trap_st_scheme \<Rightarrow> (int \<times> 'a trap_st_scheme) res" where
  "devintr s =
     (if scause s = 0x8000000000000009 then
        let (irq, s) = plic_claim s in
        bindr (if irq = UART0_IRQ then uartintr s
               else if irq = VIRTIO0_IRQ then virtio_disk_intr s
               else Ok s) (\<lambda>s.
        let s = (if irq \<noteq> 0 then plic_complete irq s else s) in
        Ok (1, s))
      else if scause s = 0x8000000000000005 then
        bindr (clockintr s) (\<lambda>s. Ok (2, s))
      else Ok (0, s))"

section \<open>Traps\<close>

definition usertrapret :: "'a trap_st_scheme \<Rightarrow> 'a trap_st_scheme res" where
  "usertrapret s =
     bindr (myproc s) (\<lambda>p.
     let s = intr_off s;
         s = s\<lparr>stvec := TRAMPOLINE + uservec_off (ksym s)\<rparr>;
         s = set_tf p TF_KSATP (satp s) s;
         s = set_tf p TF_KSP (p_kstack (ptab s p) + PGSIZE) s;
         s = set_tf p TF_KTRAP (usertrap_addr (ksym s)) s;
         s = set_tf p TF_KHARTID (hart_tp s) s;
         x = sstatus s AND NOT SSTATUS_SPP;
         x = x OR SSTATUS_SPIE;
         s = s\<lparr>sstatus := x\<rparr>;
         s = s\<lparr>sepc := ld64 (mem s) (p_trapframe (ptab s p) + TF_EPC)\<rparr>;
         st = MAKE_SATP (p_pagetable (ptab s p)) in
     Ok (s\<lparr>user_jump := Some (TRAMPOLINE + userret_off (ksym s), st)\<rparr>))"

text \<open>The body of \<^verbatim>\<open>usertrap\<close> up to the second test of \<^verbatim>\<open>killed\<close>: which device interrupted.\<close>

definition usertrap_cause :: "('a trap_st_scheme \<Rightarrow> 'a trap_st_scheme res) \<Rightarrow> nat \<Rightarrow> 'a trap_st_scheme \<Rightarrow> (int \<times> 'a trap_st_scheme) res" where
  "usertrap_cause others p s =
     (if scause s = 8 then
        bindr (killed p s) (\<lambda>(k, s).
        bindr (if k \<noteq> 0 then exit others (-1) s else Ok s) (\<lambda>s.
        let s = set_tf p TF_EPC (ld64 (mem s) (p_trapframe (ptab s p) + TF_EPC) + 4) s;
            s = intr_on s in
        bindr (syscall others s) (\<lambda>s. Ok (0, s))))
      else
        bindr (devintr s) (\<lambda>(which_dev, s).
        if which_dev \<noteq> 0 then Ok (which_dev, s)
        else if scause s = 12 \<or> scause s = 13 \<or> scause s = 15 then
          let va = stval s in
          if va \<ge> MAXVA then bindr (setkilled p s) (\<lambda>s. Ok (0, s))
          else
            bindr (swapin (p_pagetable (ptab s p)) va s) (\<lambda>(r, s).
            if r < 0 then bindr (setkilled p s) (\<lambda>s. Ok (0, s)) else Ok (0, s))
        else bindr (setkilled p s) (\<lambda>s. Ok (0, s))))"

definition usertrap :: "('a trap_st_scheme \<Rightarrow> 'a trap_st_scheme res) \<Rightarrow> 'a trap_st_scheme \<Rightarrow> 'a trap_st_scheme res" where
  "usertrap others s =
     (if sstatus s AND SSTATUS_SPP \<noteq> 0 then Panic ''usertrap: not from user mode''
      else
        let s = s\<lparr>stvec := kernelvec_addr (ksym s)\<rparr> in
        bindr (myproc s) (\<lambda>p.
        let s = set_tf p TF_EPC (sepc s) s in
        bindr (usertrap_cause others p s) (\<lambda>(which_dev, s).
        bindr (killed p s) (\<lambda>(k, s).
        bindr (if k \<noteq> 0 then exit others (-1) s else Ok s) (\<lambda>s.
        bindr (if which_dev = 2 then yield others s else Ok s) (\<lambda>s.
        usertrapret s))))))"

definition kerneltrap :: "('a trap_st_scheme \<Rightarrow> 'a trap_st_scheme res) \<Rightarrow> 'a trap_st_scheme \<Rightarrow> 'a trap_st_scheme res" where
  "kerneltrap others s =
     (let epc = sepc s; st = sstatus s in
      if st AND SSTATUS_SPP = 0 then Panic ''kerneltrap: not from supervisor mode''
      else if intr_get s then Panic ''kerneltrap: interrupts enabled''
      else
        bindr (devintr s) (\<lambda>(which_dev, s).
        if which_dev = 0 then Panic ''kerneltrap''
        else
          bindr (if which_dev = 2 \<and> cur s \<noteq> None then yield others s else Ok s) (\<lambda>s.
          Ok (s\<lparr>sepc := epc, sstatus := st\<rparr>))))"

end
