(* ===== verification/Frames.thy ===== *)
theory Frames
  imports Swap
begin

text \<open>
  Who owns which physical page. The proofs about paging carry a function \<open>own\<close> from pages to owners:
  the free list, a page table of an address space (by its path from the root), a user page (by the
  path of its entry), the swap bitmap, a page the kernel just got (\<open>Held\<close>) or one it uses itself (\<open>Other\<close>). A page
  the kernel shares with one process, as the trapframe, is \<open>Shared\<close>, by the entry that maps it. Pages outside
  the allocator's range are \<open>Kern\<close>. That two pages are different follows from their having
  different owners. In the same way \<open>sown\<close> gives the entry a swap slot belongs to.
\<close>

section \<open>Owners\<close>

datatype owner = Free | Table u64 "u64 list" | Upage u64 "u64 list" | Shared u64 "u64 list" | Bitmap | Held | Other | Kern

type_synonym owners = "u64 \<Rightarrow> owner"

type_synonym slot_owners = "int \<Rightarrow> u64 \<times> u64 list"

text \<open>The pages on which two memories differ have owners in \<open>P\<close>.\<close>

definition changes :: "owners \<Rightarrow> memory \<Rightarrow> memory \<Rightarrow> owner set \<Rightarrow> bool" where
  "changes own m m' P \<longleftrightarrow> (\<forall>x. m' x \<noteq> m x \<longrightarrow> own (PGROUNDDOWN x) \<in> P)"

lemma changes_refl [simp]: "changes own m m P"
  by (simp add: changes_def)

lemma changes_trans: "changes own m m' P \<Longrightarrow> changes own m' m'' P \<Longrightarrow> changes own m m'' P"
  unfolding changes_def by metis

lemma changes_page: "changes own m m' P \<Longrightarrow> own a \<notin> P \<Longrightarrow> page_eq a m' m"
  by (auto simp: changes_def page_eq_def)

lemma changes_write: "pg_aligned a \<Longrightarrow> own a \<in> P \<Longrightarrow> changes own m (mem_write m a f PGSIZE) P"
  by (auto simp: changes_def mem_write_page)

lemma changes_st64:
  assumes "pg_aligned t" "i < 512" "own t \<in> P"
  shows "changes own m (st64 m (entry t i) v) P"
proof -
  have "page_eq q (st64 m (entry t i) v) m" if "q \<noteq> t" for q using st64_other assms that by metis
  then show ?thesis using assms(3) unfolding changes_def page_eq_def by metis
qed

lemma changes_byte: "own (PGROUNDDOWN a) \<in> P \<Longrightarrow> changes own m (m(a := c)) P"
  by (auto simp: changes_def)

section \<open>Address spaces\<close>

definition pte :: "memory \<Rightarrow> u64 \<Rightarrow> u64 \<Rightarrow> u64" where
  "pte m pt va = ld64 m (leaf m pt va)"

text \<open>The page tables of the address spaces in \<open>R\<close> are where the owners say.\<close>

definition tabs_ok :: "owners \<Rightarrow> u64 set \<Rightarrow> memory \<Rightarrow> bool" where
  "tabs_ok own R m \<longleftrightarrow> (\<forall>pt \<in> R. \<forall>p t. length p \<le> 2 \<longrightarrow> set p \<subseteq> {..<512} \<longrightarrow> node m pt p = Some t \<longrightarrow>
     pg_aligned t \<and> own t = Table pt p)"

text \<open>A mapped page is the user page of that entry, or a page the kernel shares with the process.\<close>

definition upages_ok :: "owners \<Rightarrow> u64 set \<Rightarrow> memory \<Rightarrow> bool" where
  "upages_ok own R m \<longleftrightarrow> (\<forall>pt \<in> R. \<forall>va. leaf m pt va \<noteq> 0 \<longrightarrow> bit (pte m pt va) 0 \<longrightarrow>
     own (PTE2PA (pte m pt va)) \<in> {Upage pt (px_list va), Shared pt (px_list va), Other, Kern})"

text \<open>The entry names a swap slot.\<close>

definition swapped :: "memory \<Rightarrow> u64 \<Rightarrow> u64 \<Rightarrow> bool" where
  "swapped m pt va \<longleftrightarrow> leaf m pt va \<noteq> 0 \<and> \<not> bit (pte m pt va) 0 \<and> bit (pte m pt va) 9"

definition slots_ok :: "slot_owners \<Rightarrow> u64 set \<Rightarrow> u64 \<Rightarrow> memory \<Rightarrow> bool" where
  "slots_ok sown R B m \<longleftrightarrow> (\<forall>pt \<in> R. \<forall>va. swapped m pt va \<longrightarrow>
     (let k = pte_slot (pte m pt va) in
      0 \<le> k \<and> k < 7000 \<and> slot_bit m B (nat k) \<and> sown k = (pt, px_list va)))"

definition space_ok :: "owners \<Rightarrow> slot_owners \<Rightarrow> u64 set \<Rightarrow> u64 \<Rightarrow> memory \<Rightarrow> bool" where
  "space_ok own sown R B m \<longleftrightarrow> tabs_ok own R m \<and> upages_ok own R m \<and> slots_ok sown R B m"

section \<open>Entries\<close>

lemma tabsD:
  assumes "tabs_ok own R m" "pt \<in> R" "node m pt p = Some t" "length p \<le> 2" "set p \<subseteq> {..<512}"
  shows "pg_aligned t" "own t = Table pt p"
  using assms unfolding tabs_ok_def by blast+

lemma slotsD:
  assumes "space_ok own sown R B m" "pt \<in> R" "swapped m pt va"
  shows "0 \<le> pte_slot (pte m pt va)" "pte_slot (pte m pt va) < 7000"
    "slot_bit m B (nat (pte_slot (pte m pt va)))" "sown (pte_slot (pte m pt va)) = (pt, px_list va)"
  using assms unfolding space_ok_def slots_ok_def Let_def by blast+

lemma upagesD:
  assumes "space_ok own sown R B m" "pt \<in> R" "leaf m pt va \<noteq> 0" "bit (pte m pt va) 0"
  shows "own (PTE2PA (pte m pt va)) \<in> {Upage pt (px_list va), Shared pt (px_list va), Other, Kern}"
  using assms unfolding space_ok_def upages_ok_def by blast

lemma leafE:
  assumes "tabs_ok own R m" "pt \<in> R" "leaf m pt va \<noteq> 0"
  obtains t where "node m pt [PX 2 va, PX 1 va] = Some t" "pg_aligned t" "own t = Table pt [PX 2 va, PX 1 va]"
    "leaf m pt va = entry t (PX 0 va)"
proof -
  from assms(3) obtain t where t: "node m pt [PX 2 va, PX 1 va] = Some t"
    by (auto simp: leaf_def split: option.splits)
  have "pg_aligned t \<and> own t = Table pt [PX 2 va, PX 1 va]"
    using tabsD [OF assms(1,2) t] by simp
  then show thesis using that t by (simp add: leaf_def del: node.simps)
qed

lemma leaf_px: "px_list va = px_list va' \<Longrightarrow> leaf m pt va = leaf m pt va'"
  by (simp add: leaf_def px_list_def del: node.simps split: option.split)

lemma leaf_inj:
  assumes "tabs_ok own R m" "pt \<in> R" "pt' \<in> R" "leaf m pt va \<noteq> 0" "leaf m pt va = leaf m pt' va'"
  shows "pt = pt' \<and> px_list va = px_list va'"
proof -
  obtain t where t: "pg_aligned t" "own t = Table pt [PX 2 va, PX 1 va]" "leaf m pt va = entry t (PX 0 va)"
    using leafE [OF assms(1,2,4)] .
  obtain t' where t': "pg_aligned t'" "own t' = Table pt' [PX 2 va', PX 1 va']" "leaf m pt' va' = entry t' (PX 0 va')"
    using leafE [OF assms(1,3), of va'] assms(4,5) by metis
  from assms(5) t(3) t'(3) have "t = t' \<and> PX 0 va = PX 0 va'" using entry_eq_iff [OF t(1) t'(1)] by simp
  with t(2) t'(2) show ?thesis by (simp add: px_list_def)
qed

lemma node_changes:
  assumes tabs: "tabs_ok own R m" and ch: "changes own m m' P" and P: "\<And>pt p. Table pt p \<in> P \<Longrightarrow> length p = 2"
    and pt: "pt \<in> R" and p: "length p \<le> 2" "set p \<subseteq> {..<512}"
  shows "node m' pt p = node m pt p"
proof -
  have step: "ld64 m' (entry t i) = ld64 m (entry t i)"
    if "node m pt q = Some t" "length q < 2" "set q \<subseteq> {..<512}" "i < 512" for q t i
  proof -
    have t: "pg_aligned t" "own t = Table pt q" using tabsD [OF tabs pt that(1)] that by auto
    then have "own t \<notin> P" using P [of pt q] that(2) by auto
    then have "page_eq t m' m" using changes_page [OF ch] by blast
    then show ?thesis using ld64_page_cong t that(4) by blast
  qed
  show ?thesis
  proof (cases p)
    case (Cons i q)
    then have one: "node m' pt [i] = node m pt [i]" using step [of "[]" pt i] p by (simp add: Let_def)
    show ?thesis
    proof (cases q)
      case (Cons j r)
      then have r: "r = []" "p = [i] @ [j]" using p \<open>p = i # q\<close> by auto
      have "ld64 m' (entry t j) = ld64 m (entry t j)" if "node m pt [i] = Some t" for t
        using step [OF that] p r by auto
      then show ?thesis using one unfolding r(2) node_append by (simp add: Let_def split: option.split)
    qed (use one \<open>p = i # q\<close> in simp)
  qed simp
qed

lemma leaf_changes:
  assumes "tabs_ok own R m" "changes own m m' P" "\<And>pt p. Table pt p \<in> P \<Longrightarrow> length p = 2" "pt \<in> R"
  shows "leaf m' pt va = leaf m pt va"
  using node_changes [OF assms, where p = "[PX 2 va, PX 1 va]"] by (simp add: leaf_def del: node.simps)

lemma pte_changes:
  assumes "tabs_ok own R m" "changes own m m' P" "\<And>pt p. Table pt p \<notin> P" "pt \<in> R" "leaf m pt va \<noteq> 0"
  shows "pte m' pt va = pte m pt va"
proof -
  obtain t where t: "pg_aligned t" "own t = Table pt [PX 2 va, PX 1 va]" "leaf m pt va = entry t (PX 0 va)"
    using leafE [OF assms(1,4,5)] .
  have "page_eq t m' m" using changes_page [OF assms(2)] t(2) assms(3) by metis
  then have "ld64 m' (leaf m pt va) = ld64 m (leaf m pt va)" using ld64_page_cong t(1,3) by simp
  then show ?thesis using leaf_changes [OF assms(1,2) _ assms(4)] assms(3) by (simp add: pte_def)
qed

lemma tabs_changes:
  assumes "tabs_ok own R m" "changes own m m' P" "\<And>pt p. Table pt p \<in> P \<Longrightarrow> length p = 2"
  shows "tabs_ok own R m'"
  using assms(1) node_changes [OF assms] unfolding tabs_ok_def by auto

lemma swapped_changes:
  assumes "tabs_ok own R m" "changes own m m' P" "\<And>pt p. Table pt p \<notin> P" "pt \<in> R"
  shows "swapped m' pt va = swapped m pt va"
  using leaf_changes [OF assms(1,2) _ assms(4)] pte_changes [OF assms] assms(3) by (auto simp: swapped_def)

text \<open>Changes outside the page tables keep the address spaces, as long as the slots in use stay
  allocated.\<close>

lemma space_changes:
  assumes ok: "space_ok own sown R B m" and ch: "changes own m m' P" "\<And>pt p. Table pt p \<notin> P"
    and bits: "\<And>pt va. pt \<in> R \<Longrightarrow> swapped m pt va \<Longrightarrow> slot_bit m' B (nat (pte_slot (pte m pt va)))"
  shows "space_ok own sown R B m'"
proof -
  from ok have tabs: "tabs_ok own R m" by (simp add: space_ok_def)
  have lf: "leaf m' pt va = leaf m pt va" if "pt \<in> R" for pt va
    using leaf_changes [OF tabs ch(1) _ that] ch(2) by simp
  note pe = pte_changes [OF tabs ch] and sw = swapped_changes [OF tabs ch]
  have "upages_ok own R m'" using ok lf pe unfolding space_ok_def upages_ok_def by auto
  moreover have "slots_ok sown R B m'"
    unfolding slots_ok_def
  proof (intro ballI allI impI)
    fix pt va assume a: "pt \<in> R" "swapped m' pt va"
    then have s: "swapped m pt va" using sw by simp
    then have "pte m' pt va = pte m pt va" using pe a(1) by (simp add: swapped_def)
    then show "let k = pte_slot (pte m' pt va) in 0 \<le> k \<and> k < 7000 \<and> slot_bit m' B (nat k) \<and> sown k = (pt, px_list va)"
      using slotsD [OF ok a(1) s] bits [OF a(1) s] by (simp add: Let_def)
  qed
  ultimately show ?thesis using tabs_changes [OF tabs ch(1)] ch(2) by (simp add: space_ok_def)
qed

lemma slot_bit_page:
  assumes "pg_aligned B" "page_eq B m' m" "i < 32768"
  shows "slot_bit m' B i = slot_bit m B i"
proof -
  have "PGROUNDDOWN (B + of_nat (i div 8)) = B"
    using assms(3) by (intro page_offset [OF assms(1)]) (simp add: word_less_nat_alt unat_of_nat_u64)
  then show ?thesis using assms(2) by (simp add: slot_bit_def page_eq_def)
qed

lemma space_free:
  assumes "space_ok own sown R B m" "changes own m m' {Free}" "own B = Bitmap" "pg_aligned B"
  shows "space_ok own sown R B m'"
proof (rule space_changes [OF assms(1,2)])
  fix pt va assume a: "pt \<in> R" "swapped m pt va"
  have "page_eq B m' m" using changes_page [OF assms(2)] assms(3) by simp
  then show "slot_bit m' B (nat (pte_slot (pte m pt va)))"
    using slot_bit_page [OF assms(4)] slotsD [OF assms(1) a] by simp
qed simp

section \<open>Writing an entry\<close>

lemma st64_leaf_changes:
  assumes "tabs_ok own R m" "pt \<in> R" "leaf m pt va \<noteq> 0"
  shows "changes own m (st64 m (leaf m pt va) v) {Table pt [PX 2 va, PX 1 va]}"
proof -
  obtain t where "pg_aligned t" "own t = Table pt [PX 2 va, PX 1 va]" "leaf m pt va = entry t (PX 0 va)"
    using leafE [OF assms] .
  then show ?thesis using changes_st64 [of t "PX 0 va"] by simp
qed

lemma leaf_st64:
  assumes "tabs_ok own R m" "pt \<in> R" "leaf m pt va \<noteq> 0" "pt' \<in> R"
  shows "leaf (st64 m (leaf m pt va) v) pt' va' = leaf m pt' va'"
  using leaf_changes [OF assms(1) st64_leaf_changes [OF assms(1-3)] _ assms(4)] by simp

lemma pte_st64:
  assumes "tabs_ok own R m" "pt \<in> R" "leaf m pt va \<noteq> 0" "pt' \<in> R" "leaf m pt' va' \<noteq> 0"
  shows "pte (st64 m (leaf m pt va) v) pt' va' = (if pt' = pt \<and> px_list va' = px_list va then v else pte m pt' va')"
proof -
  obtain t where t: "pg_aligned t" "leaf m pt va = entry t (PX 0 va)" using leafE [OF assms(1-3)] .
  obtain t' where t': "pg_aligned t'" "leaf m pt' va' = entry t' (PX 0 va')" using leafE [OF assms(1,4,5)] .
  have "leaf m pt va = leaf m pt' va' \<longleftrightarrow> pt' = pt \<and> px_list va' = px_list va"
    using leaf_inj [OF assms(1,2,4,3)] leaf_px by metis
  moreover have "pte (st64 m (leaf m pt va) v) pt' va' = ld64 (st64 m (leaf m pt va) v) (leaf m pt' va')"
    by (simp add: pte_def leaf_st64 [OF assms(1-4)])
  ultimately show ?thesis
    using ld64_st64_entry [OF t(1) t'(1), of "PX 0 va" "PX 0 va'" m v] entry_eq_iff [OF t(1) t'(1), of "PX 0 va" "PX 0 va'"]
    by (simp add: pte_def t(2) t'(2))
qed

lemma swapped_st64:
  assumes "tabs_ok own R m" "pt \<in> R" "leaf m pt va \<noteq> 0" "pt' \<in> R"
  shows "swapped (st64 m (leaf m pt va) v) pt' va' \<longleftrightarrow>
    (if pt' = pt \<and> px_list va' = px_list va then \<not> bit v 0 \<and> bit v 9 else swapped m pt' va')"
  unfolding swapped_def leaf_st64 [OF assms]
  using pte_st64 [OF assms] leaf_px [of va' va m pt] assms(3) by auto

lemma slot_bit_st64:
  assumes "tabs_ok own R m" "pt \<in> R" "leaf m pt va \<noteq> 0" "own B = Bitmap" "pg_aligned B" "i < 32768"
  shows "slot_bit (st64 m (leaf m pt va) v) B i = slot_bit m B i"
  using slot_bit_page [OF assms(5) changes_page [OF st64_leaf_changes [OF assms(1-3)]] assms(6)] assms(4) by simp

text \<open>An entry may be replaced by one that has its own page or slot.\<close>

lemma space_st64:
  assumes ok: "space_ok own sown R B m" and pt: "pt \<in> R" and lf: "leaf m pt va \<noteq> 0"
    and B: "own B = Bitmap" "pg_aligned B"
    and page: "bit v 0 \<Longrightarrow> own' (PTE2PA v) \<in> {Upage pt (px_list va), Shared pt (px_list va), Other, Kern}"
    and slot: "\<not> bit v 0 \<Longrightarrow> bit v 9 \<Longrightarrow> 0 \<le> pte_slot v \<and> pte_slot v < 7000 \<and> slot_bit m B (nat (pte_slot v)) \<and>
                 sown' (pte_slot v) = (pt, px_list va)"
    and own': "\<And>a. own' a \<noteq> own a \<Longrightarrow> own a = Upage pt (px_list va) \<or> own a = Free \<or> own a = Held"
    and sown': "\<And>k. sown' k \<noteq> sown k \<Longrightarrow> \<not> slot_bit m B (nat k) \<or> sown k = (pt, px_list va)"
  shows "space_ok own' sown' R B (st64 m (leaf m pt va) v)"
proof -
  let ?m = "st64 m (leaf m pt va) v"
  from ok have tabs: "tabs_ok own R m" by (simp add: space_ok_def)
  have keep: "own' t = Table pt p" if "own t = Table pt p" for t pt p using own' [of t] that by fastforce
  note ch = st64_leaf_changes [OF tabs pt lf, of v]
  have "tabs_ok own R ?m" using tabs_changes [OF tabs ch] by simp
  then have "tabs_ok own' R ?m" using keep unfolding tabs_ok_def by blast
  moreover have "upages_ok own' R ?m"
    unfolding upages_ok_def
  proof (intro ballI allI impI)
    fix pt' va' assume a: "pt' \<in> R" "leaf ?m pt' va' \<noteq> 0" "bit (pte ?m pt' va') 0"
    then have lf': "leaf m pt' va' \<noteq> 0" using leaf_st64 [OF tabs pt lf] by simp
    show "own' (PTE2PA (pte ?m pt' va')) \<in> {Upage pt' (px_list va'), Shared pt' (px_list va'), Other, Kern}"
    proof (cases "pt' = pt \<and> px_list va' = px_list va")
      case True
      then show ?thesis using a pte_st64 [OF tabs pt lf a(1) lf'] page by simp
    next
      case False
      then have e: "pte ?m pt' va' = pte m pt' va'" using pte_st64 [OF tabs pt lf a(1) lf', of v] by auto
      then have o: "own (PTE2PA (pte m pt' va')) \<in> {Upage pt' (px_list va'), Shared pt' (px_list va'), Other, Kern}"
        using upagesD [OF ok a(1) lf'] a(3) by simp
      then have "own' (PTE2PA (pte m pt' va')) = own (PTE2PA (pte m pt' va'))" using own' False by fastforce
      then show ?thesis using o e by simp
    qed
  qed
  moreover have "slots_ok sown' R B ?m"
    unfolding slots_ok_def
  proof (intro ballI allI impI)
    fix pt' va' assume a: "pt' \<in> R" "swapped ?m pt' va'"
    then have lf': "leaf m pt' va' \<noteq> 0" using leaf_st64 [OF tabs pt lf] by (simp add: swapped_def)
    show "let k = pte_slot (pte ?m pt' va') in 0 \<le> k \<and> k < 7000 \<and> slot_bit ?m B (nat k) \<and> sown' k = (pt', px_list va')"
    proof (cases "pt' = pt \<and> px_list va' = px_list va")
      case True
      then show ?thesis using a pte_st64 [OF tabs pt lf a(1) lf', of v] swapped_st64 [OF tabs pt lf a(1), of v va'] slot
          slot_bit_st64 [OF tabs pt lf B] by (auto simp: Let_def)
    next
      case False
      then have e: "pte ?m pt' va' = pte m pt' va'" using pte_st64 [OF tabs pt lf a(1) lf', of v] by auto
      have "swapped m pt' va'" using swapped_st64 [OF tabs pt lf a(1), of v va'] a(2) False by auto
      then have o: "0 \<le> pte_slot (pte m pt' va')" "pte_slot (pte m pt' va') < 7000"
          "slot_bit m B (nat (pte_slot (pte m pt' va')))" "sown (pte_slot (pte m pt' va')) = (pt', px_list va')"
        using slotsD [OF ok a(1)] by blast+
      then have "sown' (pte_slot (pte m pt' va')) = sown (pte_slot (pte m pt' va'))" using sown' False by fastforce
      then show ?thesis using o e slot_bit_st64 [OF tabs pt lf B] by (simp add: Let_def)
    qed
  qed
  ultimately show ?thesis by (simp add: space_ok_def)
qed

end
