(* ===== verification/Paging.thy ===== *)
theory Paging
  imports Frames
begin

text \<open>
  Demand paging is invisible to the processes: \<open>swapout\<close> and \<open>kalloc\<close> keep the view of every address
  space (permissions and content of each page, wherever the page is), they return, and they keep
  the invariant \<open>vm_inv\<close> of the page tables, the free list, the list of resident pages and the slots.
\<close>

section \<open>Invariant and view\<close>

text \<open>The free pages, in the order of the list.\<close>

fun flist :: "memory \<Rightarrow> u64 \<Rightarrow> u64 list \<Rightarrow> bool" where
  "flist m a [] \<longleftrightarrow> a = 0"
| "flist m a (x # xs) \<longleftrightarrow> a = x \<and> x \<noteq> 0 \<and> flist m (ld64 m x) xs"

definition resident :: "owners \<Rightarrow> u64 set \<Rightarrow> 'a vm_st_scheme \<Rightarrow> nat \<Rightarrow> bool" where
  "resident own R s c \<longleftrightarrow>
     (let pt = pg_pagetable (pages s c); va = pg_vaddr (pages s c) in
      c < 32768 \<and> pt \<in> R \<and> va < MAXVA \<and> leaf (mem s) pt va \<noteq> 0 \<and> bit (pte (mem s) pt va) 0 \<and>
      PTE2PA (pte (mem s) pt va) = page_to_pa c \<and> own (page_to_pa c) = Upage pt (px_list va))"

definition vm_inv :: "owners \<Rightarrow> slot_owners \<Rightarrow> u64 set \<Rightarrow> nat list \<Rightarrow> u64 list \<Rightarrow> 'a vm_st_scheme \<Rightarrow> bool" where
  "vm_inv own sown R xs fs s \<longleftrightarrow>
     KERNBASE \<le> kend s \<and> (\<forall>a. own a \<noteq> Kern \<longrightarrow> pg_aligned a \<and> kend s \<le> a \<and> a < PHYSTOP) \<and>
     space_ok own sown R (swap_bitmap s) (mem s) \<and> own (swap_bitmap s) = Bitmap \<and> swap_slots s = 7000 \<and>
     flist (mem s) (freelist s) fs \<and> distinct fs \<and> (\<forall>a \<in> set fs. own a = Free) \<and>
     lru_list s xs \<and> (\<forall>c \<in> set xs. resident own R s c)"

text \<open>The flags a process depends on: all but valid, accessed and swapped.\<close>

definition uflags :: "u64 \<Rightarrow> u64" where
  "uflags e = PTE_FLAGS e AND NOT PTE_V AND NOT PTE_A AND NOT PTE_SWAPPED"

definition ucontent :: "'a vm_st_scheme \<Rightarrow> u64 \<Rightarrow> bytes" where
  "ucontent s e = (\<lambda>i. if i < PGSIZE then
     (if bit e 0 then mem_read (mem s) (PTE2PA e) i else slot_data s (pte_slot e) i) else 0)"

text \<open>What the process with page table \<open>pt\<close> has at \<open>va\<close>.\<close>

definition uview :: "'a vm_st_scheme \<Rightarrow> u64 \<Rightarrow> u64 \<Rightarrow> (u64 \<times> bytes) option" where
  "uview s pt va =
     (let e = pte (mem s) pt va in
      if leaf (mem s) pt va = 0 \<or> \<not> bit e 0 \<and> \<not> bit e 9 then None else Some (uflags e, ucontent s e))"

definition same_views :: "u64 set \<Rightarrow> 'a vm_st_scheme \<Rightarrow> 'a vm_st_scheme \<Rightarrow> bool" where
  "same_views R s t \<longleftrightarrow> (\<forall>pt \<in> R. \<forall>va. uview t pt va = uview s pt va)"

lemma same_views_refl [simp]: "same_views R s s"
  by (simp add: same_views_def)

lemma same_views_trans: "same_views R s t \<Longrightarrow> same_views R t u \<Longrightarrow> same_views R s u"
  by (simp add: same_views_def)

text \<open>The views stay, and so do the page tables and the entries of swapped-out pages.\<close>

definition paged :: "u64 set \<Rightarrow> 'a vm_st_scheme \<Rightarrow> 'a vm_st_scheme \<Rightarrow> bool" where
  "paged R s t \<longleftrightarrow> (\<forall>pt \<in> R. \<forall>va. uview t pt va = uview s pt va \<and> leaf (mem t) pt va = leaf (mem s) pt va \<and>
     (swapped (mem s) pt va \<longrightarrow> pte (mem t) pt va = pte (mem s) pt va))"

lemma paged_refl [simp]: "paged R s s"
  by (simp add: paged_def)

lemma paged_trans: "paged R s t \<Longrightarrow> paged R t u \<Longrightarrow> paged R s u"
  by (simp add: paged_def swapped_def)

lemma paged_views: "paged R s t \<Longrightarrow> same_views R s t"
  by (simp add: paged_def same_views_def)

lemma vm_invD:
  assumes "vm_inv own sown R xs fs s"
  shows "KERNBASE \<le> kend s" "\<And>a. own a \<noteq> Kern \<Longrightarrow> pg_aligned a \<and> kend s \<le> a \<and> a < PHYSTOP"
    "space_ok own sown R (swap_bitmap s) (mem s)" "own (swap_bitmap s) = Bitmap" "swap_slots s = 7000"
    "flist (mem s) (freelist s) fs" "distinct fs" "\<And>a. a \<in> set fs \<Longrightarrow> own a = Free"
    "lru_list s xs" "\<And>c. c \<in> set xs \<Longrightarrow> resident own R s c" "pg_aligned (swap_bitmap s)"
    "tabs_ok own R (mem s)"
  using assms unfolding vm_inv_def space_ok_def by auto

lemma residentD:
  assumes "resident own R s c"
  shows "c < 32768" "pg_pagetable (pages s c) \<in> R" "pg_vaddr (pages s c) < MAXVA"
    "leaf (mem s) (pg_pagetable (pages s c)) (pg_vaddr (pages s c)) \<noteq> 0"
    "bit (pte (mem s) (pg_pagetable (pages s c)) (pg_vaddr (pages s c))) 0"
    "PTE2PA (pte (mem s) (pg_pagetable (pages s c)) (pg_vaddr (pages s c))) = page_to_pa c"
    "own (page_to_pa c) = Upage (pg_pagetable (pages s c)) (px_list (pg_vaddr (pages s c)))"
  using assms unfolding resident_def Let_def by blast+

lemma page_to_pa_inj: "c < 32768 \<Longrightarrow> d < 32768 \<Longrightarrow> page_to_pa c = page_to_pa d \<longleftrightarrow> c = d"
proof -
  assume "c < 32768" "d < 32768"
  then have "unat (of_nat c * PGSIZE :: u64) = c * 4096" "unat (of_nat d * PGSIZE :: u64) = d * 4096"
    by (simp_all add: unat_word_ariths unat_of_nat_u64)
  then show ?thesis by (auto simp: page_to_pa_def word_unat_eq_iff [of "of_nat c * PGSIZE"])
qed

section \<open>Changes of memory\<close>

lemma resident_changes:
  assumes tabs: "tabs_ok own R (mem s)" and ch: "changes own (mem s) (mem t) P" "\<And>pt p. Table pt p \<notin> P"
    and pg: "pg_pagetable (pages t c) = pg_pagetable (pages s c)" "pg_vaddr (pages t c) = pg_vaddr (pages s c)"
    and r: "resident own R s c"
  shows "resident own R t c"
proof -
  have "leaf (mem t) (pg_pagetable (pages s c)) (pg_vaddr (pages s c)) =
        leaf (mem s) (pg_pagetable (pages s c)) (pg_vaddr (pages s c))"
    using leaf_changes [OF tabs ch(1) _ residentD(2) [OF r]] ch(2) by simp
  moreover have "pte (mem t) (pg_pagetable (pages s c)) (pg_vaddr (pages s c)) =
        pte (mem s) (pg_pagetable (pages s c)) (pg_vaddr (pages s c))"
    using pte_changes [OF tabs ch residentD(2,4) [OF r]] .
  ultimately show ?thesis using r pg by (simp add: resident_def)
qed

lemma resident_st64:
  assumes tabs: "tabs_ok own R (mem s)" and pt: "pt \<in> R" "leaf (mem s) pt va \<noteq> 0"
    and m: "mem t = st64 (mem s) (leaf (mem s) pt va) v"
    and pg: "pg_pagetable (pages t c) = pg_pagetable (pages s c)" "pg_vaddr (pages t c) = pg_vaddr (pages s c)"
    and r: "resident own R s c" and o: "own' (page_to_pa c) = own (page_to_pa c)"
    and v: "pg_pagetable (pages s c) = pt \<Longrightarrow> px_list (pg_vaddr (pages s c)) = px_list va \<Longrightarrow> bit v 0 \<and> PTE2PA v = page_to_pa c"
  shows "resident own' R t c"
  using r o pg pte_st64 [OF tabs pt residentD(2,4) [OF r], of v] leaf_st64 [OF tabs pt residentD(2) [OF r]] v
  unfolding resident_def m by (auto simp: Let_def)

lemma flist_pages: "(\<And>x. x \<in> set fs \<Longrightarrow> pg_aligned x \<and> page_eq x m' m) \<Longrightarrow> flist m' a fs = flist m a fs"
proof (induction fs arbitrary: a)
  case (Cons x fs)
  then have "ld64 m' (entry x 0) = ld64 m (entry x 0)" using ld64_page_cong by simp
  then show ?case using Cons by (simp add: entry_def)
qed simp

lemma ucontent_changes:
  assumes "changes own (mem s) (mem t) P" "bit e 0 \<Longrightarrow> own (PTE2PA e) \<notin> P"
    "\<not> bit e 0 \<Longrightarrow> i < PGSIZE \<Longrightarrow> slot_data t (pte_slot e) i = slot_data s (pte_slot e) i"
  shows "ucontent t e i = ucontent s e i"
  using mem_read_page [OF PTE2PA_aligned changes_page [OF assms(1)], of e i] assms(2,3) by (simp add: ucontent_def)

lemma uview_changes:
  assumes ok: "space_ok own sown R B (mem s)" and ch: "changes own (mem s) (mem t) P" "P \<subseteq> {Free, Bitmap, Held}"
    and sl: "\<And>k i. 0 \<le> k \<Longrightarrow> k < 7000 \<Longrightarrow> (\<exists>pt \<in> R. \<exists>va. swapped (mem s) pt va \<and> pte_slot (pte (mem s) pt va) = k) \<Longrightarrow>
          i < PGSIZE \<Longrightarrow> slot_data t k i = slot_data s k i"
  shows "paged R s t"
  unfolding paged_def
proof (intro ballI allI)
  fix pt va assume pt: "pt \<in> R"
  from ok have tabs: "tabs_ok own R (mem s)" by (simp add: space_ok_def)
  have P: "\<And>pt p. Table pt p \<notin> P" using ch(2) by auto
  have lf: "leaf (mem t) pt va = leaf (mem s) pt va" using leaf_changes [OF tabs ch(1) _ pt] P by simp
  show "uview t pt va = uview s pt va \<and> leaf (mem t) pt va = leaf (mem s) pt va \<and>
     (swapped (mem s) pt va \<longrightarrow> pte (mem t) pt va = pte (mem s) pt va)"
  proof (cases "leaf (mem s) pt va = 0")
    case False
    let ?e = "pte (mem s) pt va"
    have e: "pte (mem t) pt va = ?e" using pte_changes [OF tabs ch(1) P pt False] .
    have "ucontent t ?e i = ucontent s ?e i" if "bit ?e 0 \<or> bit ?e 9" for i
    proof (rule ucontent_changes [OF ch(1)])
      show "own (PTE2PA ?e) \<notin> P" if "bit ?e 0" using upagesD [OF ok pt False that] ch(2) by auto
      assume a: "\<not> bit ?e 0" "i < PGSIZE"
      then have "swapped (mem s) pt va" using False that by (simp add: swapped_def)
      then show "slot_data t (pte_slot ?e) i = slot_data s (pte_slot ?e) i"
        using sl slotsD(1,2) [OF ok pt] pt a(2) by blast
    qed
    then show ?thesis using lf e by (auto simp: uview_def Let_def)
  qed (simp add: uview_def lf swapped_def)
qed

text \<open>Replacing one entry.\<close>

lemma uview_st64:
  assumes ok: "space_ok own sown R B (mem s)" and pt: "pt \<in> R" "leaf (mem s) pt va \<noteq> 0"
    and m: "mem t = st64 (mem s) (leaf (mem s) pt va) v"
    and d: "\<And>k. slot_data t k = slot_data s k"
    and v: "uflags v = uflags (pte (mem s) pt va)" "bit (pte (mem s) pt va) 0 \<or> bit (pte (mem s) pt va) 9" "bit v 0 \<or> bit v 9"
      "ucontent t v = ucontent s (pte (mem s) pt va)"
  shows "same_views R s t"
  unfolding same_views_def
proof (intro ballI allI)
  fix pt' va' assume pt': "pt' \<in> R"
  from ok have tabs: "tabs_ok own R (mem s)" by (simp add: space_ok_def)
  have lf: "leaf (mem t) pt' va' = leaf (mem s) pt' va'" unfolding m using leaf_st64 [OF tabs pt pt'] .
  have ch: "changes own (mem s) (mem t) {Table pt [PX 2 va, PX 1 va]}" unfolding m using st64_leaf_changes [OF tabs pt] .
  show "uview t pt' va' = uview s pt' va'"
  proof (cases "leaf (mem s) pt' va' = 0")
    case False
    have e: "pte (mem t) pt' va' = (if pt' = pt \<and> px_list va' = px_list va then v else pte (mem s) pt' va')"
      unfolding m by (rule pte_st64 [OF tabs pt pt' False])
    show ?thesis
    proof (cases "pt' = pt \<and> px_list va' = px_list va")
      case True
      then have "pte (mem s) pt' va' = pte (mem s) pt va" using leaf_px [of va' va "mem s" pt] by (simp add: pte_def)
      moreover have "pte (mem t) pt' va' = v" using e True by simp
      ultimately show ?thesis using v False unfolding uview_def Let_def lf by simp
    next
      case n: False
      then have "pte (mem t) pt' va' = pte (mem s) pt' va'" using e by auto
      moreover have "ucontent t (pte (mem s) pt' va') i = ucontent s (pte (mem s) pt' va') i" for i
        using upagesD [OF ok pt' False] by (intro ucontent_changes [OF ch]) (auto simp: d)
      ultimately show ?thesis using lf by (simp add: uview_def Let_def fun_eq_iff)
    qed
  qed (simp add: uview_def lf)
qed

lemma paged_st64:
  assumes ok: "space_ok own sown R B (mem s)" and pt: "pt \<in> R" "leaf (mem s) pt va \<noteq> 0"
    and m: "mem t = st64 (mem s) (leaf (mem s) pt va) v"
    and d: "\<And>k. slot_data t k = slot_data s k"
    and v: "uflags v = uflags (pte (mem s) pt va)" "bit (pte (mem s) pt va) 0" "bit v 0 \<or> bit v 9"
      "ucontent t v = ucontent s (pte (mem s) pt va)"
  shows "paged R s t"
proof -
  from ok have tabs: "tabs_ok own R (mem s)" by (simp add: space_ok_def)
  have "leaf (mem t) pt' va' = leaf (mem s) pt' va'" if "pt' \<in> R" for pt' va'
    unfolding m using leaf_st64 [OF tabs pt that] .
  moreover have "pte (mem t) pt' va' = pte (mem s) pt' va'" if "pt' \<in> R" "swapped (mem s) pt' va'" for pt' va'
  proof -
    have "\<not> (pt' = pt \<and> px_list va' = px_list va)"
      using that(2) v(2) leaf_px [of va' va "mem s" pt] by (auto simp: swapped_def pte_def)
    then show ?thesis using that(2) pte_st64 [OF tabs pt that(1), of va' v] unfolding m by (auto simp: swapped_def)
  qed
  moreover have "same_views R s t" using v by (intro uview_st64 [OF ok pt m d]) auto
  ultimately show ?thesis by (simp add: paged_def same_views_def)
qed

section \<open>The free list\<close>

lemma kfree_spec:
  assumes "pg_aligned pa" "kend s \<le> pa" "pa < PHYSTOP" "Kmem_lock \<notin> set (held s)"
  shows "kfree pa s = Ok (s\<lparr>mem := st64 (mem_write (mem s) pa (\<lambda>_. 1) PGSIZE) pa (freelist s), freelist := pa\<rparr>)"
  using assms by (simp add: kfree_def pg_aligned_def memset_spec Let_def not_less not_le)

lemma kfree_changes:
  assumes "pg_aligned pa" "own pa = Free"
  shows "changes own m (st64 (mem_write m pa f PGSIZE) pa v) {Free}"
  using changes_trans [OF changes_write [of pa own "{Free}" m f] changes_st64 [of pa 0 own "{Free}" _ v]] assms
  by (simp add: entry_def)

lemma kfree_flist:
  assumes "pg_aligned pa" "pa \<noteq> 0" "pa \<notin> set fs" "flist m a fs" "\<And>x. x \<in> set fs \<Longrightarrow> pg_aligned x"
  shows "flist (st64 (mem_write m pa f PGSIZE) pa a) pa (pa # fs)"
proof -
  have "page_eq x (st64 (mem_write m pa f PGSIZE) pa a) m" if "x \<in> set fs" for x
    using page_eq_trans [OF st64_other [of pa 0 x _ a] mem_write_other [OF assms(1), of x m f]] assms(1,3) that
    by (auto simp: entry_def)
  then have "flist (st64 (mem_write m pa f PGSIZE) pa a) a fs = flist m a fs" using assms(5) by (intro flist_pages) auto
  then show ?thesis using assms by simp
qed

lemma kalloc_pop_spec:
  assumes "Kmem_lock \<notin> set (held s)" "flist (mem s) (freelist s) fs"
  shows "kalloc_pop s = Ok (case fs of [] \<Rightarrow> (0, s) | x # xs \<Rightarrow> (x, s\<lparr>freelist := ld64 (mem s) x\<rparr>))"
  using assms by (cases fs) (auto simp: kalloc_pop_def Let_def)

section \<open>Flags\<close>

lemma flag_bits: "bit (1 :: u64) n \<longleftrightarrow> n = 0" "bit (64 :: u64) n \<longleftrightarrow> n = 6" "bit (512 :: u64) n \<longleftrightarrow> n = 9"
  using bit_exp_iff [of 6 n, where ?'a = "64 word"] bit_exp_iff [of 9 n, where ?'a = "64 word"]
  by (auto simp: bit_1_iff)

lemma bit_uflags: "bit (uflags e) n \<longleftrightarrow> n < 10 \<and> bit e n \<and> n \<noteq> 0 \<and> n \<noteq> 6 \<and> n \<noteq> 9"
  by (simp only: uflags_def bit_and_iff bit_not_iff flag_bits bit_PTE_FLAGS possible_bit_word) auto

lemma uflags_eqI: "(\<And>n. n < 10 \<Longrightarrow> n \<noteq> 0 \<Longrightarrow> n \<noteq> 6 \<Longrightarrow> n \<noteq> 9 \<Longrightarrow> bit e n = bit e' n) \<Longrightarrow> uflags e = uflags e'"
  by (rule bit_eqI) (auto simp: bit_uflags)

lemma clear_A:
  "bit (e AND NOT PTE_A) n \<longleftrightarrow> bit e n \<and> n \<noteq> 6" "PTE2PA (e AND NOT PTE_A) = PTE2PA e"
  "uflags (e AND NOT PTE_A) = uflags e"
proof -
  show b: "bit (e AND NOT PTE_A) n \<longleftrightarrow> bit e n \<and> n \<noteq> 6" for n
    using bit_imp_le_length [of e n] by (simp only: bit_and_iff bit_not_iff flag_bits possible_bit_word) auto
  show "PTE2PA (e AND NOT PTE_A) = PTE2PA e"
    by (rule bit_eqI) (simp only: bit_PTE2PA b, auto)
  show "uflags (e AND NOT PTE_A) = uflags e" by (rule uflags_eqI) (simp only: b, simp)
qed

section \<open>Parts of the state\<close>

definition vm_same :: "'a vm_st_scheme \<Rightarrow> 'a vm_st_scheme \<Rightarrow> bool" where
  "vm_same s t \<longleftrightarrow> kend t = kend s \<and> freelist t = freelist s \<and> pages t = pages s \<and> lru_head t = lru_head s \<and>
     lru_tail t = lru_tail s \<and> swap_bitmap t = swap_bitmap s \<and> swap_slots t = swap_slots s"

lemma vm_same_io: "io_frame s t \<Longrightarrow> vm_same s t"
  by (cases s, cases t) (simp add: io_frame_def vm_same_def)

lemma vm_inv_same:
  assumes inv: "vm_inv own sown R xs fs s" and same: "vm_same s t"
    and ch: "changes own (mem s) (mem t) P" "Free \<notin> P \<and> (\<forall>pt p. Table pt p \<notin> P)"
    and ok: "space_ok own sown' R (swap_bitmap s) (mem t)"
  shows "vm_inv own sown' R xs fs t"
proof -
  note D = vm_invD [OF inv]
  have pg: "pages t = pages s" using same by (simp add: vm_same_def)
  have "resident own R t c" if "c \<in> set xs" for c
    using resident_changes [OF D(12) ch(1) _ _ _ D(10) [OF that]] pg ch(2) by simp
  moreover have "flist (mem t) (freelist s) fs"
    using D(2,6,8) changes_page [OF ch(1)] ch(2) by (subst flist_pages) auto
  moreover have "lru_list t xs" using D(9) same by (simp add: lru_list_def vm_same_def)
  moreover have "kend t = kend s" "freelist t = freelist s" "swap_bitmap t = swap_bitmap s" "swap_slots t = swap_slots s"
    using same by (simp_all add: vm_same_def)
  ultimately show ?thesis using inv ok unfolding vm_inv_def by simp
qed

lemma vm_inv_lru:
  assumes inv: "vm_inv own sown R xs fs s" and fr: "lru_frame s t" and l: "lru_list t ys"
    and res: "\<And>c. c \<in> set ys \<Longrightarrow> resident own R s c"
  shows "vm_inv own sown R ys fs t"
proof -
  from fr have t: "t = s\<lparr>pages := pages t, lru_head := lru_head t, lru_tail := lru_tail t\<rparr>" by (simp add: lru_frame_def)
  have f: "mem t = mem s" "kend t = kend s" "freelist t = freelist s" "swap_bitmap t = swap_bitmap s" "swap_slots t = swap_slots s"
    by (subst t, simp)+
  have "resident own R t c" if "c \<in> set ys" for c
    using res [OF that] fr f(1) by (simp add: resident_def lru_frame_def)
  then show ?thesis using inv l unfolding vm_inv_def f by blast
qed

lemma vm_inv_held [simp]: "vm_inv own sown R xs fs (s\<lparr>held := h\<rparr>) = vm_inv own sown R xs fs s"
  by (simp add: vm_inv_def resident_def lru_list_def)

lemma bview_held [simp]: "bview (s\<lparr>held := h\<rparr>) n = bview s n"
  by (rule bview_fields) simp_all

lemma uview_held [simp]: "uview (s\<lparr>held := h\<rparr>) pt va = uview s pt va"
  by (simp add: uview_def ucontent_def slot_data_def cong: if_cong)

section \<open>The clock\<close>

abbreviation page_pte :: "'a vm_st_scheme \<Rightarrow> nat \<Rightarrow> u64" where
  "page_pte s c \<equiv> pte (mem s) (pg_pagetable (pages s c)) (pg_vaddr (pages s c))"

definition clock_frame :: "owners \<Rightarrow> 'a vm_st_scheme \<Rightarrow> 'a vm_st_scheme \<Rightarrow> bool" where
  "clock_frame own s t \<longleftrightarrow> t = s\<lparr>mem := mem t, lru_head := lru_head t, lru_tail := lru_tail t\<rparr> \<and>
     changes own (mem s) (mem t) {t. \<exists>pt p. t = Table pt p}"

definition second_chance :: "nat \<Rightarrow> 'a vm_st_scheme \<Rightarrow> 'a vm_st_scheme" where
  "second_chance c s = s\<lparr>mem := st64 (mem s) (leaf (mem s) (pg_pagetable (pages s c)) (pg_vaddr (pages s c))) (page_pte s c AND NOT PTE_A),
     lru_head := pg_next (pages s c), lru_tail := Some c\<rparr>"

lemma clock_step_eq:
  assumes "resident own R s c"
  shows "clock_step (Some c, s) =
    (if bit (page_pte s c) 6 then Ok (Inl (pg_next (pages s c), second_chance c s)) else Ok (Inr (c, s)))"
  using residentD [OF assms] by (simp add: clock_step_def walk_None pte_def second_chance_def Let_def)

lemma changes_mono: "changes own m m' P \<Longrightarrow> P \<subseteq> Q \<Longrightarrow> changes own m m' Q"
  by (auto simp: changes_def)

lemma clock_frame_trans: "clock_frame own s t \<Longrightarrow> clock_frame own t u \<Longrightarrow> clock_frame own s u"
  using changes_trans unfolding clock_frame_def by (cases s, cases t, cases u) auto

lemma slot_data_fields: "bufs t = bufs s \<Longrightarrow> disk t = disk s \<Longrightarrow> slot_data t k = slot_data s k"
  using bview_fields [of t s] by (simp add: slot_data_def)

lemma second_chance_spec:
  assumes inv: "vm_inv own sown R (c # xs) fs s"
  shows "vm_inv own sown R (xs @ [c]) fs (second_chance c s)" "paged R s (second_chance c s)"
    "pg_next (pages s c) = Some (hd (xs @ [c]))" "clock_frame own s (second_chance c s)"
proof -
  note D = vm_invD [OF inv]
  let ?t = "second_chance c s" and ?pt = "pg_pagetable (pages s c)" and ?va = "pg_vaddr (pages s c)"
  have res: "resident own R s c" using D(10) by simp
  note r = residentD [OF res]
  have m: "mem ?t = st64 (mem s) (leaf (mem s) ?pt ?va) (page_pte s c AND NOT PTE_A)" by (simp add: second_chance_def)
  have ch: "changes own (mem s) (mem ?t) {Table ?pt [PX 2 ?va, PX 1 ?va]}"
    unfolding m by (rule st64_leaf_changes [OF D(12) r(2,4)])
  have f: "kend ?t = kend s" "freelist ?t = freelist s" "pages ?t = pages s" "swap_bitmap ?t = swap_bitmap s"
    "swap_slots ?t = swap_slots s" "lru_head ?t = pg_next (pages s c)" "lru_tail ?t = Some c" by (simp_all add: second_chance_def)
  show nx: "pg_next (pages s c) = Some (hd (xs @ [c]))"
    using ring_next_Cons [of "lnx s" "lpv s" c xs] D(9) by (simp add: lru_list_def hd_append)
  have "lru_list ?t (xs @ [c])" using D(9) ring_rotate1 [of "lnx s" "lpv s" c xs] nx f by (simp add: lru_list_def)
  moreover have "resident own R ?t d" if "d \<in> set (xs @ [c])" for d
  proof (rule resident_st64 [OF D(12) r(2,4) m _ _ D(10)])
    show "d \<in> set (c # xs)" using that by auto
    then have d: "resident own R s d" using D(10) by blast
    assume e: "pg_pagetable (pages s d) = ?pt" "px_list (pg_vaddr (pages s d)) = px_list ?va"
    then have "page_pte s d = page_pte s c" using leaf_px [OF e(2)] by (simp add: pte_def)
    then show "bit (page_pte s c AND NOT PTE_A) 0 \<and> PTE2PA (page_pte s c AND NOT PTE_A) = page_to_pa d"
      using residentD(5,6) [OF d] by (simp only: clear_A) simp
  qed (simp_all add: f)
  moreover have "space_ok own sown R (swap_bitmap s) (mem ?t)"
    unfolding m using r upagesD [OF D(3) r(2,4,5)] by (intro space_st64 [OF D(3) r(2,4) D(4,11)]) (simp_all only: clear_A, simp_all)
  moreover have "flist (mem ?t) (freelist s) fs"
    using D(2,6,8) changes_page [OF ch] by (subst flist_pages) auto
  ultimately show "vm_inv own sown R (xs @ [c]) fs ?t" using inv unfolding vm_inv_def f by blast
  show "paged R s ?t"
  proof (rule paged_st64 [OF D(3) r(2,4) m])
    show "slot_data ?t k = slot_data s k" for k by (rule slot_data_fields) (simp_all add: second_chance_def)
    then show "ucontent ?t (page_pte s c AND NOT PTE_A) = ucontent s (page_pte s c)"
    proof (intro ext, goal_cases)
      case (1 i)
      have "ucontent ?t (page_pte s c) i = ucontent s (page_pte s c) i"
        using r by (intro ucontent_changes [OF ch]) auto
      moreover have "ucontent ?t (page_pte s c AND NOT PTE_A) = ucontent ?t (page_pte s c)"
        using r(5) by (simp only: ucontent_def clear_A) (simp cong: if_cong)
      ultimately show ?case by simp
    qed
  qed (use r in \<open>simp_all only: clear_A, simp_all\<close>)
  show "clock_frame own s ?t" using changes_mono [OF ch] by (auto simp: clock_frame_def second_chance_def)
qed

definition accessed :: "nat set \<Rightarrow> 'a vm_st_scheme \<Rightarrow> nat set" where
  "accessed A s = {c \<in> A. bit (page_pte s c) 6}"

lemma accessed_second_chance:
  assumes inv: "vm_inv own sown R (c # xs) fs s" and A: "bit (page_pte s c) 6"
  shows "accessed (set (c # xs)) (second_chance c s) \<subset> accessed (set (c # xs)) s"
proof -
  note D = vm_invD [OF inv]
  have r: "resident own R s d" if "d \<in> set (c # xs)" for d using D(10) that by blast
  note rc = residentD [OF r [of c, simplified]]
  have e: "page_pte (second_chance c s) d = (if pg_pagetable (pages s d) = pg_pagetable (pages s c) \<and>
      px_list (pg_vaddr (pages s d)) = px_list (pg_vaddr (pages s c)) then page_pte s c AND NOT PTE_A else page_pte s d)"
    if "d \<in> set (c # xs)" for d
    using pte_st64 [OF D(12) rc(2,4) residentD(2,4) [OF r [OF that]]] by (simp add: second_chance_def)
  have "accessed (set (c # xs)) (second_chance c s) \<subseteq> accessed (set (c # xs)) s"
    using e clear_A(1) unfolding accessed_def by (auto split: if_splits)
  moreover have "c \<in> accessed (set (c # xs)) s" "c \<notin> accessed (set (c # xs)) (second_chance c s)"
    using A e [of c] clear_A(1) [of "page_pte s c" 6] by (auto simp: accessed_def)
  ultimately show ?thesis by blast
qed

text \<open>The search ends, at the head of the list, with a page whose accessed bit is clear.\<close>

lemma clock_spec:
  assumes inv: "vm_inv own sown R xs fs s" and ne: "xs \<noteq> []"
  obtains v ys t where "loopr clock_step (lru_head s, s) = Ok (v, t)" "vm_inv own sown R ys fs t" "v \<in> set ys"
    "clock_frame own s t" "paged R s t"
proof -
  define I where "I = (\<lambda>(cand, u). \<exists>ys. vm_inv own sown R ys fs u \<and> ys \<noteq> [] \<and> cand = Some (hd ys) \<and> set ys = set xs \<and>
    clock_frame own s u \<and> paged R s u)"
  define Q where "Q = (\<lambda>(v, t). \<exists>ys. vm_inv own sown R ys fs t \<and> v \<in> set ys \<and> clock_frame own s t \<and> paged R s t)"
  have "\<exists>x. loopr clock_step (lru_head s, s) = Ok x \<and> Q x"
  proof (rule loopr_total [where I = I and R = "measure (\<lambda>(_, u). card (accessed (set xs) u))"])
    show "I (lru_head s, s)" using inv ne vm_invD(9) [OF inv] by (auto simp: I_def lru_list_def clock_frame_def)
    fix cu assume "I cu"
    then obtain c zs u where cu: "cu = (Some c, u)" and i: "vm_inv own sown R (c # zs) fs u" "set (c # zs) = set xs"
      "clock_frame own s u" "paged R s u"
      by (auto simp: I_def neq_Nil_conv split: prod.splits)
    have res: "resident own R u c" using vm_invD(10) [OF i(1)] by simp
    note sc = second_chance_spec [OF i(1)]
    show "(\<exists>t. clock_step cu = Ok (Inl t) \<and> I t \<and> (t, cu) \<in> measure (\<lambda>(_, u). card (accessed (set xs) u))) \<or>
          (\<exists>x. clock_step cu = Ok (Inr x) \<and> Q x)"
    proof (cases "bit (page_pte u c) 6")
      case True
      have "card (accessed (set xs) (second_chance c u)) < card (accessed (set xs) u)"
        using psubset_card_mono [OF _ accessed_second_chance [OF i(1) True]] unfolding i(2) by (simp add: accessed_def)
      moreover have "I (pg_next (pages u c), second_chance c u)"
        unfolding I_def prod.case
        by (intro exI [of _ "zs @ [c]"] conjI sc paged_trans [OF i(4) sc(2)] clock_frame_trans [OF i(3) sc(4)])
          (use i(2) in auto)
      ultimately show ?thesis using clock_step_eq [OF res] True cu by auto
    next
      case False
      then show ?thesis using clock_step_eq [OF res] cu i by (auto simp: Q_def intro!: exI [of _ "c # zs"])
    qed
  qed simp
  then show thesis using that unfolding Q_def by auto
qed

section \<open>Entries of swapped pages\<close>

lemma pte_slot_shift:
  assumes "PTE2PA e = push_bit 12 (of_nat j)" "j < 7000"
  shows "pte_slot e = int j"
proof -
  have "unat (push_bit 12 (of_nat j) :: u64) = j * 4096"
    using assms(2) by (simp add: push_bit_eq_mult unat_word_ariths unat_of_nat_u64)
  then have "PTE2PA e div PGSIZE = of_nat j"
    using assms by (simp add: word_unat_eq_iff unat_div unat_of_nat_u64)
  then show ?thesis using assms(2) by (simp add: pte_slot_def unsigned_of_nat signed_of_nat signed_take_bit_int_eq_self take_bit_nat_eq_self)
qed

definition swap_entry :: "int \<Rightarrow> u64 \<Rightarrow> u64" where
  "swap_entry k e = push_bit 10 (word_of_int k) OR ((PTE_FLAGS e AND NOT PTE_V) AND NOT PTE_A) OR PTE_SWAPPED"

lemma bit_swap_entry:
  "bit (swap_entry k e) n \<longleftrightarrow>
     10 \<le> n \<and> n < 64 \<and> bit (word_of_int k :: u64) (n - 10) \<or> n < 10 \<and> bit e n \<and> n \<noteq> 0 \<and> n \<noteq> 6 \<or> n = 9"
  by (simp only: swap_entry_def bit_or_iff bit_and_iff bit_not_iff flag_bits bit_PTE_FLAGS bit_push_bit_iff possible_bit_word) auto

lemma swap_entry_spec:
  assumes "0 \<le> k" "k < 7000"
  shows "\<not> bit (swap_entry k e) 0" "bit (swap_entry k e) 9" "pte_slot (swap_entry k e) = k"
    "uflags (swap_entry k e) = uflags e"
proof -
  show "\<not> bit (swap_entry k e) 0" "bit (swap_entry k e) 9" by (simp_all add: bit_swap_entry)
  have "PTE2PA (swap_entry k e) = push_bit 12 (word_of_int k)"
    by (rule bit_eqI) (simp only: bit_PTE2PA bit_swap_entry bit_push_bit_iff possible_bit_word, auto)
  then have "PTE2PA (swap_entry k e) = push_bit 12 (of_nat (nat k))" using assms by simp
  from pte_slot_shift [OF this] show "pte_slot (swap_entry k e) = k" using assms by simp
  show "uflags (swap_entry k e) = uflags e" by (rule uflags_eqI) (simp add: bit_swap_entry)
qed

section \<open>Frames\<close>

text \<open>The pages paging does not write to, beyond those it is given: the kernel's own and those it shares.\<close>

fun kept_owner :: "owner \<Rightarrow> bool" where
  "kept_owner Held = True"
| "kept_owner Other = True"
| "kept_owner Kern = True"
| "kept_owner (Shared pt p) = True"
| "kept_owner _ = False"

definition pg_frame :: "owners \<Rightarrow> owners \<Rightarrow> 'a vm_st_scheme \<Rightarrow> 'a vm_st_scheme \<Rightarrow> bool" where
  "pg_frame own own' s t \<longleftrightarrow>
     held t = held s \<and> cur t = cur s \<and> kend t = kend s \<and> swap_bitmap t = swap_bitmap s \<and>
     kernel_pagetable t = kernel_pagetable s \<and> vm_st.more t = vm_st.more s \<and>
     (\<forall>p. \<exists>st. ptab t p = (ptab s p)\<lparr>p_state := st\<rparr>) \<and>
     (\<forall>x. kept_owner (own (PGROUNDDOWN x)) \<longrightarrow> mem t x = mem s x) \<and>
     (\<forall>a. own' a \<noteq> own a \<longrightarrow> own' a = Free \<and> (\<exists>pt p. own a = Upage pt p))"

lemma pg_frame_refl: "pg_frame own own s s"
  by (simp add: pg_frame_def) (metis proc.surjective proc.update_convs(1))

lemma pg_frame_trans:
  assumes "pg_frame own own' s t" "pg_frame own' own'' t u"
  shows "pg_frame own own'' s u"
proof -
  have "\<exists>st. ptab u p = (ptab s p)\<lparr>p_state := st\<rparr>" for p
  proof -
    obtain a b where "ptab t p = (ptab s p)\<lparr>p_state := a\<rparr>" "ptab u p = (ptab t p)\<lparr>p_state := b\<rparr>"
      using assms unfolding pg_frame_def by meson
    then show ?thesis by auto
  qed
  moreover have "mem u x = mem s x" if "kept_owner (own (PGROUNDDOWN x))" for x
  proof -
    have "own' (PGROUNDDOWN x) = own (PGROUNDDOWN x)" using assms(1) that unfolding pg_frame_def by fastforce
    then show ?thesis using assms that unfolding pg_frame_def by auto
  qed
  moreover have "own'' a = Free \<and> (\<exists>pt p. own a = Upage pt p)" if "own'' a \<noteq> own a" for a
    using assms that unfolding pg_frame_def by (metis owner.distinct(3))
  ultimately show ?thesis using assms unfolding pg_frame_def by simp
qed

lemma pg_frame_mem:
  assumes "changes own (mem s) m P" "\<forall>w \<in> P. \<not> kept_owner w"
  shows "pg_frame own own s (s\<lparr>mem := m\<rparr>)"
  using assms pg_frame_refl [of own s] unfolding pg_frame_def changes_def by auto

lemma pg_frame_io: "io_frame s t \<Longrightarrow> mem t = mem s \<Longrightarrow> pg_frame own own s t"
  by (cases s, cases t) (simp add: io_frame_def pg_frame_def)

section \<open>Steps of an eviction\<close>

lemma vm_inv_kfree:
  assumes inv: "vm_inv own sown R xs fs s" and pa: "own pa = Free" "pa \<notin> set fs" and h: "Kmem_lock \<notin> set (held s)"
  obtains t where "kfree pa s = Ok t" "vm_inv own sown R xs (pa # fs) t" "paged R s t" "pg_frame own own s t"
    "pages t = pages s" "bufs t = bufs s" "slocks t = slocks s" "disk t = disk s"
proof -
  note D = vm_invD [OF inv]
  have fr: "pg_aligned pa" "kend s \<le> pa" "pa < PHYSTOP" using D(2) [of pa] pa(1) by auto
  have pa0: "pa \<noteq> 0" using fr(2) D(1) by (auto dest: order.trans)
  define t where "t = s\<lparr>mem := st64 (mem_write (mem s) pa (\<lambda>_. 1) PGSIZE) pa (freelist s), freelist := pa\<rparr>"
  have ch: "changes own (mem s) (mem t) {Free}" using kfree_changes [of pa own] fr(1) pa(1) by (simp add: t_def)
  have f: "kend t = kend s" "freelist t = pa" "pages t = pages s" "swap_bitmap t = swap_bitmap s" "swap_slots t = swap_slots s"
    by (simp_all add: t_def)
  have "resident own R t c" if "c \<in> set xs" for c
    using resident_changes [OF D(12) ch _ _ _ D(10) [OF that]] f(3) by simp
  moreover have "flist (mem t) pa (pa # fs)"
    using kfree_flist [OF fr(1) pa0 pa(2) D(6)] D(2,8) by (auto simp: t_def)
  moreover have "lru_list t xs" using D(9) by (simp add: lru_list_def t_def)
  moreover have "space_ok own sown R (swap_bitmap s) (mem t)" using space_free [OF D(3) ch D(4,11)] .
  ultimately have "vm_inv own sown R xs (pa # fs) t" using inv pa unfolding vm_inv_def f by simp
  moreover have "paged R s t"
    using slot_data_fields [of t s] by (intro uview_changes [OF D(3) ch]) (simp_all add: t_def)
  moreover have "pg_frame own own s t" using pg_frame_mem [OF ch] by (simp add: pg_frame_def t_def)
  moreover have "kfree pa s = Ok t" using kfree_spec [OF fr h] by (simp add: t_def)
  ultimately show thesis using that f(3) by (simp add: t_def)
qed

lemma vm_inv_upd_page:
  assumes inv: "vm_inv own sown R xs fs s" and v: "v \<notin> set xs"
    and f: "\<And>p. pg_next (f p) = pg_next p" "\<And>p. pg_prev (f p) = pg_prev p"
  shows "vm_inv own sown R xs fs (upd_page v f s)" "paged R s (upd_page v f s)" "pg_frame own own s (upd_page v f s)"
proof -
  have "lnx (upd_page v f s) = lnx s" "lpv (upd_page v f s) = lpv s" by (auto simp: upd_page_def f)
  then have "lru_list (upd_page v f s) xs = lru_list s xs" unfolding lru_list_def by (auto simp: upd_page_def f)
  moreover have "resident own R (upd_page v f s) c = resident own R s c" if "c \<in> set xs" for c
    using v that by (auto simp: resident_def upd_page_def)
  ultimately show "vm_inv own sown R xs fs (upd_page v f s)" using inv unfolding vm_inv_def by (simp add: upd_page_def)
  have "slot_data (upd_page v f s) k = slot_data s k" for k by (rule slot_data_fields) (simp_all add: upd_page_def)
  then show "paged R s (upd_page v f s)"
    by (intro uview_changes [OF vm_invD(3) [OF inv], where P = "{}"]) (simp_all add: upd_page_def)
  show "pg_frame own own s (upd_page v f s)" using pg_frame_refl [of own s] by (simp add: pg_frame_def upd_page_def)
qed

lemma slot_data_other:
  assumes "0 \<le> k" "k < 7000" "0 \<le> k'" "k' < 7000" "k \<noteq> k'" "i < PGSIZE"
    and "\<And>m. m \<noteq> 0 \<Longrightarrow> m \<notin> swap_blk k ` {..<4} \<Longrightarrow> bview t m = bview s m"
  shows "slot_data t k' i = slot_data s k' i"
proof -
  have "i div BSIZE < 4" using assms(6) by simp
  then have "swap_blk k' (i div BSIZE) \<notin> swap_blk k ` {..<4}" "swap_blk k' (i div BSIZE) \<noteq> 0"
    using swap_blk_eq_iff [OF assms(3,4) _ assms(1,2)] swap_blk_in_swap [OF assms(3,4)] assms(5) by auto
  then show ?thesis using assms(7) by (simp add: slot_data_def)
qed

text \<open>The entry of a resident page is turned into one that names its slot.\<close>

lemma vm_inv_unmap:
  assumes inv: "vm_inv own sown R xs fs s" and v: "resident own R s v" "v \<notin> set xs"
    and k: "0 \<le> k" "k < 7000" "slot_bit (mem s) (swap_bitmap s) (nat k)"
      "sown k = (pg_pagetable (pages s v), px_list (pg_vaddr (pages s v)))"
    and d: "\<And>i. i < PGSIZE \<Longrightarrow> slot_data s k i = mem_read (mem s) (page_to_pa v) i"
    and t: "t = s\<lparr>mem := st64 (mem s) (leaf (mem s) (pg_pagetable (pages s v)) (pg_vaddr (pages s v))) (swap_entry k (page_pte s v))\<rparr>"
  shows "vm_inv (own(page_to_pa v := Free)) sown R xs fs t" "paged R s t" "pg_frame own (own(page_to_pa v := Free)) s t"
proof -
  note D = vm_invD [OF inv] and r = residentD [OF v(1)] and e = swap_entry_spec [OF k(1,2), of "page_pte s v"]
  let ?own = "own(page_to_pa v := Free)" and ?pt = "pg_pagetable (pages s v)" and ?va = "pg_vaddr (pages s v)"
  have m: "mem t = st64 (mem s) (leaf (mem s) ?pt ?va) (swap_entry k (page_pte s v))" by (simp add: t)
  have ch: "changes own (mem s) (mem t) {Table ?pt [PX 2 ?va, PX 1 ?va]}"
    unfolding m by (rule st64_leaf_changes [OF D(12) r(2,4)])
  have f: "kend t = kend s" "freelist t = freelist s" "pages t = pages s" "swap_bitmap t = swap_bitmap s" "swap_slots t = swap_slots s"
    by (simp_all add: t)
  have "resident ?own R t c" if "c \<in> set xs" for c
  proof (rule resident_st64 [OF D(12) r(2,4) m _ _ D(10) [OF that]])
    note rc = residentD [OF D(10) [OF that]]
    have ne: "page_to_pa c \<noteq> page_to_pa v" using page_to_pa_inj [OF rc(1) r(1)] v(2) that by auto
    then show "?own (page_to_pa c) = own (page_to_pa c)" by simp
    assume a: "pg_pagetable (pages s c) = ?pt" "px_list (pg_vaddr (pages s c)) = px_list ?va"
    then have "page_pte s c = page_pte s v" using leaf_px [OF a(2)] by (simp add: pte_def)
    with ne rc(6) r(6) show "bit (swap_entry k (page_pte s v)) 0 \<and> PTE2PA (swap_entry k (page_pte s v)) = page_to_pa c" by simp
  qed (simp_all add: f)
  moreover have "space_ok ?own sown R (swap_bitmap s) (mem t)"
    unfolding m using r(7) k e by (intro space_st64 [OF D(3) r(2,4) D(4,11)]) (auto split: if_splits)
  moreover have "flist (mem t) (freelist s) fs"
    using D(2,6,8) changes_page [OF ch] by (subst flist_pages) auto
  moreover have "lru_list t xs" using D(9) by (simp add: lru_list_def t)
  moreover have "?own (swap_bitmap s) = Bitmap" "\<forall>a \<in> set fs. ?own a = Free" using D(4,8) r(7) by auto
  moreover have "\<forall>a. ?own a \<noteq> Kern \<longrightarrow> pg_aligned a \<and> kend s \<le> a \<and> a < PHYSTOP" using D(2) r(7) by auto
  ultimately show "vm_inv ?own sown R xs fs t" using inv unfolding vm_inv_def f by blast
  have sd: "slot_data t j = slot_data s j" for j by (rule slot_data_fields) (simp_all add: t)
  show "paged R s t"
  proof (rule paged_st64 [OF D(3) r(2,4) m sd])
    show "ucontent t (swap_entry k (page_pte s v)) = ucontent s (page_pte s v)"
      using e r(5,6) d by (intro ext) (simp add: ucontent_def sd)
  qed (use e r in simp_all)
  show "pg_frame own ?own s t" using pg_frame_mem [OF ch] r(7) by (simp add: pg_frame_def t)
qed

lemma evict_unfold:
  "evict v k s = bindr (swapwrite (page_to_pa v) k s) (\<lambda>s.
     bindr (walk0 (pg_pagetable (pages s v)) (pg_vaddr (pages s v)) s) (\<lambda>(pte, s).
     if pte = 0 then Panic ''swapout: pte vanished''
     else bindr (kfree (page_to_pa v) (s\<lparr>mem := st64 (mem s) pte (swap_entry k (ld64 (mem s) pte))\<rparr>)) (\<lambda>s.
       Ok (0, upd_page v (\<lambda>p. p\<lparr>pg_pagetable := 0, pg_vaddr := 0\<rparr>) s))))"
  by (simp only: evict_def Let_def swap_entry_def)

lemma evict_spec:
  assumes inv: "vm_inv own sown R xs fs s" and v: "resident own R s v" "v \<notin> set xs" and rdy: "swap_ready s"
    and k: "0 \<le> k" "k < 7000" "slot_bit (mem s) (swap_bitmap s) (nat k)"
      "sown k = (pg_pagetable (pages s v), px_list (pg_vaddr (pages s v)))"
    and unused: "\<And>pt va. pt \<in> R \<Longrightarrow> swapped (mem s) pt va \<Longrightarrow> pte_slot (pte (mem s) pt va) \<noteq> k"
  obtains t where "evict v k s = Ok (0, t)" "vm_inv (own(page_to_pa v := Free)) sown R xs (page_to_pa v # fs) t"
    "swap_ready t" "paged R s t" "pg_frame own (own(page_to_pa v := Free)) s t"
proof -
  note D = vm_invD [OF inv] and r = residentD [OF v(1)]
  let ?own = "own(page_to_pa v := Free)"
  from swapwrite_spec [OF k(1,2) rdy, of "page_to_pa v"] obtain s1 where
    w: "swapwrite (page_to_pa v) k s = Ok s1" "swap_ready s1" "io_frame s s1" "mem s1 = mem s"
      "\<And>i. i < PGSIZE \<Longrightarrow> slot_data s1 k i = mem_read (mem s) (page_to_pa v) i"
      "\<And>m. m \<noteq> 0 \<Longrightarrow> m \<notin> swap_blk k ` {..<4} \<Longrightarrow> bview s1 m = bview s m" by blast
  have s1: "pages s1 = pages s" "swap_bitmap s1 = swap_bitmap s" using vm_same_io [OF w(3)] by (simp_all add: vm_same_def)
  have i1: "vm_inv own sown R xs fs s1" using vm_inv_same [OF inv vm_same_io [OF w(3)], of "{}"] D(3) by (simp add: w(4))
  have v1: "paged R s s1"
  proof (rule uview_changes [OF D(3)])
    show "changes own (mem s) (mem s1) {}" by (simp add: w(4))
    show "slot_data s1 k' i = slot_data s k' i"
      if "0 \<le> k'" "k' < 7000" "\<exists>pt \<in> R. \<exists>va. swapped (mem s) pt va \<and> pte_slot (pte (mem s) pt va) = k'" "i < PGSIZE" for k' i
      using slot_data_other [OF k(1,2) that(1,2) _ that(4) w(6)] unused that(3) by blast
  qed simp
  have res: "resident own R s1 v" using v(1) by (simp add: resident_def w(4) s1)
  define s2 where "s2 = s1\<lparr>mem := st64 (mem s1) (leaf (mem s1) (pg_pagetable (pages s1 v)) (pg_vaddr (pages s1 v))) (swap_entry k (page_pte s1 v))\<rparr>"
  note u = vm_inv_unmap [OF i1 res v(2) k(1,2) _ _ _ s2_def]
  have i2: "vm_inv ?own sown R xs fs s2" and v2: "paged R s1 s2" and f2: "pg_frame own ?own s1 s2"
    using u k w(4,5) s1 by auto
  have h: "held s = []" using rdy by (simp add: swap_ready_def ready_def)
  have h2: "held s2 = []" using h f2 w(3) by (simp add: pg_frame_def io_frame_def)
  have pa: "page_to_pa v \<notin> set fs" using D(8) r(7) by auto
  obtain s3 where s3: "kfree (page_to_pa v) s2 = Ok s3" "vm_inv ?own sown R xs (page_to_pa v # fs) s3" "paged R s2 s3"
    "pg_frame ?own ?own s2 s3" "pages s3 = pages s2" "bufs s3 = bufs s2" "slocks s3 = slocks s2" "disk s3 = disk s2"
    using vm_inv_kfree [OF i2 _ pa] h2 by auto
  define t where "t = upd_page v (\<lambda>p. p\<lparr>pg_pagetable := 0, pg_vaddr := 0\<rparr>) s3"
  have t4: "vm_inv ?own sown R xs (page_to_pa v # fs) t" "paged R s3 t" "pg_frame ?own ?own s3 t"
    unfolding t_def by (rule vm_inv_upd_page [OF s3(2) v(2)]; simp)+
  have "evict v k s = Ok (0, t)"
    using w(1) s3(1) residentD(3,4) [OF res]
    by (simp add: evict_unfold walk_None pte_def s2_def t_def not_le del: bindr_Ok_iff)
  moreover have "swap_ready t"
    using w(2) by (rule iffD2 [OF swap_ready_cong, rotated -1])
      (use h h2 s3 f2 t4(3) w(3) in \<open>simp_all add: t_def upd_page_def s2_def pg_frame_def\<close>)
  moreover have "paged R s t" using v1 v2 s3(3) t4(2) paged_trans by meson
  moreover have "pg_frame own ?own s t"
    using pg_frame_trans [OF pg_frame_io [OF w(3,4)]] pg_frame_trans [OF f2] pg_frame_trans [OF s3(4) t4(3)] by blast
  ultimately show thesis using that t4(1) by blast
qed

section \<open>Slots\<close>

lemma space_sown:
  assumes "space_ok own sown R B m" "\<And>pt va. pt \<in> R \<Longrightarrow> swapped m pt va \<Longrightarrow> pte_slot (pte m pt va) \<noteq> k"
  shows "space_ok own (sown(k := x)) R B m"
  using assms unfolding space_ok_def slots_ok_def by (auto simp: Let_def)

lemma slot_byte_page: "pg_aligned (swap_bitmap s) \<Longrightarrow> i < 32768 \<Longrightarrow> PGROUNDDOWN (slot_byte s i) = swap_bitmap s"
  unfolding slot_byte_def by (rule page_offset) (simp_all add: word_less_nat_alt unat_of_nat_u64)

text \<open>A slot handed out by \<open>alloc_swap_slot\<close> is in range, marked, and no entry names it.\<close>

lemma alloc_slot_inv:
  assumes inv: "vm_inv own sown R xs fs s" and h: "Swap_lock \<notin> set (held s)"
  obtains "alloc_swap_slot s = Ok (-1, s)"
  | k t where "alloc_swap_slot s = Ok (k, t)" "0 \<le> k" "k < 7000" "slot_bit (mem t) (swap_bitmap t) (nat k)"
    "\<And>pt va. pt \<in> R \<Longrightarrow> swapped (mem t) pt va \<Longrightarrow> pte_slot (pte (mem t) pt va) \<noteq> k"
    "\<And>x. vm_inv own (sown(k := x)) R xs fs t" "paged R s t" "t = s\<lparr>mem := mem t\<rparr>"
    "changes own (mem s) (mem t) {Bitmap}"
proof -
  note D = vm_invD [OF inv]
  let ?f = "find (\<lambda>i. \<not> slot_bit (mem s) (swap_bitmap s) i) [0..<unat (swap_slots s)]"
  note a = alloc_swap_slot_spec [OF h]
  show thesis
  proof (cases ?f)
    case None
    then show thesis using a that(1) by simp
  next
    case (Some i)
    then have i: "i < 7000" "\<not> slot_bit (mem s) (swap_bitmap s) i" using D(5) by (auto simp: find_Some_iff)
    define t where "t = s\<lparr>mem := (mem s)(slot_byte s i := mem s (slot_byte s i) OR 2 ^ (i mod 8))\<rparr>"
    have bits: "slot_bit (mem t) (swap_bitmap s) j \<longleftrightarrow> j = i \<or> slot_bit (mem s) (swap_bitmap s) j" if "j < 7000" for j
      using slot_bit_set [of i j "mem s" "swap_bitmap s"] i(1) that by (simp add: t_def slot_byte_def)
    have ch: "changes own (mem s) (mem t) {Bitmap}"
      using changes_byte [of own "slot_byte s i" "{Bitmap}"] slot_byte_page [OF D(11), of i] D(4) i(1) by (simp add: t_def)
    have ok: "space_ok own sown R (swap_bitmap s) (mem t)"
    proof (rule space_changes [OF D(3) ch])
      fix pt va assume a: "pt \<in> R" "swapped (mem s) pt va"
      then show "slot_bit (mem t) (swap_bitmap s) (nat (pte_slot (pte (mem s) pt va)))"
        using bits slotsD [OF D(3) a] by simp
    qed simp
    have un: "pte_slot (pte (mem t) pt va) \<noteq> int i" if "pt \<in> R" "swapped (mem t) pt va" for pt va
    proof -
      have sw: "swapped (mem s) pt va" using swapped_changes [OF D(12) ch] that by simp
      then have "pte (mem t) pt va = pte (mem s) pt va" using pte_changes [OF D(12) ch _ that(1)] by (simp add: swapped_def)
      then show ?thesis using slotsD [OF D(3) that(1) sw] i(2) by auto
    qed
    have "vm_inv own (sown(int i := x)) R xs fs t" for x
      using vm_inv_same [OF inv _ ch _ space_sown [OF ok un]] by (simp add: vm_same_def t_def)
    moreover have "paged R s t"
      using slot_data_fields [of t s] by (intro uview_changes [OF D(3) ch]) (simp_all add: t_def)
    moreover have "alloc_swap_slot s = Ok (int i, t)" using a Some by (simp add: t_def)
    ultimately show thesis using that(2) [of "int i" t] i(1) bits [of i] un ch by (simp add: t_def)
  qed
qed

section \<open>swapout\<close>

lemma swap_ready_held: "swap_ready s \<Longrightarrow> held s = []"
  by (simp add: swap_ready_def ready_def)

lemma swap_ready_fields:
  assumes "swap_ready s" "bufs t = bufs s" "slocks t = slocks s" "disk t = disk s" "held t = []" "cur t = cur s"
  shows "swap_ready t"
  using assms swap_ready_held [OF assms(1)] swap_ready_cong [of t s] by simp

lemma pg_frame_fields:
  assumes "changes own (mem s) (mem t) P" "\<forall>w \<in> P. \<not> kept_owner w" "held t = held s" "cur t = cur s" "kend t = kend s"
    "swap_bitmap t = swap_bitmap s" "kernel_pagetable t = kernel_pagetable s" "vm_st.more t = vm_st.more s" "ptab t = ptab s"
  shows "pg_frame own own s t"
  using pg_frame_mem [OF assms(1,2)] assms(3-) by (simp add: pg_frame_def)

lemma lru_frame_fields:
  assumes "lru_frame s t"
  shows "mem t = mem s" "held t = held s" "cur t = cur s" "bufs t = bufs s" "slocks t = slocks s" "disk t = disk s"
    "ptab t = ptab s" "kend t = kend s" "swap_bitmap t = swap_bitmap s" "kernel_pagetable t = kernel_pagetable s"
    "vm_st.more t = vm_st.more s" "freelist t = freelist s" "swap_slots t = swap_slots s"
proof -
  from assms have t: "t = s\<lparr>pages := pages t, lru_head := lru_head t, lru_tail := lru_tail t\<rparr>" by (simp add: lru_frame_def)
  show "mem t = mem s" "held t = held s" "cur t = cur s" "bufs t = bufs s" "slocks t = slocks s" "disk t = disk s"
    "ptab t = ptab s" "kend t = kend s" "swap_bitmap t = swap_bitmap s" "kernel_pagetable t = kernel_pagetable s"
    "vm_st.more t = vm_st.more s" "freelist t = freelist s" "swap_slots t = swap_slots s"
    by (subst t, simp)+
qed

lemma clock_frame_fields:
  assumes "clock_frame own s t"
  shows "held t = held s" "cur t = cur s" "bufs t = bufs s" "slocks t = slocks s" "disk t = disk s"
    "ptab t = ptab s" "kend t = kend s" "swap_bitmap t = swap_bitmap s" "kernel_pagetable t = kernel_pagetable s"
    "vm_st.more t = vm_st.more s"
proof -
  from assms have t: "t = s\<lparr>mem := mem t, lru_head := lru_head t, lru_tail := lru_tail t\<rparr>" by (simp add: clock_frame_def)
  show "held t = held s" "cur t = cur s" "bufs t = bufs s" "slocks t = slocks s" "disk t = disk s"
    "ptab t = ptab s" "kend t = kend s" "swap_bitmap t = swap_bitmap s" "kernel_pagetable t = kernel_pagetable s"
    "vm_st.more t = vm_st.more s"
    by (subst t, simp)+
qed

lemma uview_fields:
  "mem t = mem s \<Longrightarrow> bufs t = bufs s \<Longrightarrow> disk t = disk s \<Longrightarrow> uview t pt va = uview s pt va"
  using slot_data_fields [of t s] by (simp add: uview_def ucontent_def Let_def cong: if_cong)

text \<open>The first half: a victim is chosen and taken off the list.\<close>

lemma choose_victim:
  assumes inv: "vm_inv own sown R xs fs s" and rdy: "swap_ready s" and ne: "xs \<noteq> []"
  obtains v t1 t2 zs where "loopr clock_step (lru_head s, s\<lparr>held := [Lru_lock]\<rparr>) = Ok (v, t1)" "lru_remove v t1 = Ok t2"
    "held t2 = [Lru_lock]" "vm_inv own sown R zs fs (t2\<lparr>held := []\<rparr>)" "resident own R (t2\<lparr>held := []\<rparr>) v" "v \<notin> set zs"
    "swap_ready (t2\<lparr>held := []\<rparr>)" "paged R s (t2\<lparr>held := []\<rparr>)" "pg_frame own own s (t2\<lparr>held := []\<rparr>)"
proof -
  let ?s = "s\<lparr>held := [Lru_lock]\<rparr>"
  have i0: "vm_inv own sown R xs fs ?s" using inv by simp
  obtain v ys t1 where c: "loopr clock_step (lru_head ?s, ?s) = Ok (v, t1)" "vm_inv own sown R ys fs t1" "v \<in> set ys"
    "clock_frame own ?s t1" "paged R ?s t1" using clock_spec [OF i0 ne] .
  note D = vm_invD [OF c(2)]
  obtain t2 where r: "lru_remove v t1 = Ok t2" "lru_list t2 (remove1 v ys)" "lru_frame t1 t2"
    using lru_remove_spec [OF D(9) c(3)] .
  have d: "distinct ys" using D(9) ring_distinct by (auto simp: lru_list_def)
  have i2: "vm_inv own sown R (remove1 v ys) fs t2"
    using vm_inv_lru [OF c(2) r(3,2)] D(10) notin_set_remove1 by metis
  have res: "resident own R t2 v" using D(10) [OF c(3)] r(3) lru_frame_fields(1) [OF r(3)] by (simp add: resident_def lru_frame_def)
  note f = lru_frame_fields [OF r(3)] clock_frame_fields [OF c(4)]
  show thesis
  proof (rule that [OF _ r(1), of "remove1 v ys"])
    show "swap_ready (t2\<lparr>held := []\<rparr>)" by (rule swap_ready_fields [OF rdy]) (simp_all add: f)
    show "paged R s (t2\<lparr>held := []\<rparr>)"
      using c(5) uview_fields [of t2 t1] by (simp add: paged_def f)
    show "pg_frame own own s (t2\<lparr>held := []\<rparr>)"
      using c(4) swap_ready_held [OF rdy]
      by (intro pg_frame_fields [where P = "{t. \<exists>pt p. t = Table pt p}"]) (auto simp: f clock_frame_def)
  qed (use c(1) i2 res d f in \<open>simp_all add: resident_def\<close>)
qed

lemma swapout_spec:
  assumes inv: "vm_inv own sown R xs fs s" and rdy: "swap_ready s"
  obtains own' sown' xs' fs' rc t where "swapout s = Ok (rc, t)" "vm_inv own' sown' R xs' fs' t" "swap_ready t"
    "paged R s t" "pg_frame own own' s t"
    "rc = 0 \<and> (\<exists>a. fs' = a # fs) \<or> rc = -1 \<and> fs' = fs \<and> own' = own"
proof (cases "xs = []")
  case True
  then have "swapout s = Ok (-1, s)"
    using vm_invD(9) [OF inv] swap_ready_held [OF rdy] by (simp add: swapout_def lru_list_def)
  then show thesis using that inv rdy pg_frame_refl by (metis paged_refl)
next
  case False
  obtain v t1 t2 zs where c: "loopr clock_step (lru_head s, s\<lparr>held := [Lru_lock]\<rparr>) = Ok (v, t1)" "lru_remove v t1 = Ok t2"
    "held t2 = [Lru_lock]" "vm_inv own sown R zs fs (t2\<lparr>held := []\<rparr>)" "resident own R (t2\<lparr>held := []\<rparr>) v" "v \<notin> set zs"
    "swap_ready (t2\<lparr>held := []\<rparr>)" "paged R s (t2\<lparr>held := []\<rparr>)" "pg_frame own own s (t2\<lparr>held := []\<rparr>)"
    using choose_victim [OF inv rdy False] .
  define t3 where "t3 = t2\<lparr>held := []\<rparr>"
  note c = c [folded t3_def]
  have so: "swapout s = bindr (alloc_swap_slot t3) (\<lambda>(slot, s).
       if slot < 0 then
         bindr (acquire Lru_lock s) (\<lambda>s. bindr (lru_add v s) (\<lambda>s. bindr (release Lru_lock s) (\<lambda>s. Ok (-1, s))))
       else evict v slot s)"
    using vm_invD(9) [OF inv] swap_ready_held [OF rdy] False c(1-3)
    by (simp add: swapout_def lru_list_def t3_def del: bindr_Ok_iff)
  have "Swap_lock \<notin> set (held t3)" by (simp add: t3_def)
  from c(4) this show thesis
  proof (cases rule: alloc_slot_inv)
    case 1
    let ?u = "t3\<lparr>held := [Lru_lock]\<rparr>"
    have iu: "vm_inv own sown R zs fs ?u" using c(4) by simp
    obtain u where u: "lru_add v ?u = Ok u" "lru_list u (zs @ [v])" "lru_frame ?u u"
      using lru_add_spec [OF vm_invD(9) [OF iu] c(6)] .
    note f = lru_frame_fields [OF u(3)]
    have "vm_inv own sown R (zs @ [v]) fs u"
      using vm_invD(10) [OF c(4)] c(5) by (intro vm_inv_lru [OF iu u(3,2)]) (auto simp: resident_def)
    moreover have "swapout s = Ok (-1, u\<lparr>held := []\<rparr>)"
      using so 1 u(1) f(2) by (simp add: t3_def del: bindr_Ok_iff)
    moreover have "swap_ready (u\<lparr>held := []\<rparr>)" by (rule swap_ready_fields [OF c(7)]) (simp_all add: f)
    moreover have "paged R s (u\<lparr>held := []\<rparr>)"
      using c(8) uview_fields [of u t3] by (simp add: paged_def f)
    moreover have "pg_frame own own t3 (u\<lparr>held := []\<rparr>)"
      by (rule pg_frame_fields [where P = "{}"]) (simp_all add: f t3_def)
    ultimately show thesis using that [of "-1" "u\<lparr>held := []\<rparr>" own sown] pg_frame_trans [OF c(9)] by simp
  next
    case (2 k u)
    let ?x = "(pg_pagetable (pages t3 v), px_list (pg_vaddr (pages t3 v)))"
    have fu: "pages u = pages t3" "held u = held t3" "cur u = cur t3" "bufs u = bufs t3" "slocks u = slocks t3" "disk u = disk t3"
      "kend u = kend t3" "swap_bitmap u = swap_bitmap t3" "kernel_pagetable u = kernel_pagetable t3" "vm_st.more u = vm_st.more t3"
      "ptab u = ptab t3"
      by (subst 2(8), simp)+
    have res: "resident own R u v"
      using resident_changes [OF vm_invD(12) [OF c(4)] 2(9) _ _ _ c(5)] by (simp add: fu)
    have "swap_ready u" by (rule swap_ready_fields [OF c(7)]) (simp_all add: fu t3_def)
    from evict_spec [OF 2(6) [of ?x] res c(6) this 2(2,3,4) _ 2(5)] obtain t where
      t: "evict v k u = Ok (0, t)" "vm_inv (own(page_to_pa v := Free)) (sown(k := ?x)) R zs (page_to_pa v # fs) t"
        "swap_ready t" "paged R u t" "pg_frame own (own(page_to_pa v := Free)) u t"
      by (auto simp: fu)
    have "pg_frame own own t3 u" by (rule pg_frame_fields [OF 2(9)]) (simp_all add: fu)
    then have "pg_frame own (own(page_to_pa v := Free)) s t" using pg_frame_trans c(9) t(5) by blast
    moreover have "swapout s = Ok (0, t)" using so 2(1,2) t(1) by (simp del: bindr_Ok_iff)
    moreover have "paged R s t" using c(8) 2(7) t(4) paged_trans by blast
    ultimately show thesis using that t(2,3) by blast
  qed
qed

section \<open>kalloc\<close>

lemma vm_inv_pop:
  fixes f :: bytes
  assumes inv: "vm_inv own sown R xs (r # fs) s"
  defines "t \<equiv> s\<lparr>freelist := ld64 (mem s) r, mem := mem_write (mem s) r f PGSIZE\<rparr>"
  shows "vm_inv (own(r := Held)) sown R xs fs t" "paged R s t" "r \<noteq> 0" "own r = Free"
    "\<And>x. own (PGROUNDDOWN x) \<noteq> Free \<Longrightarrow> mem t x = mem s x"
proof -
  note D = vm_invD [OF inv]
  show r: "own r = Free" "r \<noteq> 0" using D(6,8) by auto
  have al: "pg_aligned r" using D(2) r by auto
  have ch: "changes own (mem s) (mem t) {Free}" using changes_write [OF al, of own "{Free}"] r by (simp add: t_def)
  then show "\<And>x. own (PGROUNDDOWN x) \<noteq> Free \<Longrightarrow> mem t x = mem s x" by (auto simp: changes_def)
  have ok: "space_ok own sown R (swap_bitmap s) (mem t)" using space_free [OF D(3) ch D(4,11)] .
  then have ok': "space_ok (own(r := Held)) sown R (swap_bitmap s) (mem t)"
    using r(1) unfolding space_ok_def tabs_ok_def upages_ok_def by fastforce
  have "flist (mem t) (ld64 (mem s) r) fs"
  proof -
    have "page_eq x (mem t) (mem s)" if "x \<in> set fs" for x
      using mem_write_other [OF al, of x] D(7) that by (auto simp: t_def)
    then show ?thesis using D(2,6,8) by (subst flist_pages) auto
  qed
  moreover have "resident (own(r := Held)) R t c" if "c \<in> set xs" for c
  proof -
    have "resident own R t c" using resident_changes [OF D(12) ch _ _ _ D(10) [OF that]] by (simp add: t_def)
    then show ?thesis using r(1) by (auto simp: resident_def Let_def)
  qed
  moreover have "lru_list t xs" using D(9) by (simp add: lru_list_def t_def)
  ultimately show "vm_inv (own(r := Held)) sown R xs fs t"
    using inv ok' r D(2,7) unfolding vm_inv_def by (auto simp: t_def)
  show "paged R s t"
    using slot_data_fields [of t s] by (intro uview_changes [OF D(3) ch]) (simp_all add: t_def)
qed

text \<open>With a free page, and without one.\<close>

definition kalloc_body :: "'a vm_st_scheme \<Rightarrow> ('a vm_st_scheme + u64 \<times> 'a vm_st_scheme) res" where
  "kalloc_body s = bindr (kalloc_pop s) (\<lambda>(r, s).
     if r \<noteq> 0 then Ok (Inr (r, s))
     else bindr (swapout s) (\<lambda>(rc, s). if rc < 0 then Ok (Inr (0, s)) else Ok (Inl s)))"

lemma kalloc_body_fold:
  "kalloc s = bindr (loopr kalloc_body s) (\<lambda>(r, s).
     Ok (r, if r \<noteq> 0 then s\<lparr>mem := mem_write (mem s) r (\<lambda>_. 5) PGSIZE\<rparr> else s))"
proof -
  have "memset r 5 PGSIZE m = mem_write m r (\<lambda>_. 5) PGSIZE" for r m by (simp add: memset_spec)
  then show ?thesis unfolding kalloc_def kalloc_body_def [abs_def] Let_def by (simp only:)
qed

lemma kalloc_body_free:
  assumes inv: "vm_inv own sown R xs (r # fs) s" and h: "held s = []"
  shows "loopr kalloc_body s = Ok (r, s\<lparr>freelist := ld64 (mem s) r\<rparr>)"
  using kalloc_pop_spec [of s "r # fs"] vm_invD(6) [OF inv] h
  by (subst loopr_unfold) (simp add: kalloc_body_def del: bindr_Ok_iff)

text \<open>
  \<open>kalloc\<close> returns. It hands out a page that was free or, if none was, the page of a victim; only if
  that fails the result is 0. The view of every address space is unchanged.
\<close>

lemma kalloc_spec:
  assumes inv: "vm_inv own sown R xs fs s" and rdy: "swap_ready s"
  obtains own' sown' xs' fs' r t where "kalloc s = Ok (r, t)" "swap_ready t" "paged R s t" "pg_frame own own' s t"
    "vm_inv (if r = 0 then own' else own'(r := Held)) sown' R xs' fs' t" "r \<noteq> 0 \<longrightarrow> own' r = Free"
    "r = 0 \<longrightarrow> fs = [] \<and> own' = own"
proof -
  have pop: "\<exists>t. loopr kalloc_body u = Ok (r, u\<lparr>freelist := ld64 (mem u) r\<rparr>) \<and>
      t = u\<lparr>freelist := ld64 (mem u) r, mem := mem_write (mem u) r (\<lambda>_. 5) PGSIZE\<rparr> \<and> swap_ready t \<and> paged R u t \<and>
      pg_frame own1 own1 u t \<and> vm_inv (own1(r := Held)) sown1 R xs1 fs1 t \<and> own1 r = Free \<and> r \<noteq> 0"
    if "vm_inv own1 sown1 R xs1 (r # fs1) u" "swap_ready u" for own1 sown1 xs1 fs1 r and u :: "'a vm_st_scheme"
  proof -
    note p = vm_inv_pop(1,2,5) [OF that(1), where f = "\<lambda>_. 5"] vm_inv_pop(3,4) [OF that(1)]
    let ?t = "u\<lparr>freelist := ld64 (mem u) r, mem := mem_write (mem u) r (\<lambda>_. 5) PGSIZE\<rparr>"
    have "swap_ready ?t" by (rule swap_ready_fields [OF that(2)]) (simp_all add: swap_ready_held [OF that(2)])
    moreover have "changes own1 (mem u) (mem ?t) {Free}" using p(3) by (auto simp: changes_def)
    then have "pg_frame own1 own1 u ?t" by (rule pg_frame_fields) simp_all
    ultimately show ?thesis using kalloc_body_free [OF that(1) swap_ready_held [OF that(2)]] p by blast
  qed
  show thesis
  proof (cases fs)
    case (Cons r rs)
    from pop [OF inv [unfolded Cons] rdy] obtain t where
      "loopr kalloc_body s = Ok (r, s\<lparr>freelist := ld64 (mem s) r\<rparr>)"
      and t: "t = s\<lparr>freelist := ld64 (mem s) r, mem := mem_write (mem s) r (\<lambda>_. 5) PGSIZE\<rparr>" "swap_ready t"
        "paged R s t" "pg_frame own own s t" "vm_inv (own(r := Held)) sown R xs rs t" "own r = Free" "r \<noteq> 0" by blast
    then have "kalloc s = Ok (r, t)" by (simp add: kalloc_body_fold)
    then show thesis using that [of r t own sown xs rs] t(2-7) by simp
  next
    case Nil
    obtain own' sown' xs' fs' rc t where o: "swapout s = Ok (rc, t)" "vm_inv own' sown' R xs' fs' t" "swap_ready t"
      "paged R s t" "pg_frame own own' s t" "rc = 0 \<and> (\<exists>a. fs' = a # fs) \<or> rc = -1 \<and> fs' = fs \<and> own' = own"
      using swapout_spec [OF inv rdy] .
    have b: "kalloc_body s = Ok (if rc < 0 then Inr (0, t) else Inl t)"
      using kalloc_pop_spec [of s "[]"] vm_invD(6) [OF inv] Nil swap_ready_held [OF rdy] o(1)
      by (simp add: kalloc_body_def del: bindr_Ok_iff)
    show thesis
    proof (cases "rc = 0")
      case False
      then have rc: "rc = -1" "own' = own" using o(6) by auto
      then have "kalloc s = Ok (0, t)" using b by (simp add: kalloc_body_fold, subst loopr_unfold) simp
      then show thesis using that [of 0 t own' sown' xs' fs'] o rc Nil by simp
    next
      case True
      then obtain a where a: "fs' = [a]" using o(6) Nil by auto
      from pop [OF o(2) [unfolded a] o(3)] obtain u where
        l: "loopr kalloc_body t = Ok (a, t\<lparr>freelist := ld64 (mem t) a\<rparr>)"
        and u: "u = t\<lparr>freelist := ld64 (mem t) a, mem := mem_write (mem t) a (\<lambda>_. 5) PGSIZE\<rparr>" "swap_ready u"
        "paged R t u" "pg_frame own' own' t u" "vm_inv (own'(a := Held)) sown' R xs' [] u" "own' a = Free" "a \<noteq> 0" by blast
      have "loopr kalloc_body s = loopr kalloc_body t" using b True by (subst loopr_unfold) simp
      then have "kalloc s = Ok (a, u)" using l u(1,7) by (simp add: kalloc_body_fold)
      then show thesis
        using that [of a u own' sown' xs' "[]"] u(2-7) paged_trans [OF o(4) u(3)] pg_frame_trans [OF o(5) u(4)] by simp
    qed
  qed
qed

end
