(* ===== verification/Swapin.thy ===== *)
theory Swapin
  imports Paging
begin

text \<open>
  \<open>swapin\<close>: the steps that make a swapped-out page resident again keep the invariant, and the
  processes keep their views.
\<close>

section \<open>Entries of resident pages\<close>

lemma px_list_PGROUNDDOWN [simp]: "px_list (PGROUNDDOWN va) = px_list va"
proof -
  have "PX l (PGROUNDDOWN va) = PX l va" for l by (rule bit_eqI) (simp add: macro_bits)
  then show ?thesis by (simp add: px_list_def)
qed

lemma PGROUNDDOWN_le: "PGROUNDDOWN va \<le> va"
  by (simp add: PGROUNDDOWN_def word_and_le2)

lemma view_PGROUNDDOWN [simp]: "leaf m pt (PGROUNDDOWN va) = leaf m pt va" "pte m pt (PGROUNDDOWN va) = pte m pt va"
  "swapped m pt (PGROUNDDOWN va) = swapped m pt va"
  using leaf_px [of "PGROUNDDOWN va" va m pt] by (simp_all add: pte_def swapped_def)

definition map_entry :: "u64 \<Rightarrow> u64 \<Rightarrow> u64" where
  "map_entry pa e = PA2PTE pa OR (PTE_FLAGS e AND NOT PTE_SWAPPED) OR PTE_V"

lemma bit_map_flags: "bit ((PTE_FLAGS e AND NOT PTE_SWAPPED) OR PTE_V) n \<longleftrightarrow> n < 10 \<and> bit e n \<and> n \<noteq> 9 \<or> n = 0"
  by (simp only: bit_or_iff bit_and_iff bit_not_iff flag_bits bit_PTE_FLAGS possible_bit_word) auto

lemma map_entry_spec:
  assumes "pg_aligned pa"
  shows "bit (map_entry pa e) 0" "PTE2PA (map_entry pa e) = pa" "uflags (map_entry pa e) = uflags e"
proof -
  have "unat ((PTE_FLAGS e AND NOT PTE_SWAPPED) OR PTE_V) < 2 ^ 10"
    by (rule unat_less_if_bits) (simp only: bit_map_flags, auto)
  then show "PTE2PA (map_entry pa e) = pa" unfolding map_entry_def by (intro PTE2PA_PA2PTE [OF assms]) simp
  have b: "bit (map_entry pa e) n \<longleftrightarrow> 10 \<le> n \<and> n < 64 \<and> bit pa (n + 2) \<or> n < 10 \<and> bit e n \<and> n \<noteq> 9 \<or> n = 0" for n
    unfolding map_entry_def bit_or_iff [of "PA2PTE pa"] bit_map_flags bit_PA2PTE by blast
  show "bit (map_entry pa e) 0" by (simp add: b)
  show "uflags (map_entry pa e) = uflags e" by (rule uflags_eqI) (simp add: b)
qed

text \<open>What a page fault leaves alone: the running thread, the fields beyond the VM system and the pages the kernel holds.\<close>

definition pg_kept :: "owners \<Rightarrow> 'a vm_st_scheme \<Rightarrow> 'a vm_st_scheme \<Rightarrow> bool" where
  "pg_kept own s t \<longleftrightarrow> held t = held s \<and> cur t = cur s \<and> vm_st.more t = vm_st.more s \<and>
     (\<forall>p. \<exists>st. ptab t p = (ptab s p)\<lparr>p_state := st\<rparr>) \<and> (\<forall>x. kept_owner (own (PGROUNDDOWN x)) \<longrightarrow> mem t x = mem s x)"

lemma pg_kept_refl: "pg_kept own s s"
  by (simp add: pg_kept_def state_update_triv)

lemma pg_kept_trans:
  assumes "pg_kept own s t" "pg_kept own t u"
  shows "pg_kept own s u"
proof -
  have "\<exists>st. ptab u p = (ptab s p)\<lparr>p_state := st\<rparr>" for p
  proof -
    obtain st st' where "ptab t p = (ptab s p)\<lparr>p_state := st\<rparr>" "ptab u p = (ptab t p)\<lparr>p_state := st'\<rparr>"
      using assms unfolding pg_kept_def by blast
    then have "ptab u p = (ptab s p)\<lparr>p_state := st'\<rparr>" by simp
    then show ?thesis ..
  qed
  then show ?thesis using assms by (simp add: pg_kept_def)
qed

lemma pg_kept_mono: "pg_kept own s t \<Longrightarrow> (\<And>a. kept_owner (own' a) \<Longrightarrow> kept_owner (own a)) \<Longrightarrow> pg_kept own' s t"
  by (simp add: pg_kept_def)

lemma pg_frame_kept: "pg_frame own own' s t \<Longrightarrow> pg_kept own s t"
  by (simp add: pg_frame_def pg_kept_def)

lemma io_frame_more: "io_frame s t \<Longrightarrow> vm_st.more t = vm_st.more s"
  by (cases s, cases t) (simp add: io_frame_def)

text \<open>The content of a slot is read into a page the kernel holds.\<close>

lemma swapread_inv:
  assumes inv: "vm_inv own sown R xs fs s" and rdy: "swap_ready s" and k: "0 \<le> k" "k < 7000" and r: "own r = Held"
  obtains t where "swapread r k s = Ok t" "vm_inv own sown R xs fs t" "swap_ready t" "paged R s t" "io_frame s t"
    "\<And>i. i < PGSIZE \<Longrightarrow> mem_read (mem t) r i = slot_data t k i"
    "\<And>x. PGROUNDDOWN x \<noteq> r \<Longrightarrow> mem t x = mem s x" "\<And>pt va. pt \<in> R \<Longrightarrow> swapped (mem s) pt va \<Longrightarrow> pte (mem t) pt va = pte (mem s) pt va"
proof -
  note D = vm_invD [OF inv]
  obtain t where w: "swapread r k s = Ok t" "swap_ready t" "io_frame s t"
    "\<And>m. m \<noteq> 0 \<Longrightarrow> bview t m = bview s m" "mem t = mem_write (mem s) r (slot_data s k) PGSIZE"
    using swapread_spec [OF k rdy] by metis
  have al: "pg_aligned r" using D(2) r by auto
  have ch: "changes own (mem s) (mem t) {Held}" unfolding w(5) using changes_write [OF al] r by simp
  have bm: "page_eq (swap_bitmap s) (mem t) (mem s)" using changes_page [OF ch] D(4) by simp
  have ok: "space_ok own sown R (swap_bitmap s) (mem t)"
  proof (rule space_changes [OF D(3) ch])
    fix pt va assume a: "pt \<in> R" "swapped (mem s) pt va"
    then show "slot_bit (mem t) (swap_bitmap s) (nat (pte_slot (pte (mem s) pt va)))"
      using slot_bit_page [OF D(11) bm] slotsD [OF D(3) a] by simp
  qed simp
  have sd: "slot_data t j i = slot_data s j i" if "0 \<le> j" "j < 7000" "i < PGSIZE" for j i
    using w(4) swap_blk_in_swap [OF that(1,2)] that(3) by (simp add: slot_data_def)
  have pg: "paged R s t" by (rule uview_changes [OF D(3) ch]) (use sd in simp_all)
  have "mem_read (mem t) r i = slot_data t k i" if "i < PGSIZE" for i
    using sd [OF k that] page_offset [OF al, of "of_nat i"] that
    by (simp add: w(5) mem_read_def mem_write_def unat_of_nat_u64)
  moreover have "vm_inv own sown R xs fs t" using vm_inv_same [OF inv vm_same_io [OF w(3)] ch _ ok] by simp
  moreover have "mem t x = mem s x" if "PGROUNDDOWN x \<noteq> r" for x using that by (simp add: w(5) mem_write_page [OF al])
  ultimately show thesis using that w(1-3) pg by (simp add: paged_def)
qed

text \<open>The entry of a swapped-out page is pointed at a page the kernel holds.\<close>

lemma vm_inv_map:
  assumes inv: "vm_inv own sown R xs fs s" and pt: "pt \<in> R" and sw: "swapped (mem s) pt va" and r: "own r = Held"
    and d: "\<And>i. i < PGSIZE \<Longrightarrow> mem_read (mem s) r i = slot_data s (pte_slot (pte (mem s) pt va)) i"
    and t: "t = s\<lparr>mem := st64 (mem s) (leaf (mem s) pt va) (map_entry r (pte (mem s) pt va))\<rparr>"
  shows "vm_inv (own(r := Upage pt (px_list va))) sown R xs fs t" "same_views R s t"
    "leaf (mem t) pt va \<noteq> 0" "pte (mem t) pt va = map_entry r (pte (mem s) pt va)"
    "\<And>pt' va'. pt' \<in> R \<Longrightarrow> swapped (mem t) pt' va' \<Longrightarrow> pte_slot (pte (mem t) pt' va') \<noteq> pte_slot (pte (mem s) pt va)"
proof -
  note D = vm_invD [OF inv]
  let ?own = "own(r := Upage pt (px_list va))" and ?e = "pte (mem s) pt va"
  have al: "pg_aligned r" using D(2) r by auto
  note e = map_entry_spec [OF al, of ?e]
  have lf: "leaf (mem s) pt va \<noteq> 0" using sw by (simp add: swapped_def)
  have m: "mem t = st64 (mem s) (leaf (mem s) pt va) (map_entry r ?e)" by (simp add: t)
  have ch: "changes own (mem s) (mem t) {Table pt [PX 2 va, PX 1 va]}"
    unfolding m by (rule st64_leaf_changes [OF D(12) pt lf])
  have f: "kend t = kend s" "freelist t = freelist s" "pages t = pages s" "swap_bitmap t = swap_bitmap s" "swap_slots t = swap_slots s"
    by (simp_all add: t)
  have "resident ?own R t c" if "c \<in> set xs" for c
  proof (rule resident_st64 [OF D(12) pt lf m _ _ D(10) [OF that]])
    note rc = residentD [OF D(10) [OF that]]
    show "?own (page_to_pa c) = own (page_to_pa c)" using rc(7) r by auto
    assume a: "pg_pagetable (pages s c) = pt" "px_list (pg_vaddr (pages s c)) = px_list va"
    then have "page_pte s c = ?e" using leaf_px [OF a(2)] by (simp add: pte_def)
    with rc(5) sw show "bit (map_entry r ?e) 0 \<and> PTE2PA (map_entry r ?e) = page_to_pa c" by (simp add: swapped_def)
  qed (simp_all add: f)
  moreover have "space_ok ?own sown R (swap_bitmap s) (mem t)"
    unfolding m using r e by (intro space_st64 [OF D(3) pt lf D(4,11)]) (auto split: if_splits)
  moreover have "flist (mem t) (freelist s) fs"
    using D(2,6,8) changes_page [OF ch] by (subst flist_pages) auto
  moreover have "lru_list t xs" using D(9) by (simp add: lru_list_def t)
  moreover have "?own (swap_bitmap s) = Bitmap" "\<forall>a \<in> set fs. ?own a = Free" using D(4,8) r by auto
  moreover have "\<forall>a. ?own a \<noteq> Kern \<longrightarrow> pg_aligned a \<and> kend s \<le> a \<and> a < PHYSTOP" using D(2) r by auto
  ultimately show "vm_inv ?own sown R xs fs t" using inv unfolding vm_inv_def f by blast
  have sd: "slot_data t j = slot_data s j" for j by (rule slot_data_fields) (simp_all add: t)
  show "same_views R s t"
  proof (rule uview_st64 [OF D(3) pt lf m sd])
    have "page_eq r (mem t) (mem s)" using changes_page [OF ch] r by simp
    then have "mem_read (mem t) r i = slot_data s (pte_slot ?e) i" if "i < PGSIZE" for i
      using mem_read_page [OF al _ that] d that by simp
    then show "ucontent t (map_entry r ?e) = ucontent s ?e"
      using e sw by (intro ext) (simp add: ucontent_def swapped_def)
  qed (use e sw in \<open>simp_all add: swapped_def\<close>)
  show "leaf (mem t) pt va \<noteq> 0" "pte (mem t) pt va = map_entry r ?e"
    unfolding m using leaf_st64 [OF D(12) pt lf pt] pte_st64 [OF D(12) pt lf pt lf] lf by simp_all
  fix pt' va' assume a: "pt' \<in> R" "swapped (mem t) pt' va'"
  then have n: "\<not> (pt' = pt \<and> px_list va' = px_list va)" "swapped (mem s) pt' va'"
    using swapped_st64 [OF D(12) pt lf a(1), of "map_entry r ?e" va'] e(1) unfolding m by (auto split: if_splits)
  then have "pte (mem t) pt' va' = pte (mem s) pt' va'"
    using pte_st64 [OF D(12) pt lf a(1), of va' "map_entry r ?e"] unfolding m by (auto simp: swapped_def)
  then show "pte_slot (pte (mem t) pt' va') \<noteq> pte_slot ?e"
    using slotsD(4) [OF D(3) a(1) n(2)] slotsD(4) [OF D(3) pt sw] n(1) by auto
qed

section \<open>Steps of swapin\<close>

lemma byte_outside_entry:
  assumes "pg_aligned t" "i < 512" "PGROUNDDOWN a \<noteq> t"
  shows "\<not> a - entry t i < 8"
  using entry_byte [OF assms(1,2), of "a - entry t i"] assms(3) by auto

lemma st64_byte_commute:
  assumes "pg_aligned t" "i < 512" "PGROUNDDOWN a \<noteq> t"
  shows "st64 (m(a := c)) (entry t i) v = (st64 m (entry t i) v)(a := c)" "st64 m (entry t i) v a = m a"
    "ld64 (m(a := c)) (entry t i) = ld64 m (entry t i)"
proof -
  note n = byte_outside_entry [OF assms]
  show "st64 (m(a := c)) (entry t i) v = (st64 m (entry t i) v)(a := c)" using n by (auto simp: st64_def)
  show "st64 m (entry t i) v a = m a" using n by (simp add: st64_def)
  have "page_eq t (m(a := c)) m" using assms(3) by (auto simp: page_eq_def)
  then show "ld64 (m(a := c)) (entry t i) = ld64 m (entry t i)" using ld64_page_cong [OF assms(1,2)] by simp
qed

lemma free_slot_inv:
  assumes inv: "vm_inv own sown R xs fs s" and k: "0 \<le> k" "k < 7000"
    and un: "\<And>pt va. pt \<in> R \<Longrightarrow> swapped (mem s) pt va \<Longrightarrow> pte_slot (pte (mem s) pt va) \<noteq> k"
    and t: "t = s\<lparr>mem := (mem s)(slot_byte s (nat k) := mem s (slot_byte s (nat k)) AND NOT (2 ^ (nat k mod 8)))\<rparr>"
  shows "vm_inv own sown R xs fs t" "paged R s t" "pg_frame own own s t"
proof -
  note D = vm_invD [OF inv]
  have bits: "slot_bit (mem t) (swap_bitmap s) j \<longleftrightarrow> j \<noteq> nat k \<and> slot_bit (mem s) (swap_bitmap s) j" if "j < 7000" for j
    using slot_bit_clear [of "nat k" j "mem s" "swap_bitmap s"] k that by (simp add: t slot_byte_def)
  have ch: "changes own (mem s) (mem t) {Bitmap}"
    using changes_byte [of own "slot_byte s (nat k)" "{Bitmap}"] slot_byte_page [OF D(11), of "nat k"] D(4) k by (simp add: t)
  have ok: "space_ok own sown R (swap_bitmap s) (mem t)"
  proof (rule space_changes [OF D(3) ch])
    fix pt va assume a: "pt \<in> R" "swapped (mem s) pt va"
    then show "slot_bit (mem t) (swap_bitmap s) (nat (pte_slot (pte (mem s) pt va)))"
      using bits slotsD [OF D(3) a] un [OF a] k by simp
  qed simp
  show "vm_inv own sown R xs fs t" by (rule vm_inv_same [OF inv _ ch _ ok]) (simp_all add: vm_same_def t)
  show "paged R s t" using slot_data_fields [of t s] by (intro uview_changes [OF D(3) ch]) (simp_all add: t)
  show "pg_frame own own s t" by (rule pg_frame_fields [OF ch]) (simp_all add: t)
qed

lemma lru_register_inv:
  assumes inv: "vm_inv own sown R xs fs s" and h: "held s = []" and pt: "pt \<in> R" "va < MAXVA" "leaf (mem s) pt va \<noteq> 0"
    and e: "bit (pte (mem s) pt va) 0" "PTE2PA (pte (mem s) pt va) = r" and r: "own r = Upage pt (px_list va)"
    and n: "\<And>c. c \<in> set xs \<Longrightarrow> page_to_pa c \<noteq> r"
  obtains t c where "lru_register pt va r s = Ok t" "vm_inv own sown R (xs @ [c]) fs t" "paged R s t" "pg_frame own own s t"
    "mem t = mem s" "bufs t = bufs s" "slocks t = slocks s" "disk t = disk s"
proof -
  note D = vm_invD [OF inv]
  have fr: "pg_aligned r" "KERNBASE \<le> r" "r < PHYSTOP" using D(1) D(2) [of r] r by (auto intro: order.trans)
  obtain c where c: "pa2pageidx r = Ok c" "page_to_pa c = r" using page_to_pa_pa2pageidx [OF fr] .
  have c_less: "c < 32768"
  proof -
    have "unat (r - KERNBASE) < 4096 * 32768"
      using fr(2,3) by (simp add: unat_sub word_less_nat_alt word_le_nat_alt)
    then show ?thesis using c(1) fr by (auto simp: pa2pageidx_def unat_div not_less not_le split: if_splits)
  qed
  have cx: "c \<notin> set xs" using n c(2) by blast
  define s1 where "s1 = upd_page c (pg_vaddr_update (\<lambda>_. va)) (upd_page c (pg_pagetable_update (\<lambda>_. pt)) s)"
  have i1: "vm_inv own sown R xs fs s1" and p1: "paged R s s1"
    using vm_inv_upd_page [OF inv cx, of "pg_pagetable_update (\<lambda>_. pt)"]
      vm_inv_upd_page [of own sown R xs fs "upd_page c (pg_pagetable_update (\<lambda>_. pt)) s" c "pg_vaddr_update (\<lambda>_. va)"] cx paged_trans
    by (auto simp: s1_def)
  let ?u = "s1\<lparr>held := [Lru_lock]\<rparr>"
  have iu: "vm_inv own sown R xs fs ?u" using i1 by simp
  obtain u where u: "lru_add c ?u = Ok u" "lru_list u (xs @ [c])" "lru_frame ?u u"
    using lru_add_spec [OF vm_invD(9) [OF iu] cx] .
  note f = lru_frame_fields [OF u(3)]
  have res: "resident own R ?u c" using c_less pt e r c(2) by (simp add: resident_def s1_def upd_page_def)
  have "vm_inv own sown R (xs @ [c]) fs (u\<lparr>held := []\<rparr>)"
    using vm_inv_lru [OF iu u(3,2)] vm_invD(10) [OF iu] res by auto
  moreover have "lru_register pt va r s = Ok (u\<lparr>held := []\<rparr>)"
    using c(1) u(1) f(2) h by (simp add: lru_register_def Let_def s1_def [symmetric]) (simp add: s1_def upd_page_def)
  moreover have g: "mem u = mem s" "bufs u = bufs s" "slocks u = slocks s" "disk u = disk s"
    by (simp_all add: f s1_def upd_page_def)
  moreover have "paged R s (u\<lparr>held := []\<rparr>)" using uview_fields [of u s] g by (simp add: paged_def)
  moreover have "pg_frame own own s (u\<lparr>held := []\<rparr>)"
    by (rule pg_frame_fields [where P = "{}"]) (simp_all add: f h s1_def upd_page_def)
  ultimately show thesis using that by simp
qed

lemma swapin_skip:
  assumes "va < MAXVA" "\<not> swapped (mem s) pt va"
  shows "swapin pt va s = Ok (-1, s)"
proof -
  have "\<not> MAXVA \<le> PGROUNDDOWN va" using assms(1) PGROUNDDOWN_le [of va] by (meson leD order.trans not_le)
  then show ?thesis using assms(2) by (auto simp: swapin_def walk_None swapped_def pte_def)
qed

text \<open>\<open>swapin\<close> from the page on that \<open>kalloc\<close> gave it.\<close>

definition swapin_into :: "u64 \<Rightarrow> u64 \<Rightarrow> u64 \<Rightarrow> int \<Rightarrow> u64 \<Rightarrow> 'a vm_st_scheme \<Rightarrow> (int \<times> 'a vm_st_scheme) res" where
  "swapin_into pagetable va a slot pa s =
     bindr (swapread pa slot s) (\<lambda>s.
     bindr (free_swap_slot slot s) (\<lambda>s.
     bindr (lru_register pagetable va pa (s\<lparr>mem := st64 (mem s) a (map_entry pa (ld64 (mem s) a))\<rparr>)) (\<lambda>s. Ok (0, s))))"

lemma swapin_eq:
  assumes "va < MAXVA" "swapped (mem s) pt va"
  shows "swapin pt va s = bindr (kalloc s) (\<lambda>(pa, s'). if pa = 0 then Ok (-1, s')
     else swapin_into pt (PGROUNDDOWN va) (leaf (mem s) pt va) (pte_slot (pte (mem s) pt va)) pa s')"
proof -
  have "\<not> MAXVA \<le> PGROUNDDOWN va" using assms(1) PGROUNDDOWN_le [of va] by (meson leD order.trans not_le)
  then have "walk0 pt (PGROUNDDOWN va) s = Ok (leaf (mem s) pt va, s)" by (simp add: walk_None)
  moreover have "leaf (mem s) pt va \<noteq> 0" "\<not> bit (ld64 (mem s) (leaf (mem s) pt va)) 0" "bit (ld64 (mem s) (leaf (mem s) pt va)) 9"
    using assms(2) by (simp_all add: swapped_def pte_def)
  ultimately show ?thesis
    unfolding swapin_def swapin_into_def pte_def map_entry_def Let_def by (simp del: bindr_Ok_iff)
qed

lemma swapin_into_spec:
  assumes inv: "vm_inv own sown R xs fs s" and rdy: "swap_ready s" and pt: "pt \<in> R" "va < MAXVA" and sw: "swapped (mem s) pt va"
    and r: "own r = Held"
  obtains t xs' where "swapin_into pt va (leaf (mem s) pt va) (pte_slot (pte (mem s) pt va)) r s = Ok (0, t)"
    "vm_inv (own(r := Upage pt (px_list va))) sown R xs' fs t" "swap_ready t" "same_views R s t"
    "bit (pte (mem t) pt va) 0" "pg_kept (own(r := Free)) s t"
proof -
  let ?k = "pte_slot (pte (mem s) pt va)" and ?own = "own(r := Upage pt (px_list va))"
  note k = slotsD(1,2) [OF vm_invD(3) [OF inv] pt(1) sw]
  obtain s1 where a: "swapread r ?k s = Ok s1" "vm_inv own sown R xs fs s1" "swap_ready s1" "paged R s s1" "io_frame s s1"
    "\<And>i. i < PGSIZE \<Longrightarrow> mem_read (mem s1) r i = slot_data s1 ?k i" "pte (mem s1) pt va = pte (mem s) pt va"
    "\<And>x. PGROUNDDOWN x \<noteq> r \<Longrightarrow> mem s1 x = mem s x"
    using swapread_inv [OF inv rdy k r] pt(1) sw by metis
  note D = vm_invD [OF a(2)]
  have lf: "leaf (mem s1) pt va = leaf (mem s) pt va" using a(4) pt(1) by (simp add: paged_def)
  then have sw1: "swapped (mem s1) pt va" using sw a(7) by (simp add: swapped_def)
  define s2 where "s2 = s1\<lparr>mem := st64 (mem s1) (leaf (mem s1) pt va) (map_entry r (pte (mem s1) pt va))\<rparr>"
  note b = vm_inv_map [OF a(2) pt(1) sw1 r a(6) [folded a(7)] s2_def, unfolded a(7)]
  define s3 where "s3 = s2\<lparr>mem := (mem s2)(slot_byte s2 (nat ?k) := mem s2 (slot_byte s2 (nat ?k)) AND NOT (2 ^ (nat ?k mod 8)))\<rparr>"
  note c = free_slot_inv [OF b(1) k b(5) s3_def]
  have h: "held s1 = []" using swap_ready_held [OF a(3)] .
  have h3: "held s3 = []" by (simp add: s3_def s2_def h)
  have e3: "leaf (mem s3) pt va \<noteq> 0" "pte (mem s3) pt va = map_entry r (pte (mem s) pt va)"
  proof -
    have ch: "changes ?own (mem s2) (mem s3) {Bitmap}"
      using changes_byte [of ?own "slot_byte s2 (nat ?k)" "{Bitmap}"] slot_byte_page [OF vm_invD(11) [OF b(1)], of "nat ?k"]
        vm_invD(4) [OF b(1)] k by (simp add: s3_def)
    show "pte (mem s3) pt va = map_entry r (pte (mem s) pt va)"
      using pte_changes [OF vm_invD(12) [OF b(1)] ch _ pt(1) b(3)] b(4) by simp
    show "leaf (mem s3) pt va \<noteq> 0" using c(2) pt(1) b(3) by (simp add: paged_def)
  qed
  have al: "pg_aligned r" using D(2) r by auto
  have "page_to_pa d \<noteq> r" if "d \<in> set xs" for d using residentD(7) [OF D(10) [OF that]] r by auto
  with lru_register_inv [OF c(1) h3 pt e3(1)] map_entry_spec [OF al] e3(2) obtain t d where
    t: "lru_register pt va r s3 = Ok t" "vm_inv ?own sown R (xs @ [d]) fs t" "paged R s3 t" "pg_frame ?own ?own s3 t"
      "mem t = mem s3" "bufs t = bufs s3" "slocks t = slocks s3" "disk t = disk s3" by (metis fun_upd_same)
  have "swapin_into pt va (leaf (mem s) pt va) ?k r s = Ok (0, t)"
  proof -
    obtain p where p: "pg_aligned p" "own p = Table pt [PX 2 va, PX 1 va]" "leaf (mem s1) pt va = entry p (PX 0 va)"
      using leafE [OF D(12) pt(1)] sw1 by (auto simp: swapped_def)
    let ?a = "slot_byte s1 (nat ?k)"
    have na: "PGROUNDDOWN ?a \<noteq> p" using slot_byte_page [OF D(11), of "nat ?k"] k D(4) p(2) by auto
    note st = st64_byte_commute [OF p(1) PX_less na]
    have pe: "pte (mem s1) pt va = ld64 (mem s1) (entry p (PX 0 va))" by (simp add: pte_def p(3))
    have sb: "slot_byte s2 = slot_byte s1" by (rule ext) (simp add: slot_byte_def s2_def)
    have "free_swap_slot ?k s1 = Ok (s1\<lparr>mem := (mem s1)(?a := mem s1 ?a AND NOT (2 ^ (nat ?k mod 8)))\<rparr>)"
      using free_swap_slot_spec [of s1 ?k] h by simp
    moreover have "s1\<lparr>mem := st64 ((mem s1)(?a := mem s1 ?a AND NOT (2 ^ (nat ?k mod 8)))) (leaf (mem s) pt va)
        (map_entry r (ld64 ((mem s1)(?a := mem s1 ?a AND NOT (2 ^ (nat ?k mod 8)))) (leaf (mem s) pt va)))\<rparr> = s3"
      unfolding s3_def sb unfolding lf [symmetric] p(3) st(1,3) by (simp add: s2_def p(3) pe st(2))
    ultimately show ?thesis unfolding swapin_into_def using a(1) t(1) by (simp del: bindr_Ok_iff)
  qed
  moreover have "swap_ready t" by (rule swap_ready_fields [OF a(3)]) (use t h3 h in \<open>simp_all add: s3_def s2_def pg_frame_def\<close>)
  moreover have "same_views R s t"
    using paged_views [OF a(4)] b(2) paged_views [OF c(2)] paged_views [OF t(3)] same_views_trans by blast
  moreover have "bit (pte (mem t) pt va) 0" using e3(2) map_entry_spec [OF al] t(5) by simp
  moreover have "pg_kept (own(r := Free)) s t"
  proof -
    have 1: "pg_kept (own(r := Free)) s s1"
      using a(5,8) io_frame_more [OF a(5)] by (auto simp: pg_kept_def io_frame_def)
    have "changes own (mem s1) (mem s2) {Table pt [PX 2 va, PX 1 va]}"
      unfolding s2_def using st64_leaf_changes [OF D(12) pt(1)] sw1 by (simp add: swapped_def)
    then have 2: "pg_kept (own(r := Free)) s1 s2"
      unfolding pg_kept_def changes_def by (auto simp: s2_def state_update_triv)
    have 3: "pg_kept (own(r := Free)) s2 s3" "pg_kept (own(r := Free)) s3 t"
      using pg_frame_kept [OF c(3)] pg_frame_kept [OF t(4)] by (auto simp: pg_kept_def)
    show ?thesis using pg_kept_trans [OF 1 pg_kept_trans [OF 2 pg_kept_trans [OF 3]]] .
  qed
  ultimately show thesis using that t(2) by blast
qed

text \<open>
  \<open>swapin\<close> returns. Without a swapped-out page at \<open>va\<close>, or without memory, it fails and nothing changes for
  any process; otherwise the page is resident with the content and the permissions it had.
\<close>

lemma swapin_spec:
  assumes inv: "vm_inv own sown R xs fs s" and rdy: "swap_ready s" and pt: "pt \<in> R" "va < MAXVA"
  obtains own' sown' xs' fs' rc t where "swapin pt va s = Ok (rc, t)" "vm_inv own' sown' R xs' fs' t" "swap_ready t"
    "same_views R s t" "rc = 0 \<and> swapped (mem s) pt va \<and> bit (pte (mem t) pt va) 0 \<or>
       rc = -1 \<and> (swapped (mem s) pt va \<longrightarrow> fs = [])"
    "pg_kept own s t" "\<forall>a. kept_owner (own a) \<longrightarrow> own' a = own a"
proof (cases "swapped (mem s) pt va")
  case False
  then show thesis using that [OF swapin_skip [OF pt(2) False] inv rdy] pg_kept_refl [of own s] by simp
next
  case sw: True
  obtain own' sown' xs' fs' r t where k: "kalloc s = Ok (r, t)" "swap_ready t" "paged R s t" "pg_frame own own' s t"
    "vm_inv (if r = 0 then own' else own'(r := Held)) sown' R xs' fs' t" "r \<noteq> 0 \<longrightarrow> own' r = Free"
    "r = 0 \<longrightarrow> fs = [] \<and> own' = own"
    using kalloc_spec [OF inv rdy] .
  have "\<forall>a. own' a \<noteq> own a \<longrightarrow> own' a = Free \<and> (\<exists>pt p. own a = Upage pt p)" using k(4) by (simp add: pg_frame_def)
  then have kh: "pg_kept own s t" "\<forall>a. kept_owner (own a) \<longrightarrow> own' a = own a"
    using pg_frame_kept [OF k(4)] by (simp, metis kept_owner.simps)
  show thesis
  proof (cases "r = 0")
    case True
    then have "swapin pt va s = Ok (-1, t)" using swapin_eq [OF pt(2) sw] k(1) by (simp del: bindr_Ok_iff)
    then show thesis using that [OF _ k(5,2) paged_views [OF k(3)]] True k(7) kh by simp
  next
    case False
    have l: "leaf (mem t) pt va = leaf (mem s) pt va" "pte (mem t) pt va = pte (mem s) pt va" "swapped (mem t) pt va"
      using k(3) pt(1) sw by (simp_all add: paged_def swapped_def)
    have i: "vm_inv (own'(r := Held)) sown' R xs' fs' t" using k(5) False by simp
    have v: "PGROUNDDOWN va < MAXVA" using pt(2) PGROUNDDOWN_le [of va] by (meson order.strict_trans1)
    obtain u ys where u: "swapin_into pt (PGROUNDDOWN va) (leaf (mem t) pt va) (pte_slot (pte (mem t) pt va)) r t = Ok (0, u)"
      "vm_inv (own'(r := Upage pt (px_list va))) sown' R ys fs' u" "swap_ready u" "same_views R t u" "bit (pte (mem u) pt va) 0"
      "pg_kept (own'(r := Held, r := Free)) t u"
      using swapin_into_spec [OF i k(2) pt(1) v, of r] l(3) by auto
    have "swapin pt va s = Ok (0, u)" using swapin_eq [OF pt(2) sw] k(1) False u(1) l by (simp del: bindr_Ok_iff)
    moreover have nr: "\<not> kept_owner (own r)" using kh(2) k(6) False by auto
    then have "\<forall>a. kept_owner (own a) \<longrightarrow> (own'(r := Upage pt (px_list va))) a = own a" using kh(2) by auto
    moreover have "pg_kept own t u" by (rule pg_kept_mono [OF u(6)]) (use nr kh(2) in auto)
    ultimately show thesis
      using that [OF _ u(2,3) same_views_trans [OF paged_views [OF k(3)] u(4)]] sw u(5) pg_kept_trans [OF kh(1), of u] by simp
  qed
qed

end
