(* ===== verification/Fault.thy ===== *)
theory Fault
  imports Trap Swapin
begin

text \<open>
  A page fault on a swapped-out page, from the trap to the return to user mode: \<^verbatim>\<open>usertrap\<close> saves the program
  counter in the trap frame, \<^verbatim>\<open>swapin\<close> makes the page resident, and \<^verbatim>\<open>usertrapret\<close> goes back to the same
  instruction. No process sees a difference.
\<close>

section \<open>Writes to the trap frame\<close>

text \<open>
  The trap frame of a process is a page of the kernel that is also mapped in the address space of the process, at
  \<open>TRAPFRAME\<close>. A write to such a page keeps what every process has at every other address.
\<close>

definition views_but :: "u64 \<Rightarrow> u64 \<Rightarrow> u64 set \<Rightarrow> 'a vm_st_scheme \<Rightarrow> 'b vm_st_scheme \<Rightarrow> bool" where
  "views_but q w R s t \<longleftrightarrow> (\<forall>pt \<in> R. \<forall>va. pt = q \<and> px_list va = px_list w \<or> uview t pt va = uview s pt va)"

lemma views_but_trans: "views_but q w R s t \<Longrightarrow> views_but q w R t u \<Longrightarrow> views_but q w R s u"
  unfolding views_but_def by metis

lemma same_views_but: "same_views R s t \<Longrightarrow> views_but q w R s t"
  by (simp add: same_views_def views_but_def)

lemma shared_views:
  assumes ok: "space_ok own sown R B (mem s)" and ch: "changes own (mem s) (mem t) {Shared q (px_list w)}"
    and io: "bufs t = bufs s" "disk t = disk s"
  shows "views_but q w R s t"
  unfolding views_but_def
proof (intro ballI allI)
  fix pt va assume pt: "pt \<in> R"
  from ok have tabs: "tabs_ok own R (mem s)" by (simp add: space_ok_def)
  have lf: "leaf (mem t) pt va = leaf (mem s) pt va" using leaf_changes [OF tabs ch _ pt] by simp
  show "pt = q \<and> px_list va = px_list w \<or> uview t pt va = uview s pt va"
  proof (cases "leaf (mem s) pt va = 0 \<or> pt = q \<and> px_list va = px_list w")
    case False
    let ?e = "pte (mem s) pt va"
    have e: "pte (mem t) pt va = ?e" using pte_changes [OF tabs ch _ pt] False by simp
    have o: "own (PTE2PA ?e) \<in> {Upage pt (px_list va), Shared pt (px_list va), Other, Kern}" if "bit ?e 0"
      using upagesD [OF ok pt] False that by simp
    have "ucontent t ?e i = ucontent s ?e i" for i
      by (rule ucontent_changes [OF ch]) (use o False slot_data_fields [OF io] in auto)
    then show ?thesis using lf e by (auto simp: uview_def Let_def)
  qed (auto simp: uview_def lf)
qed

lemma shared_write:
  assumes inv: "vm_inv own sown R xs fs s" and ch: "changes own (mem s) (mem t) {Shared q (px_list w)}" and same: "vm_same s t"
    and io: "bufs t = bufs s" "disk t = disk s"
  shows "vm_inv own sown R xs fs t" "views_but q w R s t" "pt \<in> R \<Longrightarrow> swapped (mem t) pt va = swapped (mem s) pt va"
proof -
  note D = vm_invD [OF inv]
  have bm: "page_eq (swap_bitmap s) (mem t) (mem s)" using changes_page [OF ch] D(4) by simp
  have ok: "space_ok own sown R (swap_bitmap s) (mem t)"
  proof (rule space_changes [OF D(3) ch])
    fix pt va assume a: "pt \<in> R" "swapped (mem s) pt va"
    then show "slot_bit (mem t) (swap_bitmap s) (nat (pte_slot (pte (mem s) pt va)))"
      using slot_bit_page [OF D(11) bm] slotsD [OF D(3) a] by simp
  qed simp
  show "vm_inv own sown R xs fs t" by (rule vm_inv_same [OF inv same ch _ ok]) auto
  show "views_but q w R s t" by (rule shared_views [OF D(3) ch io])
  show "swapped (mem t) pt va = swapped (mem s) pt va" if "pt \<in> R" using swapped_changes [OF D(12) ch _ that] by simp
qed

lemma trap_more:
  assumes "vm_st.more t = vm_st.more s"
  shows "sepc t = sepc (s :: 'a trap_st_scheme)" "ksym t = ksym s" "sstatus t = sstatus s" "satp t = satp s" "hart_tp t = hart_tp s"
    "scause t = scause s" "stval t = stval s"
  using assms by (cases s, cases t, simp)+

abbreviation tf_owner :: "nat \<Rightarrow> 'a trap_st_scheme \<Rightarrow> owner" where
  "tf_owner p s \<equiv> Shared (p_pagetable (ptab s p)) (px_list TRAPFRAME)"

text \<open>The trap frame of process \<open>p\<close>: no table and no user page, and mapped at \<open>TRAPFRAME\<close> of its own space if anywhere.\<close>

definition tf_ok :: "owners \<Rightarrow> nat \<Rightarrow> 'a trap_st_scheme \<Rightarrow> bool" where
  "tf_ok own p s \<longleftrightarrow> pg_aligned (p_trapframe (ptab s p)) \<and> own (p_trapframe (ptab s p)) = tf_owner p s"

lemma set_tf_fields [simp]:
  "ptab (set_tf p off v s) = ptab s" "held (set_tf p off v s) = held s" "cur (set_tf p off v s) = cur s"
  "bufs (set_tf p off v s) = bufs s" "disk (set_tf p off v s) = disk s" "vm_same s (set_tf p off v s)"
  "slocks (set_tf p off v s) = slocks s" "vm_st.more (set_tf p off v s) = vm_st.more s"
  by (simp_all add: set_tf_def vm_same_def)

section \<open>Returning to user mode\<close>

lemma tf_entry: "entry a 0 = a" "a + 8 = entry a 1" "a + 16 = entry a 2" "a + 24 = entry a 3" "a + 32 = entry a 4"
  by (simp_all add: entry_def)

lemma mask_out:
  "((x AND NOT a) AND NOT b OR c) AND a = c AND a" "((x AND NOT a) AND NOT b OR c) AND b = c AND b" for x a b c :: u64
  by (auto simp: bit_eq_iff bit_simps)

lemma usertrapret_spec:
  assumes inv: "vm_inv own sown R xs fs s" and tf: "tf_ok own p s" and c: "cur s = Some p"
  shows "\<exists>t. usertrapret s = Ok t \<and> vm_inv own sown R xs fs t \<and> views_but (p_pagetable (ptab s p)) TRAPFRAME R s t \<and>
    changes own (mem s) (mem t) {tf_owner p s} \<and>
    (\<forall>i. 5 \<le> i \<longrightarrow> i < 512 \<longrightarrow> ld64 (mem t) (entry (p_trapframe (ptab s p)) i) = ld64 (mem s) (entry (p_trapframe (ptab s p)) i)) \<and>
    sepc t = ld64 (mem s) (p_trapframe (ptab s p) + TF_EPC) \<and>
    user_jump t = Some (TRAMPOLINE + userret_off (ksym s), MAKE_SATP (p_pagetable (ptab s p))) \<and>
    \<not> intr_get t \<and> sstatus t AND SSTATUS_SPP = 0 \<and> stvec t = TRAMPOLINE + uservec_off (ksym s)"
proof -
  let ?a = "p_trapframe (ptab s p)"
  have al: "pg_aligned ?a" "own ?a = tf_owner p s" using tf by (simp_all add: tf_ok_def)
  define m1 where "m1 = st64 (mem s) (entry ?a 0) (satp s)"
  define m2 where "m2 = st64 m1 (entry ?a 1) (p_kstack (ptab s p) + PGSIZE)"
  define m3 where "m3 = st64 m2 (entry ?a 2) (usertrap_addr (ksym s))"
  define m where "m = st64 m3 (entry ?a 4) (hart_tp s)"
  have st: "changes own x (st64 x (entry ?a i) v) {tf_owner p s}" if "i < 512" for x i v
    by (rule changes_st64 [OF al(1) that]) (simp add: al(2))
  have "changes own (mem s) m1 {tf_owner p s}" "changes own m1 m2 {tf_owner p s}" "changes own m2 m3 {tf_owner p s}" "changes own m3 m {tf_owner p s}"
    unfolding m_def m3_def m2_def m1_def by (rule st; simp)+
  then have ch: "changes own (mem s) m {tf_owner p s}" by (blast intro: changes_trans)
  note ms = m_def m3_def m2_def m1_def
  have epc: "ld64 m (entry ?a 3) = ld64 (mem s) (entry ?a 3)" unfolding m_def m3_def m2_def m1_def by (simp add: ld64_st64_entry al(1))
  have regs: "ld64 m (entry ?a i) = ld64 (mem s) (entry ?a i)" if "5 \<le> i" "i < 512" for i
  proof -
    have "i \<noteq> 0 \<and> i \<noteq> 1 \<and> i \<noteq> 2 \<and> i \<noteq> 4" using that(1) by (auto simp: word_le_nat_alt)
    then show ?thesis unfolding ms using that(2) by (simp add: ld64_st64_entry al(1))
  qed
  define st where "st = ((sstatus s AND NOT SSTATUS_SIE) AND NOT SSTATUS_SPP) OR SSTATUS_SPIE"
  define t where "t = s\<lparr>stvec := TRAMPOLINE + uservec_off (ksym s), mem := m, sstatus := st, sepc := ld64 m (entry ?a 3),
      user_jump := Some (TRAMPOLINE + userret_off (ksym s), MAKE_SATP (p_pagetable (ptab s p)))\<rparr>"
  have "usertrapret s = Ok t"
    using c by (simp add: usertrapret_def myproc_def intr_off_def set_tf_def Let_def tf_entry t_def ms st_def del: bindr_Ok_iff)
  moreover have "vm_inv own sown R xs fs t" "views_but (p_pagetable (ptab s p)) TRAPFRAME R s t"
    using shared_write [OF inv, of t] ch by (simp_all add: t_def vm_same_def)
  moreover have "st AND SSTATUS_SIE = 0" "st AND SSTATUS_SPP = 0" unfolding st_def mask_out by simp_all
  then have "\<not> intr_get t" "sstatus t AND SSTATUS_SPP = 0" by (simp_all add: intr_get_def t_def)
  ultimately show ?thesis using epc regs ch by (auto simp: t_def tf_entry)
qed

section \<open>The fault\<close>

lemma usertrap_fault:
  assumes inv: "vm_inv own sown R xs fs s" and rdy: "swap_ready s" and tf: "tf_ok own p s" and c: "cur s = Some p"
    and pt: "p_pagetable (ptab s p) \<in> R" and va: "stval s < MAXVA" and sc: "scause s \<in> {12, 13, 15}"
    and um: "sstatus s AND SSTATUS_SPP = 0" and sw: "swapped (mem s) (p_pagetable (ptab s p)) (stval s)"
    and fr: "fs \<noteq> []" and nk: "p_killed (ptab s p) = 0"
  shows "\<exists>t own' sown' xs' fs'. usertrap others s = Ok t \<and> vm_inv own' sown' R xs' fs' t \<and>
    views_but (p_pagetable (ptab s p)) TRAPFRAME R s t \<and>
    (\<forall>i. 5 \<le> i \<longrightarrow> i < 512 \<longrightarrow> ld64 (mem t) (entry (p_trapframe (ptab s p)) i) = ld64 (mem s) (entry (p_trapframe (ptab s p)) i)) \<and>
    bit (pte (mem t) (p_pagetable (ptab s p)) (stval s)) 0 \<and> sepc t = sepc s \<and>
    user_jump t = Some (TRAMPOLINE + userret_off (ksym s), MAKE_SATP (p_pagetable (ptab s p)))"
proof -
  let ?pt = "p_pagetable (ptab s p)" and ?a = "p_trapframe (ptab s p)"
  define s1 where "s1 = set_tf p TF_EPC (sepc s) (s\<lparr>stvec := kernelvec_addr (ksym s)\<rparr>)"
  have f1: "ptab s1 = ptab s" "held s1 = held s" "cur s1 = cur s" "bufs s1 = bufs s" "disk s1 = disk s" "slocks s1 = slocks s"
    "scause s1 = scause s" "stval s1 = stval s" "sstatus s1 = sstatus s" "ksym s1 = ksym s" "vm_same s s1"
    "mem s1 = st64 (mem s) (entry ?a 3) (sepc s)"
    by (simp_all add: s1_def set_tf_def vm_same_def tf_entry)
  have al: "pg_aligned ?a" "own ?a = tf_owner p s" using tf by (simp_all add: tf_ok_def)
  have ch: "changes own (mem s) (mem s1) {tf_owner p s}" unfolding f1 by (rule changes_st64 [OF al(1)]) (simp_all add: al(2))
  note w = shared_write [OF inv ch f1(11) f1(4,5)]
  have h: "held s = []" using swap_ready_held [OF rdy] .
  have rdy1: "swap_ready s1" by (rule swap_ready_fields [OF rdy]) (simp_all add: f1 h)
  have sw1: "swapped (mem s1) ?pt (stval s)" using w(3) [OF pt] sw by simp
  obtain own' sown' xs' fs' rc s2 where i: "swapin ?pt (stval s) s1 = Ok (rc, s2)" "vm_inv own' sown' R xs' fs' s2" "swap_ready s2"
    "same_views R s1 s2" "rc = 0 \<and> bit (pte (mem s2) ?pt (stval s)) 0" "pg_kept own s1 s2" "\<forall>a. kept_owner (own a) \<longrightarrow> own' a = own a"
    using swapin_spec [OF w(1) rdy1 pt va] sw1 fr by metis
  have k: "cur s2 = Some p" "p_trapframe (ptab s2 p) = ?a" "p_pagetable (ptab s2 p) = ?pt" "p_killed (ptab s2 p) = 0" "ksym s2 = ksym s"
    using i(6) c nk f1 trap_more(2) [of s2 s1] by (auto simp: pg_kept_def) (metis proc.select_convs proc.surjective proc.update_convs(1))+
  have tfp: "page_eq ?a (mem s2) (mem s1)" using i(6) al(2) by (simp add: pg_kept_def page_eq_def)
  have e: "ld64 (mem s2) (entry ?a 3) = sepc s"
    using ld64_page_cong [OF al(1) _ tfp, of 3] by (simp add: f1(12) ld64_st64_entry al(1))
  have regs: "ld64 (mem s2) (entry ?a i) = ld64 (mem s) (entry ?a i)" if "5 \<le> i" "i < 512" for i
  proof -
    have "i \<noteq> 3" using that(1) by (auto simp: word_le_nat_alt)
    then show ?thesis using ld64_page_cong [OF al(1) that(2) tfp] that(2) by (simp add: f1(12) ld64_st64_entry al(1))
  qed
  have tf2: "tf_ok own' p s2" using al i(7) k(2,3) by (simp add: tf_ok_def)
  obtain t where t: "usertrapret s2 = Ok t" "vm_inv own' sown' R xs' fs' t" "views_but ?pt TRAPFRAME R s2 t" "sepc t = sepc s"
    "changes own' (mem s2) (mem t) {tf_owner p s}" "user_jump t = Some (TRAMPOLINE + userret_off (ksym s), MAKE_SATP ?pt)"
    "\<forall>i. 5 \<le> i \<longrightarrow> i < 512 \<longrightarrow> ld64 (mem t) (entry ?a i) = ld64 (mem s) (entry ?a i)"
    using usertrapret_spec [OF i(2) tf2 k(1)] k e regs by (auto simp: tf_entry)
  have "usertrap_cause others p s1 = Ok (0, s2)"
    using sc va i(1,5) f1 by (auto simp: usertrap_cause_def devintr_def Let_def not_le)
  moreover have "killed p s2 = Ok (0, s2)" using swap_ready_held [OF i(3)] k(4) by (simp add: killed_def)
  ultimately have "usertrap others s = Ok t"
    using um c t(1) by (simp add: usertrap_def myproc_def Let_def s1_def [symmetric])
  moreover have "views_but ?pt TRAPFRAME R s t"
    using views_but_trans [OF w(2) views_but_trans [OF same_views_but [OF i(4)] t(3)]] .
  moreover have "leaf (mem s2) ?pt (stval s) \<noteq> 0"
    using i(4) pt sw1 by (auto simp: same_views_def uview_def Let_def swapped_def split: if_splits)
  then have "bit (pte (mem t) ?pt (stval s)) 0" using pte_changes [OF vm_invD(12) [OF i(2)] t(5) _ pt] i(5) by simp
  ultimately show ?thesis using t by blast
qed

end
