(* ===== verification/Cache.thy ===== *)
theory Cache
  imports SwapIO
begin

text \<open>
  The buffer cache as its clients see it. Besides the content of every block (\<open>bview\<close>) and of the disk, a
  client only depends on how often a block is referenced, whether its buffer is locked, and how many
  buffers are free. Each operation of \<^verbatim>\<open>bio.c\<close> is characterised in these terms.
\<close>

section \<open>The abstract state of the cache\<close>

text \<open>Swap blocks are read with device 0, all others with the root device.\<close>

definition devof :: "u32 \<Rightarrow> u32" where
  "devof n = (if in_swap n then 0 else 1)"

definition cached :: "'a bio_st_scheme \<Rightarrow> nat \<Rightarrow> u32 \<Rightarrow> bool" where
  "cached s b n \<longleftrightarrow> b < NBUF \<and> b_blockno (bufs s b) = n"

text \<open>The number of references to a block, 0 if it is not cached.\<close>

definition refs :: "'a bio_st_scheme \<Rightarrow> u32 \<Rightarrow> nat" where
  "refs s n = (\<Sum>b \<in> {b. cached s b n}. unat (b_refcnt (bufs s b)))"

definition lockd :: "'a bio_st_scheme \<Rightarrow> u32 \<Rightarrow> bool" where
  "lockd s n \<longleftrightarrow> (\<exists>b. cached s b n \<and> sl_locked (slocks s (Buf_slock b)))"

definition nfree :: "'a bio_st_scheme \<Rightarrow> nat" where
  "nfree s = card {b. b < NBUF \<and> b_refcnt (bufs s b) = 0}"

definition cache_ok :: "'a bio_st_scheme \<Rightarrow> bool" where
  "cache_ok s \<longleftrightarrow> bio_inv s \<and> ready s \<and> (\<forall>b n. cached s b n \<longrightarrow> n \<noteq> 0 \<longrightarrow> b_dev (bufs s b) = devof n)"

text \<open>The running process has locked the buffer of the block.\<close>

definition holds :: "'a bio_st_scheme \<Rightarrow> nat \<Rightarrow> u32 \<Rightarrow> bool" where
  "holds s b n \<longleftrightarrow> owns s b (devof n) n"

lemma cached_unique: "bio_inv s \<Longrightarrow> n \<noteq> 0 \<Longrightarrow> cached s b n \<Longrightarrow> cached s c n \<Longrightarrow> b = c"
  using bio_inv_uniq [of s b c] by (auto simp: cached_def)

lemma refs_cached:
  assumes "bio_inv s" "n \<noteq> 0" "cached s b n"
  shows "refs s n = unat (b_refcnt (bufs s b))"
proof -
  have "{b. cached s b n} = {b}" using cached_unique [OF assms(1,2)] assms(3) by blast
  then show ?thesis by (simp add: refs_def)
qed

lemma refs_uncached: "(\<And>b. \<not> cached s b n) \<Longrightarrow> refs s n = 0"
  by (simp add: refs_def)

lemma refs_pos:
  assumes "bio_inv s" "n \<noteq> 0" "0 < refs s n"
  obtains b where "cached s b n" "b_refcnt (bufs s b) \<noteq> 0"
proof -
  have "\<exists>b. cached s b n"
  proof (rule ccontr)
    assume "\<nexists>b. cached s b n"
    then show False using refs_uncached [of s n] assms(3) by simp
  qed
  then obtain b where b: "cached s b n" ..
  have "b_refcnt (bufs s b) \<noteq> 0" using refs_cached [OF assms(1,2) b] assms(3) by auto
  with b show thesis by (rule that)
qed

lemma nfree_pos: "0 < nfree s \<longleftrightarrow> (\<exists>b < NBUF. b_refcnt (bufs s b) = 0)"
proof -
  have "finite {b. b < NBUF \<and> b_refcnt (bufs s b) = 0}" by simp
  then show ?thesis unfolding nfree_def card_gt_0_iff by auto
qed

section \<open>bread\<close>

lemma cache_available:
  assumes ok: "cache_ok s" and n: "n \<noteq> 0" "dev = devof n" and nl: "\<not> lockd s n"
    and av: "0 < refs s n \<or> 0 < nfree s" and mx: "refs s n < 2 ^ 32 - 1"
  shows "available s dev n"
  unfolding available_def
proof (intro conjI allI impI n)
  have inv: "bio_inv s" using ok by (simp add: cache_ok_def)
  {
    fix b assume b: "b < NBUF" "b_blockno (bufs s b) = n"
    then have c: "cached s b n" by (simp add: cached_def)
    show "b_dev (bufs s b) = dev" using ok n c by (simp add: cache_ok_def)
    show "\<not> sl_locked (slocks s (Buf_slock b))" using nl c by (auto simp: lockd_def)
    show "b_refcnt (bufs s b) \<noteq> - 1"
      using refs_cached [OF inv n(1) c] mx unat_uminus [of "1 :: u32"] by auto
  }
  show "(\<exists>b < NBUF. b_blockno (bufs s b) = n) \<or> (\<exists>b < NBUF. b_refcnt (bufs s b) = 0)"
  proof (cases "0 < refs s n")
    case True
    from refs_pos [OF inv n(1) this] obtain b where "cached s b n" .
    then show ?thesis by (auto simp: cached_def)
  next
    case False
    then have "0 < nfree s" using av by simp
    then show ?thesis unfolding nfree_pos by simp
  qed
qed

text \<open>What \<open>bread\<close> does to the buffers: \<open>b\<close> holds block \<open>n\<close>, locked and with one more reference; the others are untouched.\<close>

definition got :: "'a bio_st_scheme \<Rightarrow> 'a bio_st_scheme \<Rightarrow> nat \<Rightarrow> u32 \<Rightarrow> bool" where
  "got s t b n \<longleftrightarrow> bio_inv s \<and> bio_inv t \<and> n \<noteq> 0 \<and> b < NBUF \<and> b_blockno (bufs t b) = n \<and> sl_locked (slocks t (Buf_slock b)) \<and>
     b_refcnt (bufs t b) \<noteq> 0 \<and> (\<forall>c. c \<noteq> b \<longrightarrow> bufs t c = bufs s c) \<and> (\<forall>l. l \<noteq> Buf_slock b \<longrightarrow> slocks t l = slocks s l) \<and>
     bread_buf s n b (b_refcnt (bufs t b))"

lemma got_cached:
  assumes "got s t b n"
  shows "cached t b n" "m \<noteq> n \<Longrightarrow> cached t c m \<longleftrightarrow> c \<noteq> b \<and> cached s c m" "c \<noteq> b \<Longrightarrow> \<not> cached s c n"
proof -
  show "cached t b n" using assms by (simp add: got_def cached_def)
  show "cached t c m \<longleftrightarrow> c \<noteq> b \<and> cached s c m" if "m \<noteq> n"
    using assms that by (cases "c = b") (auto simp: got_def cached_def)
  show "\<not> cached s c n" if "c \<noteq> b"
    using assms that bread_buf_only [of s n b "b_refcnt (bufs t b)"] by (auto simp: got_def cached_def)
qed

text \<open>If the buffer held another block before, it was unused.\<close>

lemma got_recycled:
  assumes "got s t b n" "cached s b m" "m \<noteq> n"
  shows "b_refcnt (bufs s b) = 0" "\<not> sl_locked (slocks s (Buf_slock b))"
proof -
  show z: "b_refcnt (bufs s b) = 0" using assms by (auto simp: got_def bread_buf_def cached_def split: if_splits)
  show "\<not> sl_locked (slocks s (Buf_slock b))" using z assms(1) bio_inv_locked [of s b] by (auto simp: got_def)
qed

lemma got_refcnt:
  assumes g: "got s t b n"
  shows "unat (b_refcnt (bufs t b)) = refs s n + 1" "refs s n = 0 \<longleftrightarrow> b_refcnt (bufs s b) = 0"
proof -
  have inv: "bio_inv s" "n \<noteq> 0" and z: "b_refcnt (bufs t b) \<noteq> 0" and b: "b < NBUF" using g by (simp_all add: got_def)
  have r: "b_refcnt (bufs t b) = b_refcnt (bufs s b) + 1" using g by (auto simp: got_def bread_buf_def split: if_splits)
  have u: "unat (b_refcnt (bufs t b)) = unat (b_refcnt (bufs s b)) + 1"
    unfolding r using z r unatSuc [of "b_refcnt (bufs s b)"] by (simp add: add.commute)
  show "unat (b_refcnt (bufs t b)) = refs s n + 1"
  proof (cases "cached s b n")
    case True
    then show ?thesis using refs_cached [OF inv] u by simp
  next
    case False
    then have "refs s n = 0" using refs_uncached got_cached(3) [OF g] by metis
    moreover have "b_refcnt (bufs s b) = 0" using got_recycled(1) [OF g, of "b_blockno (bufs s b)"] False b by (auto simp: cached_def)
    ultimately show ?thesis using u by simp
  qed
  then show "refs s n = 0 \<longleftrightarrow> b_refcnt (bufs s b) = 0" using u by (auto simp: unat_eq_0)
qed

lemma got_refs:
  assumes g: "got s t b n"
  shows "refs t m = (if m = n then refs s n + 1 else refs s m)"
proof (cases "m = n")
  case True
  then show ?thesis using refs_cached [OF _ _ got_cached(1) [OF g]] got_refcnt(1) [OF g] g by (simp add: got_def)
next
  case False
  have "refs t m = (\<Sum>c \<in> {c. c \<noteq> b \<and> cached s c m}. unat (b_refcnt (bufs s c)))"
    unfolding refs_def got_cached(2) [OF g False] by (rule sum.cong) (use g in \<open>auto simp: got_def\<close>)
  also have "\<dots> = refs s m"
    unfolding refs_def using got_recycled(1) [OF g _ False]
    by (intro sum.mono_neutral_left) (auto simp: cached_def)
  finally show ?thesis using False by simp
qed

lemma got_lockd:
  assumes g: "got s t b n"
  shows "lockd t m \<longleftrightarrow> m = n \<or> lockd s m"
proof (cases "m = n")
  case True
  then show ?thesis using got_cached(1) [OF g] g by (auto simp: lockd_def got_def)
next
  case False
  have "\<forall>c. c \<noteq> b \<longrightarrow> slocks t (Buf_slock c) = slocks s (Buf_slock c)" using g by (simp add: got_def)
  then show ?thesis using False got_cached(2) [OF g False] got_recycled(2) [OF g _ False] unfolding lockd_def by metis
qed

lemma got_nfree:
  assumes g: "got s t b n"
  shows "nfree t + (if refs s n = 0 then 1 else 0) = nfree s"
proof -
  let ?F = "\<lambda>s. {c. c < NBUF \<and> b_refcnt (bufs s c) = 0}"
  have "c \<in> ?F t \<longleftrightarrow> c \<in> ?F s - {b}" for c using g by (cases "c = b") (auto simp: got_def)
  then have "?F t = ?F s - {b}" by (rule set_eqI)
  moreover have "b \<in> ?F s \<longleftrightarrow> refs s n = 0" using g got_refcnt(2) [OF g] by (simp add: got_def)
  moreover have "finite (?F s)" by simp
  ultimately show ?thesis unfolding nfree_def using card_Suc_Diff1 [of "?F s" b] by auto
qed

lemma bread_cache:
  assumes ok: "cache_ok s" and n: "n \<noteq> 0" "dev = devof n" and nl: "\<not> lockd s n"
    and av: "0 < refs s n \<or> 0 < nfree s" and mx: "refs s n < 2 ^ 32 - 1"
  obtains b t where "bread dev n s = Ok (b, t)" "cache_ok t" "holds t b n" "b_data (bufs t b) = bview s n" "bio_frame s t"
    "disk t = disk s" "dwrites t = dwrites s" "\<And>m. m \<noteq> 0 \<Longrightarrow> bview t m = bview s m"
    "\<And>m. m \<noteq> 0 \<Longrightarrow> refs t m = (if m = n then refs s n + 1 else refs s m)"
    "\<And>m. m \<noteq> 0 \<Longrightarrow> lockd t m \<longleftrightarrow> m = n \<or> lockd s m"
    "nfree t + (if refs s n = 0 then 1 else 0) = nfree s"
    "\<And>c m. m \<noteq> 0 \<Longrightarrow> m \<noteq> n \<Longrightarrow> holds s c m \<Longrightarrow> holds t c m \<and> bufs t c = bufs s c"
proof -
  from ok have inv: "bio_inv s" and rdy: "ready s" by (simp_all add: cache_ok_def)
  show thesis
  proof (rule bread_spec [OF inv rdy cache_available [OF assms]])
    fix b t assume t: "bread dev n s = Ok (b, t)" "owns t b dev n" "bio_inv t"
      "b_data (bufs t b) = bview s n" "bio_frame s t" "disk t = disk s" "dwrites t = dwrites s" "ptab t = ptab s"
      "\<And>m. m \<noteq> 0 \<Longrightarrow> bview t m = bview s m" "\<And>c. c \<noteq> b \<Longrightarrow> bufs t c = bufs s c"
      "\<And>l. l \<noteq> Buf_slock b \<Longrightarrow> slocks t l = slocks s l" "bread_buf s n b (b_refcnt (bufs t b))"
    have g: "got s t b n" using t inv n(1) by (simp add: got_def owns_def)
    have b: "b_dev (bufs t b) = dev" "b_blockno (bufs t b) = n" using t(2) by (simp_all add: owns_def)
    have "b_dev (bufs t c) = devof m" if "cached t c m" "m \<noteq> 0" for c m
      using that b n ok t(10) [of c] by (cases "c = b") (auto simp: cached_def cache_ok_def)
    moreover have "ready t" using rdy t(5) by (simp add: ready_def bio_frame_def)
    ultimately have ct: "cache_ok t" using t(3) by (simp add: cache_ok_def)
    have h: "holds t b n" using t(2) n by (simp add: holds_def)
    have o: "holds t c m \<and> bufs t c = bufs s c" if "m \<noteq> 0" "m \<noteq> n" "holds s c m" for c m
    proof -
      have "c \<noteq> b" using that got_recycled [OF g] by (auto simp: holds_def owns_def cached_def)
      then show ?thesis using that(3) t(5,8,10,11) by (auto simp: holds_def owns_def bio_frame_def)
    qed
    show thesis by (rule that [OF t(1) ct h t(4-7,9) got_refs [OF g] got_lockd [OF g] got_nfree [OF g] o])
  qed
qed


section \<open>Operations on a locked buffer\<close>

text \<open>
  An operation on the buffer \<open>b\<close> of block \<open>n\<close> that keeps the tags of all buffers and the reference counts and
  locks of the others.
\<close>

definition on_buf :: "nat \<Rightarrow> 'a bio_st_scheme \<Rightarrow> 'a bio_st_scheme \<Rightarrow> bool" where
  "on_buf b s t \<longleftrightarrow> (\<forall>c. b_blockno (bufs t c) = b_blockno (bufs s c) \<and> b_dev (bufs t c) = b_dev (bufs s c) \<and>
      (c \<noteq> b \<longrightarrow> b_refcnt (bufs t c) = b_refcnt (bufs s c) \<and> b_data (bufs t c) = b_data (bufs s c) \<and>
        b_valid (bufs t c) = b_valid (bufs s c) \<and> slocks t (Buf_slock c) = slocks s (Buf_slock c)))"

lemma on_buf_cached: "on_buf b s t \<Longrightarrow> cached t c m = cached s c m"
  by (simp add: on_buf_def cached_def)

lemma on_buf_ok: "on_buf b s t \<Longrightarrow> cache_ok s \<Longrightarrow> bio_inv t \<Longrightarrow> bio_frame s t \<Longrightarrow> cache_ok t"
  by (simp add: cache_ok_def on_buf_cached ready_def bio_frame_def) (simp add: on_buf_def)

lemma on_buf_refs:
  assumes ob: "on_buf b s t" and inv: "bio_inv s" "bio_inv t" and m: "m \<noteq> 0" and n: "n \<noteq> 0" "cached s b n"
  shows "refs t m = (if m = n then unat (b_refcnt (bufs t b)) else refs s m)"
proof (cases "m = n")
  case True
  then show ?thesis using refs_cached [OF inv(2) n(1), of b] n(2) on_buf_cached [OF ob] by simp
next
  case False
  have "refs t m = refs s m" unfolding refs_def on_buf_cached [OF ob]
    by (rule sum.cong) (use ob n(2) False in \<open>auto simp: on_buf_def cached_def\<close>)
  then show ?thesis using False by simp
qed

lemma on_buf_lockd:
  assumes ob: "on_buf b s t" and inv: "bio_inv s" and m: "m \<noteq> 0" and n: "n \<noteq> 0" "cached s b n"
  shows "lockd t m \<longleftrightarrow> (if m = n then sl_locked (slocks t (Buf_slock b)) else lockd s m)"
proof -
  have "c \<noteq> b \<Longrightarrow> slocks t (Buf_slock c) = slocks s (Buf_slock c)" for c using ob by (simp add: on_buf_def)
  moreover have "cached s c n \<Longrightarrow> c = b" for c using cached_unique [OF inv n(1) _ n(2)] .
  moreover have "m \<noteq> n \<Longrightarrow> \<not> cached s b m" using n(2) by (simp add: cached_def)
  ultimately show ?thesis unfolding lockd_def on_buf_cached [OF ob] using n(2) by (cases "m = n") metis+
qed

lemma on_buf_nfree:
  assumes ob: "on_buf b s t" and b: "b < NBUF"
  shows "nfree t + (if b_refcnt (bufs s b) = 0 then 1 else 0) = nfree s + (if b_refcnt (bufs t b) = 0 then 1 else 0)"
proof -
  let ?F = "\<lambda>s. {c. c < NBUF \<and> b_refcnt (bufs s c) = 0}"
  have "c \<in> ?F t - {b} \<longleftrightarrow> c \<in> ?F s - {b}" for c using ob by (auto simp: on_buf_def)
  then have "?F t - {b} = ?F s - {b}" by (rule set_eqI)
  moreover have "finite (?F t)" "finite (?F s)" by simp_all
  ultimately show ?thesis unfolding nfree_def
    using card_Suc_Diff1 [of "?F s" b] card_Suc_Diff1 [of "?F t" b] b by (cases "b \<in> ?F s"; cases "b \<in> ?F t") simp_all
qed

lemma on_buf_holds:
  assumes ob: "on_buf b s t" and f: "bio_frame s t" and n: "cached s b n" and m: "m \<noteq> n" "holds s c m"
  shows "holds t c m \<and> b_data (bufs t c) = b_data (bufs s c)"
proof -
  have "c \<noteq> b" using n m by (auto simp: cached_def holds_def owns_def)
  then show ?thesis using ob m(2) bio_frame_pid [OF f] f by (auto simp: on_buf_def holds_def owns_def bio_frame_def)
qed

section \<open>The cache as an abstract machine\<close>

text \<open>
  Content of every block as the kernel sees it, content of the disk, references, locks, number of free
  buffers, and the block writes the disk has done.
\<close>

record acache =
  av :: "u32 \<Rightarrow> bytes"
  ad :: "u32 \<Rightarrow> bytes"
  ar :: "u32 \<Rightarrow> nat"
  al :: "u32 \<Rightarrow> bool"
  af :: nat
  aw :: "(u32 \<times> bytes) list"

definition absc :: "'a bio_st_scheme \<Rightarrow> acache \<Rightarrow> bool" where
  "absc s A \<longleftrightarrow> cache_ok s \<and> disk s = ad A \<and> nfree s = af A \<and> dwrites s = aw A \<and>
     (\<forall>m. m \<noteq> 0 \<longrightarrow> bview s m = av A m \<and> refs s m = ar A m \<and> lockd s m = al A m)"

definition a_get :: "u32 \<Rightarrow> acache \<Rightarrow> acache" where
  "a_get n A = A\<lparr>ar := (ar A)(n := ar A n + 1), al := (al A)(n := True),
                 af := af A - (if ar A n = 0 then 1 else 0)\<rparr>"

definition a_set :: "u32 \<Rightarrow> bytes \<Rightarrow> acache \<Rightarrow> acache" where
  "a_set n d A = A\<lparr>av := (av A)(n := d)\<rparr>"

definition a_write :: "u32 \<Rightarrow> acache \<Rightarrow> acache" where
  "a_write n A = A\<lparr>ad := (ad A)(n := av A n), aw := aw A @ [(n, av A n)]\<rparr>"

definition a_rel :: "u32 \<Rightarrow> acache \<Rightarrow> acache" where
  "a_rel n A = A\<lparr>ar := (ar A)(n := ar A n - 1), al := (al A)(n := False),
                 af := af A + (if ar A n = 1 then 1 else 0)\<rparr>"

definition a_unpin :: "u32 \<Rightarrow> acache \<Rightarrow> acache" where
  "a_unpin n A = A\<lparr>ar := (ar A)(n := ar A n - 1)\<rparr>"

text \<open>The buffers of blocks other than \<open>n\<close> stay locked.\<close>

definition keeps :: "u32 \<Rightarrow> 'a bio_st_scheme \<Rightarrow> 'a bio_st_scheme \<Rightarrow> bool" where
  "keeps n s t \<longleftrightarrow> (\<forall>c m. m \<noteq> 0 \<and> m \<noteq> n \<and> holds s c m \<longrightarrow> holds t c m)"

lemma keepsD: "keeps n s t \<Longrightarrow> holds s c m \<Longrightarrow> m \<noteq> 0 \<Longrightarrow> m \<noteq> n \<Longrightarrow> holds t c m"
  by (auto simp: keeps_def)

lemma holds_data: "absc s A \<Longrightarrow> holds s b n \<Longrightarrow> n \<noteq> 0 \<Longrightarrow> b_data (bufs s b) = av A n"
  using bview_buffer [of s b "devof n" n] by (simp add: absc_def cache_ok_def holds_def)

lemma holds_cached: "holds s b n \<Longrightarrow> cached s b n"
  by (simp add: holds_def owns_def cached_def)

lemma on_buf_keeps: "on_buf b s t \<Longrightarrow> bio_frame s t \<Longrightarrow> cached s b n \<Longrightarrow> keeps n s t"
  unfolding keeps_def by (blast dest: on_buf_holds)

lemma holds_refs: "absc s A \<Longrightarrow> holds s b n \<Longrightarrow> n \<noteq> 0 \<Longrightarrow> unat (b_refcnt (bufs s b)) = ar A n"
  using refs_cached [of s n b] holds_cached [of s b n] by (simp add: absc_def cache_ok_def)

lemma holds_locked: "absc s A \<Longrightarrow> holds s b n \<Longrightarrow> n \<noteq> 0 \<Longrightarrow> (al A)(n := True) = al A"
  using holds_cached [of s b n] by (intro fun_upd_idem) (auto simp: absc_def lockd_def holds_def owns_def)

theorem bread_abs:
  assumes a: "absc s A" and n: "n \<noteq> 0" "dev = devof n" and nl: "\<not> al A n"
    and avl: "0 < ar A n \<or> 0 < af A" and mx: "ar A n < 2 ^ 32 - 1"
  shows "\<exists>b t. bread dev n s = Ok (b, t) \<and> absc t (a_get n A) \<and> holds t b n \<and> bio_frame s t \<and> keeps n s t"
proof -
  have ok: "cache_ok s" and nl': "\<not> lockd s n" and av': "0 < refs s n \<or> 0 < nfree s" and mx': "refs s n < 2 ^ 32 - 1"
    using a n nl avl mx by (auto simp: absc_def)
  show ?thesis
  proof (rule bread_cache [OF ok n nl' av' mx'])
    fix b t
    assume t: "bread dev n s = Ok (b, t)" "cache_ok t" "holds t b n" "bio_frame s t" "disk t = disk s"
      "dwrites t = dwrites s" "\<And>m. m \<noteq> 0 \<Longrightarrow> bview t m = bview s m"
      "\<And>m. m \<noteq> 0 \<Longrightarrow> refs t m = (if m = n then refs s n + 1 else refs s m)"
      "\<And>m. m \<noteq> 0 \<Longrightarrow> lockd t m = (m = n \<or> lockd s m)" "nfree t + (if refs s n = 0 then 1 else 0) = nfree s"
      "\<And>c m. m \<noteq> 0 \<Longrightarrow> m \<noteq> n \<Longrightarrow> holds s c m \<Longrightarrow> holds t c m \<and> bufs t c = bufs s c"
    have "absc t (a_get n A)" using a t(2,5-10) n by (auto simp: absc_def a_get_def)
    moreover have "keeps n s t" using t(11) by (simp add: keeps_def)
    ultimately show ?thesis using t by blast
  qed
qed

lemma on_buf_absc:
  assumes a: "absc s A" and ob: "on_buf b s t" and n: "n \<noteq> 0" "cached s b n" and inv: "bio_inv t" and f: "bio_frame s t"
    and B: "disk t = ad B" "dwrites t = aw B" "\<And>m. m \<noteq> 0 \<Longrightarrow> bview t m = av B m"
      "ar B = (ar A)(n := unat (b_refcnt (bufs t b)))" "al B = (al A)(n := sl_locked (slocks t (Buf_slock b)))"
      "af B + (if ar A n = 0 then 1 else 0) = af A + (if ar B n = 0 then 1 else 0)"
  shows "absc t B"
proof -
  have ok: "cache_ok s" and i: "bio_inv s" and b: "b < NBUF" using a n by (simp_all add: absc_def cache_ok_def cached_def)
  have r0: "b_refcnt (bufs s b) = 0 \<longleftrightarrow> ar A n = 0"
    using refs_cached [OF i n] a n by (auto simp: absc_def unat_eq_0)
  have "nfree t = af B" using on_buf_nfree [OF ob b] B(4,6) a r0 by (auto simp: absc_def unat_eq_0 split: if_splits)
  moreover have "refs t m = ar B m" if "m \<noteq> 0" for m
    using on_buf_refs [OF ob i inv that n] B(4) a that by (simp add: absc_def)
  moreover have "lockd t m = al B m" if "m \<noteq> 0" for m
    using on_buf_lockd [OF ob i that n] B(5) a that by (simp add: absc_def)
  ultimately show ?thesis using on_buf_ok [OF ob ok inv f] B(1-3) by (simp add: absc_def)
qed

theorem set_data_abs:
  assumes a: "absc s A" and h: "holds s b n" and n: "n \<noteq> 0"
  shows "absc (set_data b d s) (a_set n d A) \<and> holds (set_data b d s) b n \<and> bio_frame s (set_data b d s) \<and>
         keeps n s (set_data b d s)"
proof -
  let ?t = "set_data b d s"
  have inv: "bio_inv s" and own: "owns s b (devof n) n" using a h by (simp_all add: absc_def cache_ok_def holds_def)
  have ob: "on_buf b s ?t" by (simp add: on_buf_def set_data_def upd_buf_def)
  have f: "bio_frame s ?t" by (simp add: bio_frame_def set_data_def upd_buf_def state_update_triv)
  have r: "b_refcnt (bufs ?t b) = b_refcnt (bufs s b)" "slocks ?t = slocks s" "disk ?t = disk s" "dwrites ?t = dwrites s"
    by (simp_all add: set_data_def upd_buf_def)
  have l: "(al A)(n := True) = al A" by (rule holds_locked [OF a h n])
  have "absc ?t (a_set n d A)"
    by (rule on_buf_absc [OF a ob n holds_cached [OF h] set_data_inv [OF inv own] f])
      (use r a own l holds_refs [OF a h n] set_data_bview [OF inv own n] in \<open>auto simp: a_set_def absc_def owns_def\<close>)
  then show ?thesis using h f on_buf_keeps [OF ob f holds_cached [OF h]] by (simp add: holds_def)
qed

theorem bwrite_abs:
  assumes a: "absc s A" and h: "holds s b n" and n: "n \<noteq> 0"
  shows "\<exists>t. bwrite b s = Ok t \<and> absc t (a_write n A) \<and> holds t b n \<and> bio_frame s t \<and> keeps n s t"
proof -
  have inv: "bio_inv s" and rdy: "ready s" and own: "owns s b (devof n) n"
    using a h by (simp_all add: absc_def cache_ok_def holds_def)
  let ?t = "after_bwrite b n s"
  note sp = after_bwrite_spec [OF inv own n]
  have ob: "on_buf b s ?t" by (simp add: on_buf_def after_bwrite_def)
  have r: "b_refcnt (bufs ?t b) = b_refcnt (bufs s b)" "slocks ?t = slocks s"
    "disk ?t = (disk s)(n := b_data (bufs s b))" "dwrites ?t = dwrites s @ [(n, b_data (bufs s b))]"
    by (simp_all add: after_bwrite_def)
  have l: "(al A)(n := True) = al A" by (rule holds_locked [OF a h n])
  have "absc ?t (a_write n A)"
    by (rule on_buf_absc [OF a ob n holds_cached [OF h] sp(1,4)])
      (use r a own l sp(3) holds_refs [OF a h n] holds_data [OF a h n] in \<open>auto simp: a_write_def absc_def owns_def\<close>)
  then show ?thesis
    using bwrite_exact [OF rdy own] sp on_buf_keeps [OF ob sp(4) holds_cached [OF h]] by (simp add: holds_def)
qed

theorem brelse_abs:
  assumes a: "absc s A" and h: "holds s b n" and n: "n \<noteq> 0" and clean: "ar A n = 1 \<Longrightarrow> av A n = ad A n"
  shows "\<exists>t. brelse b s = Ok t \<and> absc t (a_rel n A) \<and> bio_frame s t \<and> keeps n s t"
proof -
  have inv: "bio_inv s" and rdy: "ready s" and own: "owns s b (devof n) n"
    using a h by (simp_all add: absc_def cache_ok_def holds_def)
  note c = holds_cached [OF h]
  have rp: "0 < ar A n" using holds_refs [OF a h n, symmetric] own by (simp add: owns_def unat_gt_0)
  have cl: "b_refcnt (bufs s b) = 1 \<Longrightarrow> b_data (bufs s b) = disk s n"
    using clean holds_refs [OF a h n] holds_data [OF a h n] a by (simp add: absc_def)
  obtain t where t: "brelse b s = Ok t" "only_links (dropped b s) t" "bio_inv t" by (rule brelse_exact [OF inv rdy own cl])
  note ol = only_links_fields [OF t(2)]
  have "bio_frame (dropped b s) t" using ol by (simp add: bio_frame_def state_update_triv)
  then have f: "bio_frame s t" by (rule bio_frame_trans [OF dropped_frame])
  have ob: "on_buf b s t" by (simp add: on_buf_def ol) (simp add: dropped_def)
  have r: "disk t = disk s" "dwrites t = dwrites s" "\<not> sl_locked (slocks t (Buf_slock b))"
    "b_refcnt (bufs t b) = b_refcnt (bufs s b) - 1" by (simp_all add: ol) (simp_all add: dropped_def)
  have u: "unat (b_refcnt (bufs t b)) = ar A n - 1"
    using r(4) holds_refs [OF a h n] unat_minus_one [of "b_refcnt (bufs s b)"] own by (simp add: owns_def)
  have v: "bview t m = bview s m" for m using only_links_bview [OF t(2)] dropped_bview by metis
  have "absc t (a_rel n A)"
    by (rule on_buf_absc [OF a ob n c t(3) f]) (use a r u v rp in \<open>auto simp: a_rel_def absc_def\<close>)
  then show ?thesis using t(1) f on_buf_keeps [OF ob f c] by blast
qed

theorem bunpin_abs:
  assumes a: "absc s A" and h: "holds s b n" and n: "n \<noteq> 0" and r2: "2 \<le> ar A n"
  shows "\<exists>t. bunpin b s = Ok t \<and> absc t (a_unpin n A) \<and> holds t b n \<and> bio_frame s t \<and> keeps n s t"
proof -
  have inv: "bio_inv s" and rdy: "ready s" and own: "owns s b (devof n) n"
    using a h by (simp_all add: absc_def cache_ok_def holds_def)
  note c = holds_cached [OF h]
  let ?t = "upd_buf b (b_refcnt_update (\<lambda>r. r - 1)) s"
  have t: "bunpin b s = Ok ?t" using rdy by (simp add: bunpin_def ready_def upd_buf_def)
  have ob: "on_buf b s ?t" by (simp add: on_buf_def upd_buf_def)
  have f: "bio_frame s ?t" by (simp add: bio_frame_def upd_buf_def state_update_triv)
  have r: "disk ?t = disk s" "dwrites ?t = dwrites s" "slocks ?t = slocks s"
    "b_refcnt (bufs ?t b) = b_refcnt (bufs s b) - 1" by (simp_all add: upd_buf_def)
  have u: "unat (b_refcnt (bufs ?t b)) = ar A n - 1"
    using r(4) holds_refs [OF a h n] unat_minus_one [of "b_refcnt (bufs s b)"] own by (simp add: owns_def)
  then have nz: "b_refcnt (bufs ?t b) \<noteq> 0" using r2 by auto
  have v: "bview ?t m = bview s m" for m by (rule bview_cong) (simp_all add: upd_buf_def)
  have i: "bio_inv ?t"
  proof -
    obtain xs where l: "blist s xs" using bio_inv_list [OF inv] ..
    have "same_links s ?t" by (simp add: same_links_def upd_buf_def)
    from iffD2 [OF blist_same_links [OF this] l] show ?thesis
      by (rule bio_invI) (use bio_inv_uniq [OF inv] bio_inv_clean [OF inv] bio_inv_locked [OF inv] nz in
        \<open>auto simp: upd_buf_def split: if_splits\<close>)
  qed
  have l: "(al A)(n := True) = al A" by (rule holds_locked [OF a h n])
  have "absc ?t (a_unpin n A)"
    by (rule on_buf_absc [OF a ob n c i f]) (use a r u v l r2 own in \<open>auto simp: a_unpin_def absc_def owns_def\<close>)
  moreover have "holds ?t b n" using own nz by (simp add: holds_def owns_def upd_buf_def)
  ultimately show ?thesis using t f on_buf_keeps [OF ob f c] by blast
qed

end
