(* ===== verification/Crash.thy ===== *)
theory Crash
  imports Log Cache
begin

text \<open>
  Crash atomicity of the log. Every block write of a commit is recorded in order, so a crash in the middle of a
  commit leaves the disk that some prefix of these writes produces. Recovery from any of them gives the state
  before the transaction or the state after it.
\<close>

section \<open>Geometry of the log\<close>

definition lblk :: "int \<Rightarrow> nat \<Rightarrow> u32" where
  "lblk L i = word_of_int (L + int i)"

definition log_geom :: "log \<Rightarrow> bool" where
  "log_geom l \<longleftrightarrow> log_dev l = 1 \<and> 0 < log_start l \<and> log_start l + LOGSIZE < SWAPBASE"

text \<open>A block of the file system proper.\<close>

definition home :: "log \<Rightarrow> u32 \<Rightarrow> bool" where
  "home l m \<longleftrightarrow> m \<noteq> 0 \<and> \<not> in_swap m \<and> (\<forall>i \<le> LOGSIZE. m \<noteq> lblk (log_start l) i)"

text \<open>The blocks of the transaction are distinct blocks of the file system.\<close>

definition lh_ok :: "log \<Rightarrow> bool" where
  "lh_ok l \<longleftrightarrow> 0 \<le> lh_n (log_lh l) \<and> lh_n (log_lh l) \<le> LOGSIZE \<and>
     (\<forall>i < nat (lh_n (log_lh l)). home l (lh_block (log_lh l) i)) \<and>
     inj_on (lh_block (log_lh l)) {..<nat (lh_n (log_lh l))}"

text \<open>The first \<^verbatim>\<open>BSIZE\<close> bytes of one block over another.\<close>

definition over :: "bytes \<Rightarrow> bytes \<Rightarrow> bytes" where
  "over d e = (\<lambda>i. if i < BSIZE then d i else e i)"

definition blk_eq :: "bytes \<Rightarrow> bytes \<Rightarrow> bool" where
  "blk_eq d e \<longleftrightarrow> (\<forall>i < BSIZE. d i = e i)"

text \<open>The disk after a sequence of block writes.\<close>

definition apply_writes :: "(u32 \<times> bytes) list \<Rightarrow> (u32 \<Rightarrow> bytes) \<Rightarrow> u32 \<Rightarrow> bytes" where
  "apply_writes ws D = fold (\<lambda>(n, d) D. D(n := d)) ws D"

lemma lblk_unat: "0 < L \<Longrightarrow> L + LOGSIZE < SWAPBASE \<Longrightarrow> i \<le> LOGSIZE \<Longrightarrow> unat (lblk L i) = nat L + i"
proof -
  assume a: "0 < L" "L + LOGSIZE < SWAPBASE" "i \<le> LOGSIZE"
  have "uint (lblk L i) = (L + int i) mod 2 ^ 32" unfolding lblk_def by (simp only: uint_word_of_int) simp
  also have "\<dots> = L + int i" using a by (intro mod_pos_pos_trivial) auto
  finally show ?thesis using a by (simp add: unat_eq_nat_uint nat_add_distrib)
qed

lemma lblk_geom:
  assumes g: "0 < L" "L + LOGSIZE < SWAPBASE" and i: "i \<le> LOGSIZE"
  shows "lblk L i \<noteq> 0" "\<not> in_swap (lblk L i)" "devof (lblk L i) = 1"
proof -
  have u: "unat (lblk L i) = nat L + i" by (rule lblk_unat [OF g i])
  then show "lblk L i \<noteq> 0" using g by auto
  have "unat (lblk L i) < 2000" using u g i by simp
  then show "\<not> in_swap (lblk L i)" by (simp add: in_swap_def word_le_nat_alt)
  then show "devof (lblk L i) = 1" by (simp add: devof_def)
qed

lemma lblk_inj:
  "0 < L \<Longrightarrow> L + LOGSIZE < SWAPBASE \<Longrightarrow> i \<le> LOGSIZE \<Longrightarrow> j \<le> LOGSIZE \<Longrightarrow> lblk L i = lblk L j \<longleftrightarrow> i = j"
  using lblk_unat [of L i] lblk_unat [of L j] by (metis add_left_cancel)

lemma over_over [simp]: "over (over d e) f = over d f"
  by (auto simp: over_def)

lemma over_self [simp]: "over d d = d"
  by (auto simp: over_def)

lemma blk_eq_refl [simp]: "blk_eq d d"
  by (simp add: blk_eq_def)

lemma blk_eq_over [simp]: "blk_eq (over d e) f = blk_eq d f"
  by (simp add: blk_eq_def over_def)

lemma apply_writes_simps [simp]:
  "apply_writes [] D = D" "apply_writes ((n, d) # ws) D = apply_writes ws (D(n := d))"
  "apply_writes (us @ ws) D = apply_writes ws (apply_writes us D)"
  by (simp_all add: apply_writes_def)

lemma apply_writes_other: "m \<notin> fst ` set ws \<Longrightarrow> apply_writes ws D m = D m"
  by (induction ws arbitrary: D) auto

lemma apply_writes_map:
  assumes "distinct is" "inj_on f (set is)" "i \<in> set is"
  shows "apply_writes (map (\<lambda>i. (f i, g i)) is) D (f i) = g i"
  using assms
proof (induction "is" arbitrary: D)
  case (Cons j js)
  show ?case
  proof (cases "i = j")
    case True
    then have "f j \<notin> fst ` set (map (\<lambda>i. (f i, g i)) js)" using Cons.prems by (auto simp: inj_on_def)
    then show ?thesis using True apply_writes_other by simp
  qed (use Cons in auto)
qed simp

section \<open>Words in a block\<close>

lemma rd32_wr32 [simp]: "rd32 (wr32 d i v) i = v"
  by (rule bit_word_eqI) (auto simp: rd32_def wr32_def bit_rd_bytes bit_ucast_iff bit_drop_bit_eq)

lemma rd32_wr32_other: "i + 4 \<le> j \<or> j + 4 \<le> i \<Longrightarrow> rd32 (wr32 d i v) j = rd32 d j"
  by (rule bit_word_eqI) (auto simp: rd32_def wr32_def bit_rd_bytes)

lemma write_head_loop_other: "j + 4 \<le> 4 \<Longrightarrow> rd32 (write_head_loop is lh d) j = rd32 d j"
  by (induction "is" arbitrary: d) (simp_all add: rd32_wr32_other)

lemma write_head_loop_rd:
  "i \<in> set is \<Longrightarrow> rd32 (write_head_loop is lh d) (4 + 4 * i) = lh_block lh i"
proof (induction "is" rule: rev_induct)
  case (snoc j js)
  have *: "write_head_loop (js @ [j]) lh d = wr32 (write_head_loop js lh d) (4 + 4 * j) (lh_block lh j)"
    by (induction js arbitrary: d) simp_all
  show ?case
  proof (cases "i = j")
    case False
    then have "4 + 4 * j + 4 \<le> 4 + 4 * i \<or> 4 + 4 * i + 4 \<le> 4 + 4 * j" by auto
    then show ?thesis unfolding * using snoc False by (subst rd32_wr32_other) auto
  qed (simp add: *)
qed simp

text \<open>The header block of a transaction.\<close>

definition head_data :: "logheader \<Rightarrow> bytes \<Rightarrow> bytes" where
  "head_data lh d = write_head_loop [0..<nat (lh_n lh)] lh (wr32 d 0 (word_of_int (lh_n lh)))"

lemma head_data_n: "0 \<le> lh_n lh \<Longrightarrow> lh_n lh \<le> LOGSIZE \<Longrightarrow> sint (rd32 (head_data lh d) 0) = lh_n lh"
  by (simp add: head_data_def write_head_loop_other signed_of_int signed_take_bit_int_eq_self)

lemma head_data_block: "i < nat (lh_n lh) \<Longrightarrow> rd32 (head_data lh d) (4 + 4 * i) = lh_block lh i"
  unfolding head_data_def by (rule write_head_loop_rd) simp

section \<open>Operations on one block\<close>

definition a_store :: "u32 \<Rightarrow> bytes \<Rightarrow> acache \<Rightarrow> acache" where
  "a_store n d A = A\<lparr>av := (av A)(n := d), ad := (ad A)(n := d), aw := aw A @ [(n, d)]\<rparr>"

text \<open>Unpinning a buffer nobody else uses frees it.\<close>

definition a_unref :: "u32 \<Rightarrow> acache \<Rightarrow> acache" where
  "a_unref n A = A\<lparr>ar := (ar A)(n := ar A n - 1), af := af A + (if ar A n = 1 then 1 else 0)\<rparr>"

lemma bio_frame_klog: "bio_frame s t \<Longrightarrow> klog t = klog s"
  by (cases s, cases t) (simp add: bio_frame_def)

lemma keeps_trans: "keeps n s t \<Longrightarrow> keeps n t u \<Longrightarrow> keeps n s u"
  by (auto simp: keeps_def)

lemma store_abs:
  assumes a: "absc s A" and h: "holds s b n" and n: "n \<noteq> 0"
  shows "\<exists>t. bwrite b (set_data b d s) = Ok t \<and> absc t (a_store n d A) \<and> holds t b n \<and> bio_frame s t \<and> keeps n s t"
proof -
  note sd = set_data_abs [OF a h n, of d]
  obtain t where t: "bwrite b (set_data b d s) = Ok t" "absc t (a_write n (a_set n d A))" "holds t b n"
    "bio_frame (set_data b d s) t" "keeps n (set_data b d s) t"
    using bwrite_abs [of "set_data b d s" "a_set n d A" b n] sd n by auto
  have "a_write n (a_set n d A) = a_store n d A" by (simp add: a_write_def a_set_def a_store_def)
  then show ?thesis
    using t sd bio_frame_trans [OF _ t(4), of s] keeps_trans [OF _ t(5), of s] by auto
qed

definition usable :: "u32 \<Rightarrow> acache \<Rightarrow> bool" where
  "usable n A \<longleftrightarrow> n \<noteq> 0 \<and> devof n = 1 \<and> \<not> al A n \<and> ar A n < 2 ^ 32 - 1"

lemma pair_get:
  assumes a: "absc s A" and x: "usable x A" "0 < ar A x \<or> 0 < af A" and y: "usable y A" "0 < ar A y \<or> 1 < af A" and xy: "x \<noteq> y"
    and dev: "log_dev (klog s) = 1"
  shows "\<exists>b1 s1 b2 s2. bread (log_dev (klog s)) x s = Ok (b1, s1) \<and> klog s1 = klog s \<and>
     bread (log_dev (klog s)) y s1 = Ok (b2, s2) \<and> klog s2 = klog s \<and>
     absc s2 (a_get y (a_get x A)) \<and> holds s2 b1 x \<and> holds s2 b2 y"
proof -
  obtain b1 s1 where 1: "bread 1 x s = Ok (b1, s1)" "absc s1 (a_get x A)" "holds s1 b1 x" "bio_frame s s1"
    using bread_abs [OF a, of x 1] x by (auto simp: usable_def)
  have "0 < ar (a_get x A) y \<or> 0 < af (a_get x A)" "usable y (a_get x A)"
    using y xy by (auto simp: a_get_def usable_def)
  then obtain b2 s2 where 2: "bread 1 y s1 = Ok (b2, s2)" "absc s2 (a_get y (a_get x A))" "holds s2 b2 y" "bio_frame s1 s2" "keeps y s1 s2"
    using bread_abs [OF 1(2), of y 1] by (auto simp: usable_def)
  have "holds s2 b1 x" using keepsD [OF 2(5) 1(3)] x xy by (simp add: usable_def)
  then show ?thesis using 1 2 dev bio_frame_klog [OF 1(4)] bio_frame_klog [OF 2(4)] by auto
qed

text \<open>One round of \<open>write_log\<close>: the cached block \<open>x\<close> is written to block \<open>y\<close> of the log.\<close>

lemma write_log_step:
  assumes a: "absc s A" and x: "usable x A" "0 < ar A x" and y: "usable y A" "0 < ar A y \<or> 0 < af A" and xy: "x \<noteq> y"
    and dev: "log_dev (klog s) = 1"
    and ax: "x = lh_block (log_lh (klog s)) i" and ay: "y = log_blk s (i + 1)"
  shows "\<exists>t. write_log_loop (i # is) s = write_log_loop is t \<and> absc t (a_store y (over (av A x) (av A y)) A) \<and> klog t = klog s"
proof -
  obtain b1 s1 b2 s2 where 1: "bread (log_dev (klog s)) y s = Ok (b1, s1)" "klog s1 = klog s"
    "bread (log_dev (klog s)) x s1 = Ok (b2, s2)" "klog s2 = klog s"
    "absc s2 (a_get x (a_get y A))" "holds s2 b1 y" "holds s2 b2 x"
    using pair_get [OF a y, of x] x xy dev by auto
  let ?d = "over (av A x) (av A y)"
  have n: "x \<noteq> 0" "y \<noteq> 0" using x y by (simp_all add: usable_def)
  have d: "b_data (bufs s2 b1) = av A y" "b_data (bufs s2 b2) = av A x"
    using holds_data [OF 1(5,6) n(2)] holds_data [OF 1(5,7) n(1)] by (simp_all add: a_get_def)
  obtain s3 where 3: "bwrite b1 (set_data b1 ?d s2) = Ok s3" "absc s3 (a_store y ?d (a_get x (a_get y A)))"
    "holds s3 b1 y" "bio_frame s2 s3" "keeps y s2 s3" using store_abs [OF 1(5,6) n(2)] by blast
  have h3: "holds s3 b2 x" by (rule keepsD [OF 3(5) 1(7) n(1) xy])
  obtain s4 where 4: "brelse b2 s3 = Ok s4" "absc s4 (a_rel x (a_store y ?d (a_get x (a_get y A))))" "bio_frame s3 s4" "keeps x s3 s4"
    using brelse_abs [OF 3(2) h3 n(1)] x xy by (auto simp: a_store_def a_get_def)
  have h4: "holds s4 b1 y" using keepsD [OF 4(4) 3(3) n(2)] xy by simp
  obtain t where t: "brelse b1 s4 = Ok t" "absc t (a_rel y (a_rel x (a_store y ?d (a_get x (a_get y A)))))" "bio_frame s4 t"
    using brelse_abs [OF 4(2) h4 n(2)] xy by (auto simp: a_store_def a_get_def a_rel_def)
  have "a_rel y (a_rel x (a_store y ?d (a_get x (a_get y A)))) = a_store y ?d A"
    using x y xy by (intro acache.equality) (auto simp: a_store_def a_get_def a_rel_def usable_def fun_upd_twist intro!: ext split: if_splits)
  moreover have "klog t = klog s"
    using bio_frame_klog [OF 3(4)] bio_frame_klog [OF 4(3)] bio_frame_klog [OF t(3)] 1(4) by simp
  moreover have "write_log_loop (i # is) s = write_log_loop is t"
    using 1(1-4) 3(1) 4(1) t(1) d by (simp add: ax ay over_def cong: if_cong)
  ultimately show ?thesis using t(2) by metis
qed

text \<open>One round of \<open>install_trans\<close>: the log's block \<open>x\<close> is copied to its home \<open>y\<close>.\<close>

lemma install_step:
  assumes a: "absc s A" and x: "usable x A" "0 < ar A x \<or> 0 < af A"
    and y: "usable y A" "if rec then 0 < ar A y \<or> 1 < af A else 0 < ar A y" and xy: "x \<noteq> y"
    and clean: "ar A x = 0 \<Longrightarrow> av A x = ad A x"
    and dev: "log_dev (klog s) = 1"
    and ax: "x = log_blk s (i + 1)" and ay: "y = lh_block (log_lh (klog s)) i"
  shows "\<exists>t. install_loop rec (i # is) s = install_loop rec is t \<and> klog t = klog s \<and>
     absc t ((if rec then id else a_unref y) (a_store y (over (av A x) (av A y)) A))"
proof -
  obtain b1 s1 b2 s2 where 1: "bread (log_dev (klog s)) x s = Ok (b1, s1)" "klog s1 = klog s"
    "bread (log_dev (klog s)) y s1 = Ok (b2, s2)" "klog s2 = klog s"
    "absc s2 (a_get y (a_get x A))" "holds s2 b1 x" "holds s2 b2 y"
    using pair_get [OF a x y(1) _ xy dev] y(2) by (auto split: if_splits)
  let ?d = "over (av A x) (av A y)"
  have n: "x \<noteq> 0" "y \<noteq> 0" using x y by (simp_all add: usable_def)
  have d: "b_data (bufs s2 b2) = av A y" "b_data (bufs s2 b1) = av A x"
    using holds_data [OF 1(5,7) n(2)] holds_data [OF 1(5,6) n(1)] by (simp_all add: a_get_def)
  let ?B = "a_store y ?d (a_get y (a_get x A))"
  obtain s3 where 3: "bwrite b2 (set_data b2 ?d s2) = Ok s3" "absc s3 ?B"
    "holds s3 b2 y" "bio_frame s2 s3" "keeps y s2 s3" using store_abs [OF 1(5,7) n(2)] by blast
  have h3: "holds s3 b1 x" by (rule keepsD [OF 3(5) 1(6) n(1) xy])
  have u: "2 \<le> ar ?B y" if "\<not> rec" using that y(2) by (simp add: a_store_def a_get_def)
  let ?C = "(if rec then id else a_unpin y) ?B"
  obtain s4 where 4: "(if \<not> rec then bunpin b2 s3 else Ok s3) = Ok s4" "absc s4 ?C" "holds s4 b2 y" "bio_frame s3 s4" "keeps y s3 s4"
    using bunpin_abs [OF 3(2,3) n(2)] u 3(2,3) by (cases "rec") (auto simp: keeps_def)
  have h4: "holds s4 b1 x" by (rule keepsD [OF 4(5) h3 n(1) xy])
  have c1: "av ?C x = ad ?C x" if "ar ?C x = 1" using that clean xy by (cases "rec") (simp_all add: a_store_def a_get_def a_unpin_def)
  have c2: "av (a_rel x ?C) y = ad (a_rel x ?C) y" by (cases "rec") (simp_all add: a_store_def a_rel_def a_unpin_def)
  obtain s5 where 5: "brelse b1 s4 = Ok s5" "absc s5 (a_rel x ?C)" "bio_frame s4 s5" "keeps x s4 s5"
    using brelse_abs [OF 4(2) h4 n(1) c1] by blast
  have h5: "holds s5 b2 y" using keepsD [OF 5(4) 4(3) n(2)] xy by simp
  obtain t where t: "brelse b2 s5 = Ok t" "absc t (a_rel y (a_rel x ?C))" "bio_frame s5 t"
    using brelse_abs [OF 5(2) h5 n(2) c2] by blast
  have "a_rel y (a_rel x ?C) = (if rec then id else a_unref y) (a_store y ?d A)"
    using x y xy
    by (cases "rec"; intro acache.equality)
      (auto simp: a_store_def a_get_def a_rel_def a_unpin_def a_unref_def usable_def fun_upd_twist intro!: ext split: if_splits)
  moreover have "klog t = klog s"
    using bio_frame_klog [OF 3(4)] bio_frame_klog [OF 4(4)] bio_frame_klog [OF 5(3)] bio_frame_klog [OF t(3)] 1(4) by simp
  moreover have "install_loop rec (i # is) s = install_loop rec is t"
    using 1(1-4) 3(1) 4(1) 5(1) t(1) d by (simp add: ax ay over_def cong: if_cong)
  ultimately show ?thesis using t(2) by metis
qed

section \<open>The loops\<close>

definition a_writes :: "(u32 \<times> bytes) list \<Rightarrow> acache \<Rightarrow> acache" where
  "a_writes ws A = A\<lparr>av := apply_writes ws (av A), ad := apply_writes ws (ad A), aw := aw A @ ws\<rparr>"

lemma a_writes_simps [simp]:
  "a_writes [] A = A" "a_writes (us @ ws) A = a_writes ws (a_writes us A)" "a_writes ((n, d) # ws) A = a_writes ws (a_store n d A)"
  "ar (a_writes ws A) = ar A" "al (a_writes ws A) = al A" "af (a_writes ws A) = af A"
  by (simp_all add: a_writes_def a_store_def)

lemma a_store_simps [simp]:
  "ar (a_store n d A) = ar A" "al (a_store n d A) = al A" "af (a_store n d A) = af A"
  "av (a_store n d A) = (av A)(n := d)" "ad (a_store n d A) = (ad A)(n := d)" "aw (a_store n d A) = aw A @ [(n, d)]"
  by (simp_all add: a_store_def)

lemma usable_store [simp]: "usable m (a_store n d A) = usable m A" "usable m (a_writes ws A) = usable m A"
  by (simp_all add: usable_def)

lemma a_unref_simps [simp]:
  "av (a_unref n A) = av A" "ad (a_unref n A) = ad A" "aw (a_unref n A) = aw A" "al (a_unref n A) = al A"
  "af A \<le> af (a_unref n A)" "ar (a_unref n A) m = (if m = n then ar A n - 1 else ar A m)"
  by (simp_all add: a_unref_def)

lemma a_unref_store: "a_unref n (a_store m d A) = a_store m d (a_unref n A)"
  by (simp add: a_unref_def a_store_def)

lemma usable_unref: "usable m A \<Longrightarrow> usable m (a_unref n A)"
  by (auto simp: usable_def)

text \<open>A block nobody refers to is clean.\<close>

lemma absc_clean:
  assumes a: "absc s A" and n: "n \<noteq> 0" and r: "ar A n = 0"
  shows "av A n = ad A n"
proof -
  have inv: "bio_inv s" and d: "disk s = ad A" "bview s n = av A n" "refs s n = 0" using a n r by (auto simp: absc_def cache_ok_def)
  show ?thesis
  proof (cases "\<exists>b < NBUF. b_blockno (bufs s b) = n \<and> b_valid (bufs s b)")
    case True
    then obtain b where b: "b < NBUF" "b_blockno (bufs s b) = n" "b_valid (bufs s b)" by blast
    then have "b_refcnt (bufs s b) = 0"
      using refs_cached [OF inv n, of b] d(3) by (simp add: cached_def unat_eq_0)
    then show ?thesis using bview_cached [OF inv b n] bio_inv_clean [OF inv b(1,3)] b(2) d by simp
  next
    case False
    then show ?thesis using bview_uncached [of s n] d by auto
  qed
qed

text \<open>The blocks of the log are not in use by anyone else.\<close>

definition log_free :: "log \<Rightarrow> acache \<Rightarrow> bool" where
  "log_free l A \<longleftrightarrow> log_geom l \<and> (\<forall>i \<le> LOGSIZE. usable (lblk (log_start l) i) A)"

lemma log_blk_lblk: "log_blk s i = lblk (log_start (klog s)) i"
  by (simp add: log_blk_def lblk_def)

lemma log_free_mono [simp]:
  "log_free l (a_store n d A) = log_free l A" "log_free l (a_writes ws A) = log_free l A"
  "log_free l A \<Longrightarrow> log_free l (a_unref n A)"
  by (auto simp: log_free_def usable_unref)

abbreviation hblk :: "log \<Rightarrow> nat \<Rightarrow> u32" where "hblk l i \<equiv> lh_block (log_lh l) i"
abbreviation lslot :: "log \<Rightarrow> nat \<Rightarrow> u32" where "lslot l i \<equiv> lblk (log_start l) (i + 1)"
abbreviation lh_len :: "log \<Rightarrow> nat" where "lh_len l \<equiv> nat (lh_n (log_lh l))"

definition log_writes :: "log \<Rightarrow> (u32 \<Rightarrow> bytes) \<Rightarrow> nat list \<Rightarrow> (u32 \<times> bytes) list" where
  "log_writes l v ts = map (\<lambda>i. (lslot l i, over (v (hblk l i)) (v (lslot l i)))) ts"

definition home_writes :: "log \<Rightarrow> (u32 \<Rightarrow> bytes) \<Rightarrow> nat list \<Rightarrow> (u32 \<times> bytes) list" where
  "home_writes l v ts = map (\<lambda>i. (hblk l i, over (v (lslot l i)) (v (hblk l i)))) ts"

lemma home_head: "home l m \<Longrightarrow> m \<noteq> lblk (log_start l) 0"
  by (simp add: home_def)

lemma log_free_lh [simp]: "log_free (l\<lparr>log_lh := x\<rparr>) A = log_free l A"
  by (simp add: log_free_def log_geom_def)

lemma log_writes_Cons:
  "a_writes (log_writes l v (i # is)) A = a_writes (log_writes l v is) (a_store (lslot l i) (over (v (hblk l i)) (v (lslot l i))) A)"
  by (simp add: log_writes_def)

lemma home_writes_Cons:
  "a_writes (home_writes l v (i # is)) A = a_writes (home_writes l v is) (a_store (hblk l i) (over (v (lslot l i)) (v (hblk l i))) A)"
  by (simp add: home_writes_def)

lemma home_slot: "home l m \<Longrightarrow> i < LOGSIZE \<Longrightarrow> m \<noteq> lslot l i"
  by (simp add: home_def)

lemma slot_inj: "log_geom l \<Longrightarrow> i < LOGSIZE \<Longrightarrow> j < LOGSIZE \<Longrightarrow> lslot l i = lslot l j \<longleftrightarrow> i = j"
  using lblk_inj [of "log_start l" "i + 1" "j + 1"] by (simp add: log_geom_def)

lemma write_log_loop_abs:
  "absc s A \<Longrightarrow> klog s = l \<Longrightarrow> log_free l A \<Longrightarrow> 0 < af A \<Longrightarrow> distinct ts \<Longrightarrow>
   \<forall>i \<in> set ts. i < LOGSIZE \<and> home l (hblk l i) \<and> usable (hblk l i) A \<and> 0 < ar A (hblk l i) \<Longrightarrow>
   \<exists>t. write_log_loop ts s = Ok t \<and> absc t (a_writes (log_writes l (av A) ts) A) \<and> klog t = l"
proof (induction ts arbitrary: s A)
  case (Cons i "is")
  let ?x = "hblk l i" and ?y = "lslot l i"
  have i: "i < LOGSIZE" "home l ?x" "usable ?x A" "0 < ar A ?x" and g: "log_geom l" and y: "usable ?y A"
    using Cons.prems by (auto simp: log_free_def)
  have d: "0 < ar A ?y \<or> 0 < af A" "?x \<noteq> ?y" "log_dev (klog s) = 1" "?x = lh_block (log_lh (klog s)) i" "?y = log_blk s (i + 1)"
    using Cons.prems(2,4) g home_slot [OF i(2,1)] by (simp_all add: log_geom_def log_blk_lblk)
  obtain t where t: "write_log_loop (i # is) s = write_log_loop is t"
    "absc t (a_store ?y (over (av A ?x) (av A ?y)) A)" "klog t = l"
    using write_log_step [OF Cons.prems(1) i(3,4) y d, of "is"] Cons.prems(2) by blast
  let ?A = "a_store ?y (over (av A ?x) (av A ?y)) A"
  have "log_writes l (av ?A) is = log_writes l (av A) is"
    unfolding log_writes_def
  proof (rule map_cong)
    fix j assume j: "j \<in> set is"
    then have "hblk l j \<noteq> ?y" "lslot l j \<noteq> ?y" using Cons.prems i g home_slot slot_inj by auto
    then show "(lslot l j, over (av ?A (hblk l j)) (av ?A (lslot l j))) = (lslot l j, over (av A (hblk l j)) (av A (lslot l j)))"
      by simp
  qed simp
  moreover have "\<exists>t'. write_log_loop is t = Ok t' \<and> absc t' (a_writes (log_writes l (av ?A) is) ?A) \<and> klog t' = l"
    by (rule Cons.IH [OF t(2,3)]) (use Cons.prems in auto)
  ultimately show ?case unfolding t(1) log_writes_Cons by (simp only:)
qed (simp add: log_writes_def)

lemma a_unref_writes: "a_unref n (a_writes ws A) = a_writes ws (a_unref n A)"
  by (simp add: a_unref_def a_writes_def)

lemma fold_unref_store: "fold a_unref ns (a_store n e B) = a_store n e (fold a_unref ns B)"
  by (induction ns arbitrary: B) (simp_all add: a_unref_store)

lemma install_loop_abs:
  "absc s A \<Longrightarrow> klog s = l \<Longrightarrow> log_free l A \<Longrightarrow> (if rec then 1 else 0) < af A \<Longrightarrow> distinct ts \<Longrightarrow> inj_on (hblk l) (set ts) \<Longrightarrow>
   \<forall>i \<in> set ts. i < LOGSIZE \<and> home l (hblk l i) \<and> usable (hblk l i) A \<and> (rec \<or> 0 < ar A (hblk l i)) \<Longrightarrow>
   \<exists>t. install_loop rec ts s = Ok t \<and> klog t = l \<and>
     absc t (a_writes (home_writes l (av A) ts) ((if rec then id else fold a_unref (map (hblk l) ts)) A))"
proof (induction ts arbitrary: s A)
  case (Cons i "is")
  let ?y = "hblk l i" and ?x = "lslot l i"
  have i: "i < LOGSIZE" "home l ?y" "usable ?y A" "rec \<or> 0 < ar A ?y" and g: "log_geom l" and x: "usable ?x A"
    using Cons.prems by (auto simp: log_free_def)
  have d: "0 < ar A ?x \<or> 0 < af A" "if rec then 0 < ar A ?y \<or> 1 < af A else 0 < ar A ?y" "?x \<noteq> ?y"
    "log_dev (klog s) = 1" "?y = lh_block (log_lh (klog s)) i" "?x = log_blk s (i + 1)"
    using Cons.prems(2,4) i(4) g home_slot [OF i(2,1)] by (auto simp: log_geom_def log_blk_lblk split: if_splits)
  have cl: "ar A ?x = 0 \<Longrightarrow> av A ?x = ad A ?x"
    using absc_clean [OF Cons.prems(1)] x by (simp add: usable_def)
  let ?u = "if rec then id else a_unref ?y"
  let ?A = "a_store ?y (over (av A ?x) (av A ?y)) (?u A)"
  obtain t where t: "install_loop rec (i # is) s = install_loop rec is t" "klog t = l" "absc t ?A"
    using install_step [OF Cons.prems(1) x d(1) i(3) d(2,3) cl d(4,6,5), of "is"] Cons.prems(2)
    by (cases "rec") (auto simp: a_unref_store)
  have v: "home_writes l (av ?A) is = home_writes l (av A) is"
    unfolding home_writes_def
  proof (rule map_cong)
    fix j assume j: "j \<in> set is"
    then have "hblk l j \<noteq> ?y" "lslot l j \<noteq> ?y" using Cons.prems(5-7) i home_slot [of l ?y j] by (auto simp: inj_on_def)
    then show "(hblk l j, over (av ?A (lslot l j)) (av ?A (hblk l j))) = (hblk l j, over (av A (lslot l j)) (av A (hblk l j)))"
      by (cases "rec") simp_all
  qed simp
  have "\<exists>t'. install_loop rec is t = Ok t' \<and> klog t' = l \<and>
      absc t' (a_writes (home_writes l (av ?A) is) ((if rec then id else fold a_unref (map (hblk l) is)) ?A))"
  proof (rule Cons.IH [OF t(3,2)])
    show "\<forall>j \<in> set is. j < LOGSIZE \<and> home l (hblk l j) \<and> usable (hblk l j) ?A \<and> (rec \<or> 0 < ar ?A (hblk l j))"
      using Cons.prems(5-7) by (auto simp: inj_on_def usable_unref)
    show "(if rec then 1 else 0) < af ?A" using Cons.prems(4) a_unref_simps(5) [of A ?y] by (cases "rec") (simp_all del: a_unref_simps(5))
  qed (use Cons.prems in \<open>auto intro: inj_on_subset\<close>)
  then show ?case unfolding t(1) home_writes_Cons v by (cases "rec") (simp_all add: fold_unref_store)
qed (simp add: home_writes_def)

section \<open>The header\<close>

lemma absc_cong:
  assumes "bufs t = bufs s" "slocks t = slocks s" "disk t = disk s" "dwrites t = dwrites s" "held t = held s" "cur t = cur s"
  shows "absc t A = absc s A"
  using assms bview_fields [of t s] bio_inv_cong [of t s]
  by (simp add: absc_def cache_ok_def ready_def refs_def lockd_def nfree_def cached_def)

lemma absc_log [simp]: "absc (upd_log f s) A = absc s A" "absc (upd_lh g s) A = absc s A"
  by (rule absc_cong; simp add: upd_lh_def upd_log_def)+

lemma holds_log [simp]: "holds (upd_log f s) b n = holds s b n" "holds (upd_lh g s) b n = holds s b n"
  by (simp_all add: holds_def owns_def upd_lh_def upd_log_def)

lemma get_rel: "usable n A \<Longrightarrow> 0 < af A \<Longrightarrow> a_rel n (a_get n A) = A"
  by (intro acache.equality) (auto simp: a_get_def a_rel_def usable_def intro!: ext split: if_splits)

lemma head_get:
  assumes a: "absc s A" and f: "log_free (klog s) A" and af: "0 < af A"
  shows "\<exists>b t. bread (log_dev (klog s)) (log_blk s 0) s = Ok (b, t) \<and> absc t (a_get (log_blk s 0) A) \<and>
    holds t b (log_blk s 0) \<and> klog t = klog s \<and> usable (log_blk s 0) A \<and> b_data (bufs t b) = av A (log_blk s 0)"
proof -
  have u: "usable (log_blk s 0) A" "log_dev (klog s) = 1" using f by (simp_all add: log_free_def log_geom_def log_blk_lblk)
  obtain b t where t: "bread 1 (log_blk s 0) s = Ok (b, t)" "absc t (a_get (log_blk s 0) A)" "holds t b (log_blk s 0)" "bio_frame s t"
    using bread_abs [OF a, of "log_blk s 0" 1] u af by (auto simp: usable_def)
  moreover have "b_data (bufs t b) = av A (log_blk s 0)"
    using holds_data [OF t(2,3)] u by (simp add: usable_def a_get_def)
  ultimately show ?thesis using u bio_frame_klog [OF t(4)] by auto
qed

lemma write_head_abs:
  assumes a: "absc s A" and f: "log_free (klog s) A" and af: "0 < af A"
  shows "\<exists>t. write_head s = Ok t \<and> klog t = klog s \<and>
    absc t (a_store (log_blk s 0) (head_data (log_lh (klog s)) (av A (log_blk s 0))) A)"
proof -
  let ?n = "log_blk s 0"
  let ?d = "head_data (log_lh (klog s)) (av A ?n)"
  obtain b s1 where 1: "bread (log_dev (klog s)) ?n s = Ok (b, s1)" "absc s1 (a_get ?n A)" "holds s1 b ?n" "klog s1 = klog s"
    "usable ?n A" "b_data (bufs s1 b) = av A ?n" using head_get [OF assms] by blast
  have n: "?n \<noteq> 0" using 1(5) by (simp add: usable_def)
  obtain s2 where 2: "bwrite b (set_data b ?d s1) = Ok s2" "absc s2 (a_store ?n ?d (a_get ?n A))" "holds s2 b ?n" "bio_frame s1 s2"
    using store_abs [OF 1(2,3) n] by blast
  obtain t where t: "brelse b s2 = Ok t" "absc t (a_rel ?n (a_store ?n ?d (a_get ?n A)))" "bio_frame s2 t"
    using brelse_abs [OF 2(2,3) n] by auto
  have "a_rel ?n (a_store ?n ?d (a_get ?n A)) = a_store ?n ?d (a_rel ?n (a_get ?n A))"
    by (simp add: a_rel_def a_store_def)
  then have "absc t (a_store ?n ?d A)" using t(2) get_rel [OF 1(5) af] by simp
  moreover have "write_head s = Ok t"
    unfolding write_head_def using 1(1,4,6) 2(1) t(1) by (simp add: Let_def head_data_def del: upt.simps)
  ultimately show ?thesis using bio_frame_klog [OF 2(4)] bio_frame_klog [OF t(3)] 1(4) by auto
qed

text \<open>The header in memory after \<open>read_head\<close> of the header block \<open>d\<close>.\<close>

definition loaded :: "bytes \<Rightarrow> log \<Rightarrow> log" where
  "loaded d l = l\<lparr>log_lh := (log_lh l)\<lparr>lh_n := sint (rd32 d 0),
     lh_block := \<lambda>i. if i < nat (sint (rd32 d 0)) then rd32 d (4 + 4 * i) else lh_block (log_lh l) i\<rparr>\<rparr>"

lemma read_head_abs:
  assumes a: "absc s A" and f: "log_free (klog s) A" and af: "0 < af A"
  shows "\<exists>t. read_head s = Ok t \<and> klog t = loaded (av A (log_blk s 0)) (klog s) \<and> absc t A"
proof -
  let ?n = "log_blk s 0"
  obtain b s1 where 1: "bread (log_dev (klog s)) ?n s = Ok (b, s1)" "absc s1 (a_get ?n A)" "holds s1 b ?n" "klog s1 = klog s"
    "usable ?n A" "b_data (bufs s1 b) = av A ?n" using head_get [OF assms] by blast
  have n: "?n \<noteq> 0" using 1(5) by (simp add: usable_def)
  define s2 where "s2 = upd_lh (lh_n_update (\<lambda>_. sint (rd32 (av A ?n) 0))) s1"
  define s3 where "s3 = upd_lh (lh_block_update (\<lambda>bl i. if i < nat (lh_n (log_lh (klog s2))) then rd32 (av A ?n) (4 + 4 * i) else bl i)) s2"
  have h: "absc s3 (a_get ?n A)" "holds s3 b ?n" using 1(2,3) by (simp_all add: s2_def s3_def)
  have cl: "av (a_get ?n A) ?n = ad (a_get ?n A) ?n" if "ar (a_get ?n A) ?n = 1"
    using that absc_clean [OF a n] by (simp add: a_get_def)
  obtain t where t: "brelse b s3 = Ok t" "absc t (a_rel ?n (a_get ?n A))" "bio_frame s3 t"
    using brelse_abs [OF h n cl] by blast
  have "read_head s = Ok t"
    unfolding read_head_def using 1(1,6) t(1) by (simp add: Let_def s3_def s2_def cong: if_cong)
  moreover have "klog s3 = loaded (av A ?n) (klog s)"
    using 1(4) by (simp add: s3_def s2_def loaded_def upd_lh_def upd_log_def)
  ultimately show ?thesis using bio_frame_klog [OF t(3)] t(2) get_rel [OF 1(5) af] by simp
qed

section \<open>Commit and recovery\<close>

definition commit_writes :: "log \<Rightarrow> (u32 \<Rightarrow> bytes) \<Rightarrow> (u32 \<times> bytes) list" where
  "commit_writes l v =
     (let h = lblk (log_start l) 0; ts = [0..<lh_len l]; d = head_data (log_lh l) (v h) in
      log_writes l v ts @ [(h, d)] @ map (\<lambda>i. (hblk l i, v (hblk l i))) ts @ [(h, head_data ((log_lh l)\<lparr>lh_n := 0\<rparr>) d)])"

lemma log_writes_fst: "fst ` set (log_writes l v ts) = lslot l ` set ts"
  by (simp add: log_writes_def image_image)

lemma log_writes_other: "m \<notin> lslot l ` set ts \<Longrightarrow> apply_writes (log_writes l v ts) D m = D m"
  by (rule apply_writes_other) (simp add: log_writes_fst)

lemma head_slot: "log_geom l \<Longrightarrow> i < LOGSIZE \<Longrightarrow> lblk (log_start l) 0 \<noteq> lslot l i"
  using lblk_inj [of "log_start l" 0 "i + 1"] by (simp add: log_geom_def)

lemma log_writes_slot:
  assumes "log_geom l" "distinct ts" "\<forall>i \<in> set ts. i < LOGSIZE" "i \<in> set ts"
  shows "apply_writes (log_writes l v ts) D (lslot l i) = over (v (hblk l i)) (v (lslot l i))"
proof -
  have "inj_on (lslot l) (set ts)" using assms slot_inj by (auto simp: inj_on_def)
  from apply_writes_map [OF assms(2) this assms(4)] show ?thesis unfolding log_writes_def .
qed

lemma lh_okD:
  assumes "lh_ok l"
  shows "\<forall>i \<in> set [0..<lh_len l]. i < LOGSIZE \<and> home l (hblk l i)" "inj_on (hblk l) (set [0..<lh_len l])"
    "lh_len l \<le> LOGSIZE"
  using assms unfolding lh_ok_def by (auto simp: lessThan_atLeast0)

lemma fold_unref [simp]:
  "av (fold a_unref ns A) = av A" "ad (fold a_unref ns A) = ad A" "aw (fold a_unref ns A) = aw A" "al (fold a_unref ns A) = al A"
  "log_free l A \<Longrightarrow> log_free l (fold a_unref ns A)" "af A \<le> af (fold a_unref ns A)"
  by (induction ns arbitrary: A) (simp_all, meson a_unref_simps(5) le_trans)

lemma unref_writes: "fold a_unref ns (a_writes ws A) = a_writes ws (fold a_unref ns A)"
  by (induction ns arbitrary: A) (simp_all add: a_unref_writes)

lemma commit_abs:
  assumes a: "absc s A" and l: "klog s = l" and f: "log_free l A" and ok: "lh_ok l" and n: "0 < lh_n (log_lh l)"
    and af: "0 < af A" and pin: "\<forall>i < lh_len l. usable (hblk l i) A \<and> 0 < ar A (hblk l i)"
  shows "\<exists>t. commit s = Ok t \<and>
    absc t (a_writes (commit_writes l (av A)) (fold a_unref (map (hblk l) [0..<lh_len l]) A))"
proof -
  let ?ts = "[0..<lh_len l]" and ?h = "lblk (log_start l) 0" and ?v = "av A"
  let ?W = "log_writes l ?v ?ts" and ?U = "fold a_unref (map (hblk l) ?ts)" and ?d = "head_data (log_lh l) (?v (lblk (log_start l) 0))"
  note okd = lh_okD [OF ok]
  have g: "log_geom l" using f by (simp add: log_free_def)
  obtain s1 where 1: "write_log s = Ok s1" "absc s1 (a_writes ?W A)" "klog s1 = l"
    using write_log_loop_abs [OF a l f af, of ?ts] okd pin l by (auto simp: write_log_def)
  have h: "av (a_writes ?W A) ?h = ?v ?h"
  proof -
    have "?h \<notin> lslot l ` set ?ts" using okd(1) head_slot [OF g] by blast
    from log_writes_other [OF this] show ?thesis by (simp add: a_writes_def)
  qed
  obtain s2 where 2: "write_head s1 = Ok s2" "klog s2 = l" "absc s2 (a_store ?h ?d (a_writes ?W A))"
    using write_head_abs [OF 1(2)] 1(3) f af h by (auto simp: log_blk_lblk)
  let ?A2 = "a_store ?h ?d (a_writes ?W A)"
  have hw: "home_writes l (av ?A2) ?ts = map (\<lambda>i. (hblk l i, ?v (hblk l i))) ?ts"
    unfolding home_writes_def
  proof (rule map_cong)
    fix i assume i: "i \<in> set ?ts"
    then have *: "i < LOGSIZE" "home l (hblk l i)" using okd(1) by auto
    have "hblk l i \<notin> lslot l ` set ?ts" using okd(1) home_slot [OF *(2)] by blast
    moreover have "hblk l i \<noteq> ?h" using *(2) by (simp add: home_def)
    moreover have "apply_writes ?W (av A) (lslot l i) = over (?v (hblk l i)) (?v (lslot l i))"
      using log_writes_slot [OF g _ _ i] okd(1) by simp
    ultimately show "(hblk l i, over (av ?A2 (lslot l i)) (av ?A2 (hblk l i))) = (hblk l i, ?v (hblk l i))"
      using head_slot [OF g *(1)] log_writes_other [of "hblk l i" l ?ts] by (simp add: a_writes_def)
  qed simp
  obtain s3 where 3: "install_trans False s2 = Ok s3" "klog s3 = l"
    "absc s3 (a_writes (map (\<lambda>i. (hblk l i, ?v (hblk l i))) ?ts) (?U ?A2))"
    using install_loop_abs [OF 2(3,2), of False ?ts] okd pin f af hw 2(2) by (auto simp: install_trans_def)
  let ?A3 = "a_writes (map (\<lambda>i. (hblk l i, ?v (hblk l i))) ?ts) (?U ?A2)"
  let ?s3 = "upd_lh (lh_n_update (\<lambda>_. 0)) s3"
  have k: "klog ?s3 = l\<lparr>log_lh := (log_lh l)\<lparr>lh_n := 0\<rparr>\<rparr>" using 3(2) by (simp add: upd_lh_def upd_log_def)
  have f3: "log_free (klog ?s3) ?A3" using f k by simp
  have af3: "0 < af ?A3" using af fold_unref(6) [of ?A2 "map (hblk l) ?ts"] by simp
  have h3: "av ?A3 ?h = ?d"
  proof -
    have "?h \<notin> fst ` set (map (\<lambda>i. (hblk l i, ?v (hblk l i))) ?ts)" using okd(1) home_head [of l] by fastforce
    from apply_writes_other [OF this] show ?thesis by (simp add: a_writes_def)
  qed
  obtain t where t: "write_head ?s3 = Ok t" "absc t (a_store ?h (head_data ((log_lh l)\<lparr>lh_n := 0\<rparr>) ?d) ?A3)"
    using write_head_abs [of ?s3 ?A3] 3(3) f3 af3 h3 k by (auto simp: log_blk_lblk)
  have "commit s = Ok t" unfolding commit_def using l n 1(1) 2(1) 3(1) t(1) by simp
  moreover have "a_writes (commit_writes l ?v) (?U A) = a_store ?h (head_data ((log_lh l)\<lparr>lh_n := 0\<rparr>) ?d) ?A3"
    by (simp add: commit_writes_def Let_def unref_writes fold_unref_store)
  ultimately show ?thesis using t(2) by simp
qed

lemma recover_abs:
  assumes a: "absc s A" and l: "klog s = l" and f: "log_free l A" and af: "1 < af A"
    and l': "l' = loaded (av A (lblk (log_start l) 0)) l" and ok: "lh_ok l'" and us: "\<forall>i < lh_len l'. usable (hblk l' i) A"
  shows "\<exists>t. recover_from_log s = Ok t \<and> absc t (a_store (lblk (log_start l) 0)
    (head_data ((log_lh l')\<lparr>lh_n := 0\<rparr>) (av A (lblk (log_start l) 0))) (a_writes (home_writes l' (av A) [0..<lh_len l']) A))"
proof -
  let ?ts = "[0..<lh_len l']" and ?h = "lblk (log_start l) 0"
  let ?A = "a_writes (home_writes l' (av A) ?ts) A"
  note okd = lh_okD [OF ok]
  have st: "log_start l' = log_start l" "log_dev l' = log_dev l" by (simp_all add: l' loaded_def)
  obtain s1 where 1: "read_head s = Ok s1" "klog s1 = l'" "absc s1 A"
    using read_head_abs [OF a] l f af l' by (auto simp: log_blk_lblk)
  have f': "log_free l' A" using f st by (simp add: log_free_def log_geom_def)
  obtain s2 where 2: "install_trans True s1 = Ok s2" "klog s2 = l'" "absc s2 ?A"
    using install_loop_abs [OF 1(3,2) f', of True ?ts] okd us af 1(2) by (auto simp: install_trans_def)
  let ?s2 = "upd_lh (lh_n_update (\<lambda>_. 0)) s2"
  have k: "klog ?s2 = l'\<lparr>log_lh := (log_lh l')\<lparr>lh_n := 0\<rparr>\<rparr>" using 2(2) by (simp add: upd_lh_def upd_log_def)
  have f2: "log_free (klog ?s2) ?A" using f' k by simp
  have h: "av ?A ?h = av A ?h"
  proof -
    have "?h \<notin> fst ` set (home_writes l' (av A) ?ts)" using okd(1) home_head [of l'] st by (fastforce simp: home_writes_def)
    from apply_writes_other [OF this] show ?thesis by (simp add: a_writes_def)
  qed
  obtain t where t: "write_head ?s2 = Ok t" "absc t (a_store ?h (head_data ((log_lh l')\<lparr>lh_n := 0\<rparr>) (av A ?h)) ?A)"
    using write_head_abs [of ?s2 ?A] 2(3) f2 af h k st by (auto simp: log_blk_lblk)
  then show ?thesis using 1(1) 2(1) by (auto simp: recover_from_log_def)
qed

text \<open>What recovery makes of a disk: the blocks of the header are copied from the log.\<close>

definition recovered :: "log \<Rightarrow> (u32 \<Rightarrow> bytes) \<Rightarrow> u32 \<Rightarrow> bytes" where
  "recovered l D = apply_writes (home_writes l D [0..<lh_len l]) D"

lemma recovered_other: "m \<notin> hblk l ` {..<lh_len l} \<Longrightarrow> recovered l D m = D m"
  unfolding recovered_def by (rule apply_writes_other) (auto simp: home_writes_def)

lemma recovered_block:
  assumes "lh_ok l" "i < lh_len l"
  shows "blk_eq (recovered l D (hblk l i)) (D (lslot l i))"
proof -
  have "inj_on (hblk l) (set [0..<lh_len l])" "i \<in> set [0..<lh_len l]" using lh_okD(2) [OF assms(1)] assms(2) by auto
  from apply_writes_map [OF _ this, of "\<lambda>i. over (D (lslot l i)) (D (hblk l i))" D]
  show ?thesis unfolding recovered_def home_writes_def by simp
qed

text \<open>The disks a crash during the commit can leave, by the state of the header.\<close>

definition txview :: "log \<Rightarrow> (u32 \<Rightarrow> bytes) \<Rightarrow> (u32 \<Rightarrow> bytes) \<Rightarrow> u32 \<Rightarrow> bytes" where
  "txview l v D m = (if m \<in> hblk l ` {..<lh_len l} then v m else D m)"

lemma take_commit:
  obtains j where "take k (us @ x # vs @ [y]) = take j us" | j where "take k (us @ x # vs @ [y]) = us @ x # take j vs"
    | "take k (us @ x # vs @ [y]) = us @ x # vs @ [y]"
proof (cases "k \<le> length us")
  case False
  then obtain j where k: "k = length us + Suc j" using less_imp_Suc_add [of "length us" k] by auto
  show thesis
  proof (cases "j \<le> length vs")
    case False
    then show thesis using k that(3) by simp
  qed (use k that(2) in simp)
qed (use that(1) in simp)

lemma crash_prefix:
  fixes us vs :: "(u32 \<times> bytes) list"
  obtains j where "apply_writes (take k (us @ [(h, d)] @ vs @ [(h, e)])) D = apply_writes (take j us) D"
    | j where "apply_writes (take k (us @ [(h, d)] @ vs @ [(h, e)])) D = apply_writes (take j vs) ((apply_writes us D)(h := d))"
    | "apply_writes (take k (us @ [(h, d)] @ vs @ [(h, e)])) D = (apply_writes vs ((apply_writes us D)(h := d)))(h := e)"
proof -
  define T where "T = take k (us @ (h, d) # vs @ [(h, e)])"
  have T: "take k (us @ [(h, d)] @ vs @ [(h, e)]) = T" by (simp add: T_def)
  show thesis
  proof (rule take_commit [of k us "(h, d)" vs "(h, e)", folded T_def])
    fix j assume "T = take j us" then show thesis by (intro that(1) [unfolded T, of j]) simp
  next
    fix j assume "T = us @ (h, d) # take j vs" then show thesis by (intro that(2) [unfolded T, of j]) simp
  next
    assume "T = us @ (h, d) # vs @ [(h, e)]" then show thesis by (intro that(3) [unfolded T]) simp
  qed
qed

lemma crash_cases:
  assumes g: "log_geom l" and ok: "lh_ok l" and D: "D' = apply_writes (take k (commit_writes l v)) D"
    and clean: "sint (rd32 (D (lblk (log_start l) 0)) 0) = 0"
  shows "(sint (rd32 (D' (lblk (log_start l) 0)) 0) = 0 \<and> (\<forall>m. home l m \<longrightarrow> D' m = D m))
    \<or> (sint (rd32 (D' (lblk (log_start l) 0)) 0) = 0 \<and> (\<forall>m. home l m \<longrightarrow> D' m = txview l v D m))
    \<or> (\<exists>d. D' (lblk (log_start l) 0) = head_data (log_lh l) d \<and> (\<forall>i < lh_len l. blk_eq (D' (lslot l i)) (v (hblk l i))) \<and>
       (\<forall>m. home l m \<longrightarrow> m \<notin> hblk l ` {..<lh_len l} \<longrightarrow> D' m = D m))"
proof -
  let ?h = "lblk (log_start l) 0" and ?ts = "[0..<lh_len l]"
  let ?W = "log_writes l v ?ts" and ?I = "map (\<lambda>i. (hblk l i, v (hblk l i))) [0..<lh_len l]"
  let ?d = "head_data (log_lh l) (v (lblk (log_start l) 0))"
  let ?D1 = "(apply_writes ?W D)(?h := ?d)"
  note okd = lh_okD [OF ok]
  have w: "fst ` set (take j ?W) \<subseteq> lslot l ` set ?ts" for j
    using image_mono [OF set_take_subset, of fst j ?W] unfolding log_writes_fst .
  have fi: "fst ` set (take j ?I) \<subseteq> hblk l ` set ?ts" for j
    using image_mono [OF set_take_subset, of fst j ?I] by (simp add: image_image)
  have wo: "apply_writes (take j ?W) D m = D m" if "m \<notin> lslot l ` set ?ts" for m j
    using apply_writes_other [of m "take j ?W"] w [of j] that by blast
  have io: "apply_writes (take j ?I) E m = E m" if "m \<notin> hblk l ` set ?ts" for m j E
    using apply_writes_other [of m "take j ?I"] fi [of j] that by blast
  have hs: "?h \<notin> lslot l ` set ?ts" "?h \<notin> hblk l ` set ?ts"
    using okd(1) head_slot [OF g] home_head by (blast, metis imageE)
  have hm: "m \<notin> lslot l ` set ?ts" "m \<noteq> ?h" if "home l m" for m
    using okd(1) home_slot [OF that] home_head [OF that] by blast+
  have sl: "?D1 (lslot l i) = over (v (hblk l i)) (v (lslot l i))" "lslot l i \<notin> hblk l ` set ?ts" if "i < lh_len l" for i
  proof -
    have i: "i < LOGSIZE" "i \<in> set ?ts" using okd(1) that by auto
    show "?D1 (lslot l i) = over (v (hblk l i)) (v (lslot l i))"
      using log_writes_slot [OF g _ _ i(2)] okd(1) head_slot [OF g i(1)] by simp
    show "lslot l i \<notin> hblk l ` set ?ts"
    proof
      assume "lslot l i \<in> hblk l ` set ?ts"
      then obtain x where "x \<in> set ?ts" "lslot l i = hblk l x" by blast
      then show False using okd(1) home_slot [OF _ i(1), of l "hblk l x"] by auto
    qed
  qed
  have set: "set ?ts = {..<lh_len l}" by auto
  consider j where "D' = apply_writes (take j ?W) D" | j where "D' = apply_writes (take j ?I) ?D1"
    | "D' = (apply_writes ?I ?D1)(?h := head_data ((log_lh l)\<lparr>lh_n := 0\<rparr>) ?d)"
    unfolding D commit_writes_def Let_def by (rule crash_prefix)
  then show ?thesis
  proof cases
    case 1
    then show ?thesis using wo hs(1) hm clean by simp
  next
    case (2 j)
    have "D' ?h = ?d" using 2 io [OF hs(2)] by simp
    moreover have "blk_eq (D' (lslot l i)) (v (hblk l i))" if "i < lh_len l" for i
      using 2 io [OF sl(2) [OF that]] sl(1) [OF that] by simp
    moreover have "D' m = D m" if "home l m" "m \<notin> hblk l ` {..<lh_len l}" for m
      using 2 io [of m j ?D1] wo [of m "length ?W"] hm [OF that(1)] that(2) set by simp
    ultimately show ?thesis by blast
  next
    case 3
    have "sint (rd32 (D' ?h) 0) = 0" using 3 by (simp add: head_data_def)
    moreover have "D' m = txview l v D m" if "home l m" for m
    proof (cases "m \<in> hblk l ` {..<lh_len l}")
      case True
      then obtain i where i: "i \<in> set ?ts" "m = hblk l i" by auto
      then show ?thesis using 3 hm [OF that] True apply_writes_map [OF _ okd(2) i(1), of "\<lambda>i. v (hblk l i)" ?D1] by (simp add: txview_def)
    next
      case False
      then show ?thesis using 3 io [of m "length ?I" ?D1] wo [of m "length ?W"] hm [OF that] set by (simp add: txview_def)
    qed
    ultimately show ?thesis by blast
  qed
qed

section \<open>Recovery after a crash\<close>

text \<open>The cache after a reboot: no block is cached.\<close>

definition cold :: "'a bio_st_scheme \<Rightarrow> bool" where
  "cold r \<longleftrightarrow> cache_ok r \<and> (\<forall>b < NBUF. b_refcnt (bufs r b) = 0 \<and> \<not> b_valid (bufs r b) \<and> \<not> sl_locked (slocks r (Buf_slock b)))"

text \<open>After a reboot \<^verbatim>\<open>bread\<close> gives what is on the disk.\<close>

lemma cold_bread:
  assumes "cold r" "m \<noteq> 0"
  shows "\<exists>c u. bread (devof m) m r = Ok (c, u) \<and> b_data (bufs u c) = disk r m"
proof -
  have c: "b < NBUF \<Longrightarrow> b_refcnt (bufs r b) = 0 \<and> \<not> b_valid (bufs r b) \<and> \<not> sl_locked (slocks r (Buf_slock b))" for b
    using assms(1) by (simp add: cold_def)
  have ok: "bio_inv r" "ready r" "\<And>b. b < NBUF \<Longrightarrow> b_blockno (bufs r b) = m \<Longrightarrow> b_dev (bufs r b) = devof m"
    using assms by (simp_all add: cold_def cache_ok_def cached_def)
  have "available r (devof m) m" using c ok(3) assms(2) by (auto simp: available_def intro: exI [of _ 0])
  moreover have "bview r m = disk r m" by (rule bview_uncached) (use c in auto)
  ultimately show ?thesis using bread_spec [OF ok(1,2), of "devof m" m] by metis
qed

lemma cold_absc:
  assumes "cold r"
  shows "absc r \<lparr>av = disk r, ad = disk r, ar = \<lambda>_. 0, al = \<lambda>_. False, af = NBUF, aw = dwrites r\<rparr>"
proof -
  have c: "b < NBUF \<Longrightarrow> b_refcnt (bufs r b) = 0 \<and> \<not> b_valid (bufs r b) \<and> \<not> sl_locked (slocks r (Buf_slock b))" for b
    using assms by (simp add: cold_def)
  have "bview r m = disk r m" for m by (rule bview_uncached) (use c in auto)
  moreover have "refs r m = 0" for m unfolding refs_def by (rule sum.neutral) (use c in \<open>auto simp: cached_def\<close>)
  moreover have "\<not> lockd r m" for m using c by (auto simp: lockd_def cached_def)
  moreover have "nfree r = NBUF"
  proof -
    have "{b. b < NBUF \<and> b_refcnt (bufs r b) = 0} = {..<NBUF}" using c by auto
    then show ?thesis by (simp add: nfree_def)
  qed
  ultimately show ?thesis using assms by (simp add: absc_def cold_def)
qed

lemma loaded_none:
  assumes "sint (rd32 d 0) = 0"
  shows "lh_len (loaded d l) = 0" "lh_ok (loaded d l)"
  using assms by (simp_all add: loaded_def lh_ok_def)

lemma loaded_head:
  assumes ok: "lh_ok l" and st: "log_start l0 = log_start l" and d: "d = head_data (log_lh l) e"
  shows "lh_len (loaded d l0) = lh_len l" "i < lh_len l \<Longrightarrow> hblk (loaded d l0) i = hblk l i" "lh_ok (loaded d l0)"
    "lslot (loaded d l0) i = lslot l i"
proof -
  have n: "sint (rd32 d 0) = lh_n (log_lh l)" unfolding d using ok by (intro head_data_n) (simp_all add: lh_ok_def)
  show len: "lh_len (loaded d l0) = lh_len l" using n by (simp add: loaded_def)
  have b: "hblk (loaded d l0) i = hblk l i" if "i < lh_len l" for i
    using that n head_data_block [of i "log_lh l" e] by (simp add: loaded_def d)
  show "i < lh_len l \<Longrightarrow> hblk (loaded d l0) i = hblk l i" by (rule b)
  have s: "log_start (loaded d l0) = log_start l" using st by (simp add: loaded_def)
  then show "lslot (loaded d l0) i = lslot l i" by simp
  have "home (loaded d l0) m = home l m" for m using s by (simp add: home_def)
  moreover have "inj_on (hblk (loaded d l0)) {..<lh_len l} = inj_on (hblk l) {..<lh_len l}"
    by (rule inj_on_cong) (simp add: b)
  ultimately show "lh_ok (loaded d l0)"
    using ok len n b by (simp add: lh_ok_def) (simp add: loaded_def)
qed

lemma recover_crash:
  assumes g: "log_geom l" and ok: "lh_ok l" and D: "disk r = apply_writes (take k (commit_writes l v)) D"
    and clean: "sint (rd32 (D (lblk (log_start l) 0)) 0) = 0"
    and r: "cold r" "log_start (klog r) = log_start l" "log_dev (klog r) = 1"
  shows "\<exists>u. recover_from_log r = Ok u \<and>
    ((\<forall>m. home l m \<longrightarrow> blk_eq (disk u m) (D m)) \<or> (\<forall>m. home l m \<longrightarrow> blk_eq (disk u m) (txview l v D m)))"
proof -
  let ?A = "\<lparr>av = disk r, ad = disk r, ar = \<lambda>_. 0, al = \<lambda>_. False, af = NBUF, aw = dwrites r\<rparr>"
  let ?h = "lblk (log_start l) 0"
  define l' where "l' = loaded (disk r ?h) (klog r)"
  note a = cold_absc [OF r(1)]
  have f: "log_free (klog r) ?A"
    using g r(2,3) lblk_geom [of "log_start l"] by (auto simp: log_free_def log_geom_def usable_def)
  have us: "usable m ?A" if "home l m" for m using that by (simp add: usable_def home_def devof_def)
  have rec: "\<exists>u. recover_from_log r = Ok u \<and> (\<forall>m. home l m \<longrightarrow> disk u m = recovered l' (disk r) m)"
    if ld: "lh_ok l'" "\<forall>i < lh_len l'. usable (hblk l' i) ?A"
  proof -
    obtain u where "recover_from_log r = Ok u"
      "absc u (a_store ?h (head_data ((log_lh l')\<lparr>lh_n := 0\<rparr>) (disk r ?h)) (a_writes (home_writes l' (disk r) [0..<lh_len l']) ?A))"
      using recover_abs [OF a refl f _ _ ld(1)] ld(2) r(2) by (auto simp: l'_def)
    then show ?thesis using home_head [of l] by (auto simp: absc_def a_writes_def recovered_def)
  qed
  have none: "\<exists>u. recover_from_log r = Ok u \<and> (\<forall>m. home l m \<longrightarrow> disk u m = disk r m)"
    if "sint (rd32 (disk r ?h) 0) = 0"
    using rec loaded_none [OF that] by (auto simp: l'_def recovered_def home_writes_def)
  from crash_cases [OF g ok D clean] consider
      "sint (rd32 (disk r ?h) 0) = 0" "\<forall>m. home l m \<longrightarrow> disk r m = D m"
    | "sint (rd32 (disk r ?h) 0) = 0" "\<forall>m. home l m \<longrightarrow> disk r m = txview l v D m"
    | d where "disk r ?h = head_data (log_lh l) d" "\<forall>i < lh_len l. blk_eq (disk r (lslot l i)) (v (hblk l i))"
       "\<forall>m. home l m \<longrightarrow> m \<notin> hblk l ` {..<lh_len l} \<longrightarrow> disk r m = D m"
    by blast
  then show ?thesis
  proof cases
    case 1
    then show ?thesis using none by auto
  next
    case 2
    then show ?thesis using none by auto
  next
    case (3 d)
    note ld = loaded_head [OF ok r(2) 3(1), folded l'_def]
    have "\<forall>i < lh_len l'. usable (hblk l' i) ?A" using ok us ld(1,2) by (simp add: lh_ok_def)
    then obtain u where u: "recover_from_log r = Ok u" "\<forall>m. home l m \<longrightarrow> disk u m = recovered l' (disk r) m"
      using rec ld(3) by blast
    have img: "hblk l' ` {..<lh_len l'} = hblk l ` {..<lh_len l}" using ld(1,2) by (auto simp: image_iff)
    have "blk_eq (disk u m) (txview l v D m)" if m: "home l m" for m
    proof (cases "m \<in> hblk l ` {..<lh_len l}")
      case True
      then obtain i where i: "i < lh_len l" "m = hblk l i" by auto
      then have "blk_eq (recovered l' (disk r) m) (disk r (lslot l i))"
        using recovered_block [OF ld(3), of i "disk r"] ld(1) ld(2) [OF i(1)] ld(4) by simp
      then show ?thesis using u(2) m 3(2) i True by (simp add: txview_def blk_eq_def)
    next
      case False
      then show ?thesis using u(2) m 3(3) recovered_other [of m l'] img by (simp add: txview_def)
    qed
    then show ?thesis using u(1) by blast
  qed
qed

section \<open>A transaction about to be committed\<close>

text \<open>
  No system call is using the cache, the blocks of the transaction are pinned in it, a buffer is free, and the
  header on the disk is empty.
\<close>

definition tx_ready :: "'a log_st_scheme \<Rightarrow> bool" where
  "tx_ready s \<longleftrightarrow> cache_ok s \<and> log_geom (klog s) \<and> lh_ok (klog s) \<and> 0 < lh_n (log_lh (klog s)) \<and>
     (\<exists>b < NBUF. b_refcnt (bufs s b) = 0) \<and>
     (\<forall>b < NBUF. \<not> sl_locked (slocks s (Buf_slock b)) \<and> b_refcnt (bufs s b) \<noteq> - 1) \<and>
     (\<forall>i < lh_len (klog s). \<exists>b < NBUF. b_blockno (bufs s b) = hblk (klog s) i \<and> b_refcnt (bufs s b) \<noteq> 0) \<and>
     sint (rd32 (disk s (lblk (log_start (klog s)) 0)) 0) = 0"

abbreviation cache_of :: "'a bio_st_scheme \<Rightarrow> acache" where
  "cache_of s \<equiv> \<lparr>av = bview s, ad = disk s, ar = refs s, al = lockd s, af = nfree s, aw = dwrites s\<rparr>"

lemma cache_of_absc: "cache_ok s \<Longrightarrow> absc s (cache_of s)"
  by (simp add: absc_def)

lemma tx_usable:
  assumes "tx_ready s" "m \<noteq> 0" "\<not> in_swap m"
  shows "usable m (cache_of s)"
proof -
  have inv: "bio_inv s" and nl: "\<And>b. b < NBUF \<Longrightarrow> \<not> sl_locked (slocks s (Buf_slock b)) \<and> b_refcnt (bufs s b) \<noteq> - 1"
    using assms(1) by (auto simp: tx_ready_def cache_ok_def)
  have "refs s m < 2 ^ 32 - 1"
  proof (cases "\<exists>b. cached s b m")
    case True
    then obtain b where b: "cached s b m" ..
    have "b_refcnt (bufs s b) \<noteq> - 1" using nl b by (simp add: cached_def)
    then have "unat (b_refcnt (bufs s b)) \<noteq> unat (- 1 :: u32)" by (simp only: word_unat_eq_iff [symmetric]) simp
    moreover have "unat (- 1 :: u32) = 2 ^ 32 - 1" using unat_uminus [of "1 :: u32"] by simp
    ultimately show ?thesis using refs_cached [OF inv assms(2) b] unsigned_less [where 'a = nat, of "b_refcnt (bufs s b)"] by simp
  next
    case False
    then show ?thesis using refs_uncached [of s m] by simp
  qed
  then show ?thesis using assms nl by (auto simp: usable_def devof_def lockd_def cached_def)
qed

lemma commit_final:
  assumes g: "log_geom l" and ok: "lh_ok l" and m: "home l m"
  shows "apply_writes (commit_writes l v) D m = txview l v D m"
proof -
  let ?h = "lblk (log_start l) 0" and ?ts = "[0..<lh_len l]"
  let ?I = "map (\<lambda>i. (hblk l i, v (hblk l i))) ?ts" and ?D1 = "(apply_writes (log_writes l v ?ts) D)(?h := head_data (log_lh l) (v ?h))"
  note okd = lh_okD [OF ok]
  have "m \<notin> lslot l ` set ?ts" using okd(1) home_slot [OF m] by blast
  then have d: "?D1 m = D m" using log_writes_other home_head [OF m] by simp
  have "apply_writes ?I ?D1 m = txview l v D m"
  proof (cases "m \<in> hblk l ` set ?ts")
    case True
    then obtain i where i: "i \<in> set ?ts" "m = hblk l i" by auto
    then show ?thesis using apply_writes_map [OF _ okd(2) i(1), of "\<lambda>i. v (hblk l i)" ?D1] by (auto simp: txview_def)
  next
    case False
    then have "m \<notin> fst ` set ?I" by (simp add: image_image)
    from apply_writes_other [OF this] show ?thesis using d False by (auto simp: txview_def)
  qed
  then show ?thesis using home_head [OF m] by (simp add: commit_writes_def Let_def)
qed

lemma commit_spec:
  assumes r: "tx_ready s"
  shows "\<exists>t. commit s = Ok t \<and> dwrites t = dwrites s @ commit_writes (klog s) (bview s) \<and>
    disk t = apply_writes (commit_writes (klog s) (bview s)) (disk s)"
proof -
  let ?A = "cache_of s" and ?l = "klog s"
  have ok: "cache_ok s" "log_geom ?l" "lh_ok ?l" "0 < lh_n (log_lh ?l)" "\<exists>b < NBUF. b_refcnt (bufs s b) = 0"
    using r by (simp_all add: tx_ready_def)
  have inv: "bio_inv s" using ok(1) by (simp add: cache_ok_def)
  have f: "log_free ?l ?A"
    using ok(2) tx_usable [OF r] lblk_geom [of "log_start ?l"] by (simp add: log_free_def log_geom_def)
  have af: "0 < af ?A" using ok(5) by (simp add: nfree_pos)
  have pin: "\<forall>i < lh_len ?l. usable (hblk ?l i) ?A \<and> 0 < ar ?A (hblk ?l i)"
  proof (intro allI impI)
    fix i assume i: "i < lh_len ?l"
    have h: "hblk ?l i \<noteq> 0" "\<not> in_swap (hblk ?l i)" using ok(3) i by (simp_all add: lh_ok_def home_def)
    obtain b where "b < NBUF" "b_blockno (bufs s b) = hblk ?l i" "b_refcnt (bufs s b) \<noteq> 0"
      using r i unfolding tx_ready_def by blast
    then show "usable (hblk ?l i) ?A \<and> 0 < ar ?A (hblk ?l i)"
      using tx_usable [OF r h] refs_cached [OF inv h(1), of b] by (simp add: cached_def unat_gt_0)
  qed
  obtain t where t: "commit s = Ok t"
    "absc t (a_writes (commit_writes ?l (av ?A)) (fold a_unref (map (hblk ?l) [0..<lh_len ?l]) ?A))"
    using commit_abs [OF cache_of_absc [OF ok(1)] refl f ok(3,4) af pin] by blast
  have "ad (fold a_unref (map (hblk ?l) [0..<lh_len ?l]) ?A) = disk s" "aw (fold a_unref (map (hblk ?l) [0..<lh_len ?l]) ?A) = dwrites s"
    by (simp_all only: fold_unref) simp_all
  then show ?thesis using t by (simp add: absc_def a_writes_def)
qed

lemma initlog_crash:
  assumes s: "tx_ready s" and r: "cold r" "disk r = apply_writes (take k (commit_writes (klog s) (bview s))) (disk s)"
    and sb: "sint (sb_logstart sb) = log_start (klog s)"
  shows "\<exists>u. initlog 1 sb r = Ok u \<and>
    ((\<forall>m. home (klog s) m \<longrightarrow> blk_eq (disk u m) (disk s m)) \<or>
     (\<forall>m. home (klog s) m \<longrightarrow> blk_eq (disk u m) (txview (klog s) (bview s) (disk s) m)))"
proof -
  let ?r = "upd_log (\<lambda>l. l\<lparr>log_start := sint (sb_logstart sb), log_size := sint (sb_nlog sb), log_dev := 1\<rparr>) r"
  have "cold ?r" using r(1) bio_inv_cong [of ?r r] by (simp add: cold_def cache_ok_def ready_def cached_def upd_log_def)
  moreover have "disk ?r = disk r" "log_start (klog ?r) = log_start (klog s)" "log_dev (klog ?r) = 1"
    using sb by (simp_all add: upd_log_def)
  ultimately show ?thesis
    using recover_crash [of "klog s" ?r k "bview s" "disk s"] s r(2) by (simp add: initlog_def tx_ready_def)
qed

end
