(* ===== verification/Ulib.thy ===== *)
theory Ulib
  imports Strings
begin

text \<open>
  The user library \<^verbatim>\<open>user/ulib.c\<close> and the two formatted output routines, \<^verbatim>\<open>user/printf.c\<close> and
  \<^verbatim>\<open>kernel/printf.c\<close>. A C string is the list of its characters without the terminating NUL; routines that
  write a caller's memory work on the whole memory. Names that \<^verbatim>\<open>kernel/string.c\<close> also has carry the prefix
  \<open>u_\<close> here. Writing beyond \<^verbatim>\<open>buf[16]\<close> in \<^verbatim>\<open>printint\<close> is the result \<open>None\<close>.
\<close>

abbreviation (input) NUL :: char where "NUL \<equiv> CHR 0x00"
abbreviation (input) NL :: char where "NL \<equiv> CHR 0x0A"
abbreviation (input) CR :: char where "CR \<equiv> CHR 0x0D"

section \<open>Strings and memory\<close>

text \<open>The loop of \<open>strcpy\<close> ends if the source has a terminator.\<close>

definition u_strcpy :: "u64 \<Rightarrow> u64 \<Rightarrow> memory \<Rightarrow> memory res" where
  "u_strcpy s t m =
     loopr (\<lambda>(s, t, m). let m' = m(s := m t) in Ok (if m t \<noteq> 0 then Inl (s + 1, t + 1, m') else Inr m')) (s, t, m)"

fun u_strcmp :: "string \<Rightarrow> string \<Rightarrow> int" where
  "u_strcmp [] [] = 0"
| "u_strcmp [] (q # qs) = - int (of_char q)"
| "u_strcmp (p # ps) [] = int (of_char p)"
| "u_strcmp (p # ps) (q # qs) = (if p = q then u_strcmp ps qs else int (of_char p) - int (of_char q))"

definition u_strlen :: "string \<Rightarrow> nat" where
  "u_strlen s = length s"

definition u_memset :: "u64 \<Rightarrow> int \<Rightarrow> u32 \<Rightarrow> memory \<Rightarrow> memory" where
  "u_memset dst c n m = memset_loop (unat n) dst (word_of_int c) m"

text \<open>\<open>strchr\<close> on a buffer whose end is followed by NUL: the index of the character.\<close>

fun strchr :: "string \<Rightarrow> char \<Rightarrow> nat option" where
  "strchr [] c = None"
| "strchr (x # xs) c = (if x = NUL then None else if x = c then Some 0 else map_option Suc (strchr xs c))"

text \<open>\<open>gets\<close> reads standard input a character at a time: the line and the input that is left.\<close>

fun gets_loop :: "nat \<Rightarrow> string \<Rightarrow> string \<times> string" where
  "gets_loop 0 inp = ([], inp)"
| "gets_loop (Suc k) [] = ([], [])"
| "gets_loop (Suc k) (c # inp) =
     (if c = NL \<or> c = CR then ([c], inp) else let (b, r) = gets_loop k inp in (c # b, r))"

definition gets :: "int \<Rightarrow> string \<Rightarrow> string \<times> string" where
  "gets mx inp = gets_loop (nat (mx - 1)) inp"

definition is_digit :: "char \<Rightarrow> bool" where
  "is_digit c \<longleftrightarrow> 48 \<le> (of_char c :: nat) \<and> (of_char c :: nat) \<le> 57"

fun atoi_loop :: "u32 \<Rightarrow> string \<Rightarrow> u32" where
  "atoi_loop n [] = n"
| "atoi_loop n (c # s) = (if is_digit c then atoi_loop (n * 10 + of_char c - 48) s else n)"

definition atoi :: "string \<Rightarrow> int" where
  "atoi s = sint (atoi_loop 0 s)"

definition u_memmove :: "u64 \<Rightarrow> u64 \<Rightarrow> int \<Rightarrow> memory \<Rightarrow> memory" where
  "u_memmove vdst vsrc n m =
     (if vsrc > vdst then move_up (nat n) vdst vsrc m
      else move_down (nat n) (vdst + word_of_int n) (vsrc + word_of_int n) m)"

fun u_memcmp_loop :: "nat \<Rightarrow> bytes \<Rightarrow> bytes \<Rightarrow> int" where
  "u_memcmp_loop 0 p1 p2 = 0"
| "u_memcmp_loop (Suc n) p1 p2 =
     (if p1 0 \<noteq> p2 0 then uint (p1 0) - uint (p2 0) else u_memcmp_loop n (\<lambda>i. p1 (i + 1)) (\<lambda>i. p2 (i + 1)))"

definition u_memcmp :: "bytes \<Rightarrow> bytes \<Rightarrow> u32 \<Rightarrow> int" where
  "u_memcmp s1 s2 n = u_memcmp_loop (unat n) s1 s2"

text \<open>The unsigned length becomes an \<^verbatim>\<open>int\<close> in the call.\<close>

definition u_memcpy :: "u64 \<Rightarrow> u64 \<Rightarrow> u32 \<Rightarrow> memory \<Rightarrow> memory" where
  "u_memcpy dst src n m = u_memmove dst src (sint n) m"

section \<open>Formatted output\<close>

text \<open>The digits of \<open>x\<close> in the order they are stored; the base is 10 or 16.\<close>

function pr_digits :: "string \<Rightarrow> nat \<Rightarrow> nat \<Rightarrow> string" where
  "pr_digits digits base x =
     digits ! (x mod base) # (if x div base = 0 \<or> base \<le> 1 then [] else pr_digits digits base (x div base))"
  by auto
termination
proof (relation "measure (\<lambda>(_, _, x). x)")
  fix digits :: string and base x :: nat
  assume "\<not> (x div base = 0 \<or> base \<le> 1)"
  then have "1 < base" "0 < x" by (auto intro: gr0I)
  then show "((digits, base, x div base), digits, base, x) \<in> measure (\<lambda>(_, _, x). x)" by (simp add: div_less_dividend)
qed simp

declare pr_digits.simps [simp del]

text \<open>Storing into \<^verbatim>\<open>buf[16]\<close> and printing it backwards.\<close>

definition pr_buf :: "string \<Rightarrow> string option" where
  "pr_buf b = (if length b \<le> 16 then Some (rev b) else None)"

definition k_digits :: string where "k_digits = ''0123456789abcdef''"
definition u_digits :: string where "u_digits = ''0123456789ABCDEF''"

definition printint :: "u64 \<Rightarrow> nat \<Rightarrow> bool \<Rightarrow> string option" where
  "printint xx base sign =
     (let neg = (sign \<and> sint xx < 0); x = (if neg then - xx else xx) in
      pr_buf (pr_digits k_digits base (unat x) @ (if neg then ''-'' else [])))"

definition u_printint :: "u32 \<Rightarrow> nat \<Rightarrow> bool \<Rightarrow> string option" where
  "u_printint xx base sg =
     (let neg = (sg \<and> sint xx < 0); x = (if neg then - xx else xx) in
      pr_buf (pr_digits u_digits base (unat x) @ (if neg then ''-'' else [])))"

fun printptr_loop :: "string \<Rightarrow> nat \<Rightarrow> u64 \<Rightarrow> string" where
  "printptr_loop digits 0 x = []"
| "printptr_loop digits (Suc n) x = digits ! unat (drop_bit 60 x) # printptr_loop digits n (push_bit 4 x)"

definition printptr :: "string \<Rightarrow> u64 \<Rightarrow> string" where
  "printptr digits x = ''0x'' @ printptr_loop digits 16 x"

text \<open>An argument is a register or a string pointer, which may be null. An argument that is missing is \<open>None\<close>.\<close>

datatype pr_arg = Reg u64 | Str "string option"

definition emit :: "string option \<Rightarrow> string option \<Rightarrow> string option" where
  "emit a b = (case a of None \<Rightarrow> None | Some s \<Rightarrow> map_option ((@) s) b)"

fun arg_reg :: "pr_arg list \<Rightarrow> u64 option" where
  "arg_reg (Reg x # _) = Some x"
| "arg_reg _ = None"

fun arg_str :: "pr_arg list \<Rightarrow> string option" where
  "arg_str (Str None # _) = Some ''(null)''"
| "arg_str (Str (Some s) # _) = Some s"
| "arg_str _ = None"

text \<open>\<^verbatim>\<open>va_arg(ap, int)\<close> as the \<^verbatim>\<open>long long\<close> parameter of \<^verbatim>\<open>printint\<close>: sign-extended from 32 bits.\<close>

definition arg_int :: "pr_arg list \<Rightarrow> u64 option" where
  "arg_int as = map_option (\<lambda>x. word_of_int (sint (ucast x :: u32))) (arg_reg as)"

definition kpr :: "u64 option \<Rightarrow> nat \<Rightarrow> bool \<Rightarrow> string option" where
  "kpr a base sign = (case a of None \<Rightarrow> None | Some x \<Rightarrow> printint x base sign)"

text \<open>\<^verbatim>\<open>printint\<close> of the user library takes an \<^verbatim>\<open>int\<close>: the argument is truncated.\<close>

definition upr :: "u64 option \<Rightarrow> nat \<Rightarrow> bool \<Rightarrow> string option" where
  "upr a base sg = (case a of None \<Rightarrow> None | Some x \<Rightarrow> u_printint (ucast x) base sg)"

text \<open>How many characters after the percent sign a conversion takes, and what it prints.\<close>

definition k_conv :: "string \<Rightarrow> pr_arg list \<Rightarrow> nat \<times> string option \<times> pr_arg list" where
  "k_conv f as =
     (let c0 = f ! 0; c1 = (if length f > 1 then f ! 1 else NUL); c2 = (if length f > 2 then f ! 2 else NUL) in
      if c0 = CHR ''d'' then (1, kpr (arg_int as) 10 True, tl as)
      else if c0 = CHR ''l'' \<and> c1 = CHR ''d'' then (2, kpr (arg_reg as) 10 True, tl as)
      else if c0 = CHR ''l'' \<and> c1 = CHR ''l'' \<and> c2 = CHR ''d'' then (3, kpr (arg_reg as) 10 True, tl as)
      else if c0 = CHR ''u'' then (1, kpr (arg_int as) 10 False, tl as)
      else if c0 = CHR ''l'' \<and> c1 = CHR ''u'' then (2, kpr (arg_reg as) 10 False, tl as)
      else if c0 = CHR ''l'' \<and> c1 = CHR ''l'' \<and> c2 = CHR ''u'' then (3, kpr (arg_reg as) 10 False, tl as)
      else if c0 = CHR ''x'' then (1, kpr (arg_int as) 16 False, tl as)
      else if c0 = CHR ''l'' \<and> c1 = CHR ''x'' then (2, kpr (arg_reg as) 16 False, tl as)
      else if c0 = CHR ''l'' \<and> c1 = CHR ''l'' \<and> c2 = CHR ''x'' then (3, kpr (arg_reg as) 16 False, tl as)
      else if c0 = CHR ''p'' then (1, map_option (printptr k_digits) (arg_reg as), tl as)
      else if c0 = CHR ''s'' then (1, arg_str as, tl as)
      else if c0 = CHR ''%'' then (1, Some ''%'', as)
      else (1, Some [CHR ''%'', c0], as))"

text \<open>The output of the kernel's \<^verbatim>\<open>printf\<close>.\<close>

function kprintf :: "string \<Rightarrow> pr_arg list \<Rightarrow> string option" where
  "kprintf fmt as =
     (if fmt = [] then Some []
      else if hd fmt \<noteq> CHR ''%'' then emit (Some [hd fmt]) (kprintf (tl fmt) as)
      else if tl fmt = [] then Some []
      else let (k, out, as') = k_conv (tl fmt) as in emit out (kprintf (drop k (tl fmt)) as'))"
  by auto
termination
  by (relation "measure (length \<circ> fst)") (auto simp: length_greater_0_conv [symmetric] simp del: length_greater_0_conv)

definition u_conv :: "string \<Rightarrow> pr_arg list \<Rightarrow> nat \<times> string option \<times> pr_arg list" where
  "u_conv f as =
     (let c0 = f ! 0; c1 = (if length f > 1 then f ! 1 else NUL); c2 = (if length f > 2 then f ! 2 else NUL) in
      if c0 = CHR ''d'' then (1, upr (arg_int as) 10 True, tl as)
      else if c0 = CHR ''l'' \<and> c1 = CHR ''d'' then (2, upr (arg_reg as) 10 True, tl as)
      else if c0 = CHR ''l'' \<and> c1 = CHR ''l'' \<and> c2 = CHR ''d'' then (3, upr (arg_reg as) 10 True, tl as)
      else if c0 = CHR ''u'' then (1, upr (arg_int as) 10 False, tl as)
      else if c0 = CHR ''l'' \<and> c1 = CHR ''u'' then (2, upr (arg_reg as) 10 False, tl as)
      else if c0 = CHR ''l'' \<and> c1 = CHR ''l'' \<and> c2 = CHR ''u'' then (3, upr (arg_reg as) 10 False, tl as)
      else if c0 = CHR ''x'' then (1, upr (arg_int as) 16 False, tl as)
      else if c0 = CHR ''l'' \<and> c1 = CHR ''x'' then (2, upr (arg_reg as) 16 False, tl as)
      else if c0 = CHR ''l'' \<and> c1 = CHR ''l'' \<and> c2 = CHR ''x'' then (3, upr (arg_reg as) 16 False, tl as)
      else if c0 = CHR ''p'' then (1, map_option (printptr u_digits) (arg_reg as), tl as)
      else if c0 = CHR ''s'' then (1, arg_str as, tl as)
      else if c0 = CHR ''%'' then (1, Some ''%'', as)
      else (1, Some [CHR ''%'', c0], as))"

lemma u_conv_pos: "u_conv f as = (k, out, as') \<Longrightarrow> 0 < k"
  by (simp add: u_conv_def Let_def split: if_splits)

text \<open>The bytes \<^verbatim>\<open>vprintf\<close> writes, one \<open>write\<close> each; \<open>pct\<close> is the state after a percent sign.\<close>

function vprintf :: "bool \<Rightarrow> string \<Rightarrow> pr_arg list \<Rightarrow> string option" where
  "vprintf pct fmt as =
     (if fmt = [] then Some []
      else if \<not> pct then
        (if hd fmt = CHR ''%'' then vprintf True (tl fmt) as else emit (Some [hd fmt]) (vprintf False (tl fmt) as))
      else let (k, out, as') = u_conv fmt as in emit out (vprintf False (drop k fmt) as'))"
  by auto
termination
  by (relation "measure (\<lambda>(pct, fmt, as). length fmt)")
    (auto dest!: sym [of "(_, _, _)"] u_conv_pos simp: diff_less length_greater_0_conv [symmetric] simp del: length_greater_0_conv)

declare kprintf.simps [simp del] vprintf.simps [simp del]

section \<open>Reading and printing numbers\<close>

lemma digit_char:
  assumes "k < 10"
  shows "of_char (k_digits ! k) = (48 + of_nat k :: 'a::comm_semiring_1)" "of_char (u_digits ! k) = (48 + of_nat k :: 'a)"
proof -
  have "k \<in> {0, 1, 2, 3, 4, 5, 6, 7, 8, 9}" using assms by auto
  then show "of_char (k_digits ! k) = (48 + of_nat k :: 'a)" "of_char (u_digits ! k) = (48 + of_nat k :: 'a)"
    by (auto simp: k_digits_def u_digits_def)
qed

lemma atoi_loop_append: "list_all is_digit a \<Longrightarrow> atoi_loop n (a @ b) = atoi_loop (atoi_loop n a) b"
  by (induction a arbitrary: n) auto

lemma pr_digits_digit:
  assumes "\<And>k. k < 10 \<Longrightarrow> of_char (ds ! k) = 48 + k"
  shows "list_all is_digit (pr_digits ds 10 x)"
proof (induction x rule: less_induct)
  case (less x)
  have "is_digit (ds ! (x mod 10))" using assms [of "x mod 10"] by (simp add: is_digit_def)
  then show ?case using less by (subst pr_digits.simps) auto
qed

lemma pr_digits_len: "2 \<le> base \<Longrightarrow> length (pr_digits ds base x) \<le> Suc d \<longleftrightarrow> x < base ^ Suc d"
proof (induction d arbitrary: x)
  case 0
  then show ?case by (subst pr_digits.simps) (auto simp: div_eq_0_iff pr_digits.simps [of ds base "x div base"])
next
  case (Suc d)
  have "x div base < base ^ Suc d \<longleftrightarrow> x < base ^ Suc (Suc d)"
    using Suc.prems by (simp add: less_mult_imp_div_less div_less_iff_less_mult mult.commute)
  then show ?case using Suc.prems Suc.IH [of "x div base"] by (subst pr_digits.simps) auto
qed

lemma atoi_digits:
  assumes d: "\<And>k. k < 10 \<Longrightarrow> of_char (ds ! k) = (48 + of_nat k :: u32)" "\<And>k. k < 10 \<Longrightarrow> of_char (ds ! k) = 48 + k"
  shows "atoi_loop 0 (rev (pr_digits ds 10 x)) = of_nat x"
proof (induction x rule: less_induct)
  case (less x)
  have m: "x mod 10 < 10" by simp
  have dg: "is_digit (ds ! (x mod 10))" using d(2) [OF m] by (simp add: is_digit_def)
  show ?case
  proof (cases "x div 10 = 0")
    case True
    then have "x mod 10 = x" by auto
    then show ?thesis using True d(1) [OF m] dg by (subst pr_digits.simps) simp
  next
    case False
    have "rev (pr_digits ds 10 x) = rev (pr_digits ds 10 (x div 10)) @ [ds ! (x mod 10)]"
      using False by (subst pr_digits.simps) simp
    moreover have "list_all is_digit (rev (pr_digits ds 10 (x div 10)))" using pr_digits_digit [of ds] d(2) by (simp add: list_all_iff)
    ultimately have "atoi_loop 0 (rev (pr_digits ds 10 x)) = of_nat (x div 10) * 10 + of_nat (x mod 10)"
      using less [of "x div 10"] False d(1) [OF m] dg by (simp add: atoi_loop_append)
    also have "\<dots> = of_nat (x div 10 * 10 + x mod 10)" by (simp only: of_nat_add of_nat_mult) simp
    finally show ?thesis by simp
  qed
qed

lemma pr_buf_fits: "pr_buf b \<noteq> None \<longleftrightarrow> length b \<le> 16"
  by (simp add: pr_buf_def)

lemma printint_room:
  "printint x 10 sign \<noteq> None \<longleftrightarrow> (if sign \<and> sint x < 0 then unat (- x) < 10 ^ 15 else unat x < 10 ^ 16)"
proof -
  have "printint x 10 sign \<noteq> None \<longleftrightarrow> (if sign \<and> sint x < 0 then length (pr_digits k_digits 10 (unat (- x))) \<le> 15
      else length (pr_digits k_digits 10 (unat x)) \<le> 16)"
    unfolding printint_def Let_def pr_buf_fits by simp
  then show ?thesis using pr_digits_len [of 10 k_digits _ 15] pr_digits_len [of 10 k_digits _ 14] by simp
qed

lemma neg_word_of_int:
  assumes "- (2 ^ 31) \<le> k" "k < 0"
  shows "10 ^ 16 \<le> unat (word_of_int k :: u64)"
proof -
  have "k mod 2 ^ 64 = (k + 2 ^ 64) mod 2 ^ 64" by simp
  also have "\<dots> = k + 2 ^ 64" by (rule mod_pos_pos_trivial) (use assms in simp_all)
  finally have "uint (word_of_int k :: u64) = k + 2 ^ 64" by (simp add: uint_word_of_int)
  then have "int (unat (word_of_int k :: u64)) = k + 2 ^ 64" by simp
  then have "int (10 ^ 16) \<le> int (unat (word_of_int k :: u64))" using assms(1) by simp
  then show ?thesis by (simp only: of_nat_le_iff)
qed

end
