(* ===== verification/Grep.thy ===== *)
theory Grep
  imports Ulib
begin

text \<open>
  The regular expression search of \<^verbatim>\<open>user/grep.c\<close>. A C string is the list of its characters without the
  terminating NUL. The matcher is compared with the languages its patterns denote; the line loop with the lines
  of the file. How many bytes each \<open>read\<close> returns is a parameter.
\<close>

section \<open>The matcher\<close>

function (sequential) matchhere :: "string \<Rightarrow> string \<Rightarrow> bool" and matchstar :: "char \<Rightarrow> string \<Rightarrow> string \<Rightarrow> bool" where
  "matchhere [] text = True"
| "matchhere (r # re) text =
     (if re \<noteq> [] \<and> hd re = CHR ''*'' then matchstar r (tl re) text
      else if r = CHR ''$'' \<and> re = [] then text = []
      else if text \<noteq> [] \<and> (r = CHR ''.'' \<or> r = hd text) then matchhere re (tl text)
      else False)"
| "matchstar c re text =
     (if matchhere re text then True
      else if text \<noteq> [] \<and> (hd text = c \<or> c = CHR ''.'') then matchstar c re (tl text)
      else False)"
  by pat_completeness auto
termination
  by (relation "inv_image (less_than <*lex*> less_than <*lex*> less_than)
        (case_sum (\<lambda>(re, t). (length re, length t, 0 :: nat)) (\<lambda>(c, re, t). (length re, length t, 1)))") auto

fun match_from :: "string \<Rightarrow> string \<Rightarrow> bool" where
  "match_from re text = (if matchhere re text then True else case text of [] \<Rightarrow> False | _ # ts \<Rightarrow> match_from re ts)"

declare matchstar.simps [simp del] match_from.simps [simp del]

definition match :: "string \<Rightarrow> string \<Rightarrow> bool" where
  "match re text = (if re \<noteq> [] \<and> hd re = CHR ''^'' then matchhere (tl re) text else match_from re text)"

section \<open>Searching a file\<close>

lemma strchr_less: "strchr xs c = Some k \<Longrightarrow> k < length xs"
  by (induction xs arbitrary: k) (auto split: if_splits)

text \<open>The inner loop: the lines written, and what of the buffer is left.\<close>

function grep_lines :: "string \<Rightarrow> string \<Rightarrow> string list \<times> string" where
  "grep_lines pattern p =
     (case strchr p NL of
        None \<Rightarrow> ([], p)
      | Some q \<Rightarrow>
          let (out, rest) = grep_lines pattern (drop (q + 1) p) in
          ((if match pattern (take q p) then [take (q + 1) p] else []) @ out, rest))"
  by auto
termination
  by (relation "measure (length \<circ> snd)") (auto dest: strchr_less)

declare grep_lines.simps [simp del]

text \<open>
  \<open>rd n r\<close> is the number of bytes a \<open>read\<close> of \<open>n\<close> bytes returns when \<open>r\<close> bytes are left in the file; \<open>b\<close> is the
  content of \<^verbatim>\<open>buf\<close>, of length \<open>m\<close>.
\<close>

function grep :: "(nat \<Rightarrow> nat \<Rightarrow> nat) \<Rightarrow> string \<Rightarrow> string \<Rightarrow> string \<Rightarrow> string list" where
  "grep rd pattern b file =
     (let c = take (rd (1024 - length b - 1) (length file)) file in
      if c = [] then []
      else
        let (out, rest) = grep_lines pattern (b @ c) in
        out @ grep rd pattern rest (drop (length c) file))"
  by auto
termination
  by (relation "measure (length \<circ> snd \<circ> snd \<circ> snd)") auto

declare grep.simps [simp del]

text \<open>
  \<^verbatim>\<open>main\<close>: the strings written to descriptors 1 and 2 and the exit status. \<open>fopen\<close> gives the content of the
  file a name opens, if it opens.
\<close>

fun grep_files :: "(nat \<Rightarrow> nat \<Rightarrow> nat) \<Rightarrow> (string \<Rightarrow> string option) \<Rightarrow> string \<Rightarrow> string list \<Rightarrow> (nat \<times> string) list \<times> nat" where
  "grep_files rd fopen pattern [] = ([], 0)"
| "grep_files rd fopen pattern (a # as) =
     (case fopen a of
        None \<Rightarrow> ([(1, ''grep: cannot open '' @ a @ [NL])], 1)
      | Some f \<Rightarrow>
          let (out, st) = grep_files rd fopen pattern as in (map (Pair 1) (grep rd pattern [] f) @ out, st))"

definition grep_main :: "(nat \<Rightarrow> nat \<Rightarrow> nat) \<Rightarrow> (string \<Rightarrow> string option) \<Rightarrow> string \<Rightarrow> string list \<Rightarrow> (nat \<times> string) list \<times> nat" where
  "grep_main rd fopen stdin argv =
     (if length argv \<le> 1 then ([(2, ''usage: grep pattern [file ...]'' @ [NL])], 1)
      else if length argv \<le> 2 then (map (Pair 1) (grep rd (argv ! 1) [] stdin), 0)
      else grep_files rd fopen (argv ! 1) (drop 2 argv))"

section \<open>What patterns mean\<close>

datatype item = One char | Star char

text \<open>The items of a pattern, and whether it ends with the anchor.\<close>

fun items :: "string \<Rightarrow> item list \<times> bool" where
  "items [] = ([], False)"
| "items [r] = (if r = CHR ''$'' then ([], True) else ([One r], False))"
| "items (r # r' # re) =
     (if r' = CHR ''*'' then apfst (Cons (Star r)) (items re) else apfst (Cons (One r)) (items (r' # re)))"

definition matches1 :: "char \<Rightarrow> char \<Rightarrow> bool" where
  "matches1 r x \<longleftrightarrow> r = CHR ''.'' \<or> r = x"

fun lang :: "item list \<Rightarrow> string set" where
  "lang [] = {[]}"
| "lang (One r # is) = {x # u | x u. matches1 r x \<and> u \<in> lang is}"
| "lang (Star r # is) = {w @ u | w u. list_all (matches1 r) w \<and> u \<in> lang is}"

text \<open>The text starts with a word of the pattern, the whole text when the pattern is anchored at the end.\<close>

definition starts :: "string \<Rightarrow> string \<Rightarrow> bool" where
  "starts re text \<longleftrightarrow> (\<exists>u v. text = u @ v \<and> u \<in> lang (fst (items re)) \<and> (snd (items re) \<longrightarrow> v = []))"

text \<open>The complete lines of a file, and the characters after the last newline.\<close>

fun split_lines :: "string \<Rightarrow> string list \<times> string" where
  "split_lines [] = ([], [])"
| "split_lines (x # xs) =
     (case split_lines xs of (ls, r) \<Rightarrow>
        if x = NL then ([] # ls, r) else case ls of [] \<Rightarrow> ([], x # r) | l # ls' \<Rightarrow> ((x # l) # ls', r))"

text \<open>What is documented of \<open>read\<close>: at least one byte unless none is asked for or left, never more than asked for.\<close>

definition read_ok :: "(nat \<Rightarrow> nat \<Rightarrow> nat) \<Rightarrow> bool" where
  "read_ok rd \<longleftrightarrow> (\<forall>n r. rd n r \<le> n \<and> rd n r \<le> r \<and> (0 < n \<longrightarrow> 0 < r \<longrightarrow> 0 < rd n r))"

section \<open>The matcher decides the languages\<close>

lemma starts_Nil [simp]: "starts [] text"
  by (simp add: starts_def)

lemma starts_dollar [simp]: "starts [CHR ''$''] text \<longleftrightarrow> text = []"
  by (auto simp: starts_def)

lemma starts_star:
  "starts (r # CHR ''*'' # re) text \<longleftrightarrow> (\<exists>w v. text = w @ v \<and> list_all (matches1 r) w \<and> starts re v)"
  unfolding starts_def by (simp add: apfst_def map_prod_def split_beta) (metis append.assoc)

lemma starts_one:
  assumes "re = [] \<longrightarrow> r \<noteq> CHR ''$''" "re \<noteq> [] \<longrightarrow> hd re \<noteq> CHR ''*''"
  shows "starts (r # re) text \<longleftrightarrow> (\<exists>x v. text = x # v \<and> matches1 r x \<and> starts re v)"
proof -
  have "items (r # re) = apfst (Cons (One r)) (items re)" using assms by (cases re) auto
  then have i: "fst (items (r # re)) = One r # fst (items re)" "snd (items (r # re)) = snd (items re)" by simp_all
  show ?thesis
  proof
    assume "starts (r # re) text"
    then obtain w v where t: "text = w @ v" "w \<in> lang (One r # fst (items re))" "snd (items re) \<longrightarrow> v = []"
      unfolding starts_def i by blast
    from t(2) obtain x u where "w = x # u" "matches1 r x" "u \<in> lang (fst (items re))" by auto
    then have "text = x # u @ v" "matches1 r x" "u \<in> lang (fst (items re))" using t(1) by simp_all
    with t(3) show "\<exists>x v. text = x # v \<and> matches1 r x \<and> starts re v" unfolding starts_def by blast
  next
    assume "\<exists>x v. text = x # v \<and> matches1 r x \<and> starts re v"
    then obtain x u v where t: "text = x # u @ v" "matches1 r x" "u \<in> lang (fst (items re))" "snd (items re) \<longrightarrow> v = []"
      unfolding starts_def by blast
    show "starts (r # re) text" unfolding starts_def i
      by (rule exI [of _ "x # u"], rule exI [of _ v]) (use t in simp)
  qed
qed

lemma star_step:
  "(\<exists>w v. text = w @ v \<and> list_all P w \<and> Q v) \<longleftrightarrow>
   Q text \<or> (text \<noteq> [] \<and> P (hd text) \<and> (\<exists>w v. tl text = w @ v \<and> list_all P w \<and> Q v))"
proof (cases "text")
  case (Cons x xs)
  have "(\<exists>w v. x # xs = w @ v \<and> list_all P w \<and> Q v) \<longleftrightarrow>
      Q (x # xs) \<or> P x \<and> (\<exists>w v. xs = w @ v \<and> list_all P w \<and> Q v)" (is "?L \<longleftrightarrow> ?R")
  proof
    assume ?L
    then obtain w v where wv: "x # xs = w @ v" "list_all P w" "Q v" by blast
    then show ?R by (cases w) auto
  next
    assume ?R
    then show ?L
    proof
      assume "P x \<and> (\<exists>w v. xs = w @ v \<and> list_all P w \<and> Q v)"
      then obtain w v where "xs = w @ v" "list_all P w" "Q v" "P x" by blast
      then have "x # xs = (x # w) @ v \<and> list_all P (x # w) \<and> Q v" by simp
      then show ?L by blast
    qed (metis append_Nil list.pred_inject(1))
  qed
  then show ?thesis using Cons by simp
qed auto

lemma matchhere_starts:
  "matchhere re text \<longleftrightarrow> starts re text"
  "matchstar c re text \<longleftrightarrow> (\<exists>w v. text = w @ v \<and> list_all (matches1 c) w \<and> starts re v)"
proof (induction re "text" and c re "text" rule: matchhere_matchstar.induct)
  case (2 r re t)
  show ?case
  proof (cases "re \<noteq> [] \<and> hd re = CHR ''*''")
    case True
    then obtain re' where "re = CHR ''*'' # re'" by (cases re) auto
    then show ?thesis using 2 by (simp add: starts_star)
  next
    case star: False
    show ?thesis
    proof (cases "r = CHR ''$'' \<and> re = []")
      case False
      then have "starts (r # re) t \<longleftrightarrow> (\<exists>x v. t = x # v \<and> matches1 r x \<and> starts re v)"
        using star by (intro starts_one) auto
      then show ?thesis using 2 star False by (cases t) (auto simp: matches1_def)
    qed (use star in simp)
  qed
next
  case (3 c re t)
  define R where "R \<longleftrightarrow> (\<exists>w v. tl t = w @ v \<and> list_all (matches1 c) w \<and> starts re v)"
  have 1: "(\<exists>w v. t = w @ v \<and> list_all (matches1 c) w \<and> starts re v) \<longleftrightarrow> starts re t \<or> t \<noteq> [] \<and> matches1 c (hd t) \<and> R"
    unfolding R_def by (rule star_step)
  have 2: "matchhere re t = starts re t" by (rule 3(1))
  have 4: "(hd t = c \<or> c = CHR ''.'') = matches1 c (hd t)" by (auto simp: matches1_def)
  have "matchstar c re (tl t) = R" if "\<not> starts re t" "t \<noteq> []" "matches1 c (hd t)"
    unfolding R_def by (rule 3(2)) (use 2 4 that in auto)
  then show ?case unfolding matchstar.simps [of c re t] 1 2 4 by auto
qed simp

lemma match_from_starts: "match_from re text \<longleftrightarrow> (\<exists>w v. text = w @ v \<and> starts re v)"
proof (induction "text")
  case Nil
  then show ?case by (simp add: matchhere_starts match_from.simps [of re "[]"])
next
  case (Cons x xs)
  have "(\<exists>w v. x # xs = w @ v \<and> starts re v) \<longleftrightarrow> starts re (x # xs) \<or> (\<exists>w v. xs = w @ v \<and> starts re v)"
    using star_step [of "x # xs" "\<lambda>_. True" "starts re"] by (simp add: list_all_iff)
  then show ?case using Cons by (simp add: matchhere_starts match_from.simps [of re "x # xs"])
qed

section \<open>The line loop\<close>

lemma split_lines_append:
  "split_lines (b @ c) =
     (fst (split_lines b) @ fst (split_lines (snd (split_lines b) @ c)), snd (split_lines (snd (split_lines b) @ c)))"
  by (induction b) (auto split: prod.splits list.splits)

lemma split_lines_plain: "NL \<notin> set b \<Longrightarrow> split_lines b = ([], b)"
  by (induction b) auto

lemma split_lines_rest: "NL \<notin> set (snd (split_lines b))"
  by (induction b) (auto split: prod.splits list.splits)

lemma split_lines_set: "set (snd (split_lines b)) \<subseteq> set b"
  by (induction b) (auto split: prod.splits list.splits)

lemma strchr_None: "NUL \<notin> set p \<Longrightarrow> strchr p NL = None \<longleftrightarrow> NL \<notin> set p"
  by (induction p) auto

lemma strchr_Some:
  "strchr p NL = Some q \<Longrightarrow>
   \<exists>v. p = take q p @ NL # v \<and> drop (Suc q) p = v \<and> NL \<notin> set (take q p) \<and> take (Suc q) p = take q p @ [NL]"
  by (induction p arbitrary: q) (auto split: if_splits)

lemma split_lines_line:
  "NL \<notin> set u \<Longrightarrow> split_lines (u @ NL # v) = (u # fst (split_lines v), snd (split_lines v))"
  by (induction u) (auto split: prod.splits)

lemma grep_lines_split:
  "NUL \<notin> set p \<Longrightarrow>
   grep_lines pat p = (map (\<lambda>l. l @ [NL]) (filter (match pat) (fst (split_lines p))), snd (split_lines p))"
proof (induction p rule: length_induct)
  case (1 p)
  show ?case
  proof (cases "strchr p NL")
    case None
    then have "NL \<notin> set p" using 1(2) strchr_None by simp
    then show ?thesis using None split_lines_plain by (simp add: grep_lines.simps [of pat p])
  next
    case (Some q)
    from strchr_Some [OF this] obtain u v where
      p: "p = u @ NL # v" "NL \<notin> set u" "take q p = u" "drop (Suc q) p = v" "take (Suc q) p = u @ [NL]"
      by metis
    have "grep_lines pat v = (map (\<lambda>l. l @ [NL]) (filter (match pat) (fst (split_lines v))), snd (split_lines v))"
      using 1 p(1) by simp
    moreover have "split_lines p = (u # fst (split_lines v), snd (split_lines v))"
      unfolding p(1) by (rule split_lines_line [OF p(2)])
    ultimately show ?thesis using Some p(3-5) by (simp add: grep_lines.simps [of pat p])
  qed
qed

text \<open>Every line, with the characters after the last newline as the last one, fits the buffer.\<close>

definition lines_fit :: "string \<Rightarrow> bool" where
  "lines_fit f \<longleftrightarrow> list_all (\<lambda>l. length l < 1023) (fst (split_lines f)) \<and> length (snd (split_lines f)) < 1023"

lemma split_lines_prefix:
  assumes "lines_fit (b @ c)" "NL \<notin> set b"
  shows "length b < 1023"
proof -
  have "split_lines (b @ c) = (case split_lines c of ([], r) \<Rightarrow> ([], b @ r) | (l # ls, r) \<Rightarrow> ((b @ l) # ls, r))"
    using assms(2) by (induction b) (auto split: prod.splits list.splits)
  then show ?thesis using assms(1) by (auto simp: lines_fit_def split: prod.splits list.splits)
qed

lemma grep_spec:
  assumes rd: "read_ok rd"
  shows "NUL \<notin> set b \<Longrightarrow> NUL \<notin> set f \<Longrightarrow> NL \<notin> set b \<Longrightarrow> lines_fit (b @ f) \<Longrightarrow>
    grep rd pat b f = map (\<lambda>l. l @ [NL]) (filter (match pat) (fst (split_lines (b @ f))))"
proof (induction f arbitrary: b rule: length_induct)
  case (1 f)
  define c where "c = take (rd (1024 - length b - 1) (length f)) f"
  have lb: "length b < 1023" using split_lines_prefix 1(4,5) by blast
  show ?case
  proof (cases "c = []")
    case True
    have "0 < rd (1024 - length b - 1) (length f)" if "f \<noteq> []"
    proof -
      have "0 < 1024 - length b - 1" using lb by simp
      then show ?thesis using rd that unfolding read_ok_def by (metis length_greater_0_conv)
    qed
    then have "f = []" using True unfolding c_def by (metis less_numeral_extra(3) take_eq_Nil)
    then show ?thesis using True split_lines_plain [OF 1(4)] by (simp add: grep.simps [of rd pat b "[]"])
  next
    case False
    define f' where "f' = drop (length c) f"
    have f: "f = c @ f'" unfolding c_def f'_def by (simp add: min_def)
    have r: "grep_lines pat (b @ c) = (map (\<lambda>l. l @ [NL]) (filter (match pat) (fst (split_lines (b @ c)))), snd (split_lines (b @ c)))"
      using 1 f by (intro grep_lines_split) auto
    let ?r = "snd (split_lines (b @ c))"
    have s: "split_lines (b @ f) = (fst (split_lines (b @ c)) @ fst (split_lines (?r @ f')), snd (split_lines (?r @ f')))"
      using split_lines_append [of "b @ c" f'] f by simp
    have "grep rd pat ?r f' = map (\<lambda>l. l @ [NL]) (filter (match pat) (fst (split_lines (?r @ f'))))"
    proof -
      have "NUL \<notin> set ?r" using split_lines_set [of "b @ c"] 1(2,3) f by auto
      moreover have "lines_fit (?r @ f')" using 1(5) s by (simp add: lines_fit_def)
      ultimately show ?thesis using 1 False f split_lines_rest by simp
    qed
    moreover have "grep rd pat b f = fst (grep_lines pat (b @ c)) @ grep rd pat (snd (grep_lines pat (b @ c))) f'"
      unfolding grep.simps [of rd pat b f] Let_def c_def [symmetric] f'_def [symmetric] using False by (simp add: split_beta)
    ultimately show ?thesis using r s by simp
  qed
qed

lemma strchr_notin: "c \<notin> set xs \<Longrightarrow> strchr xs c = None"
  by (induction xs) auto

text \<open>A line that fills the buffer ends the search.\<close>

lemma grep_full:
  assumes rd: "read_ok rd"
  shows "1023 \<le> length (b @ f) \<Longrightarrow> length b \<le> 1023 \<Longrightarrow> NL \<notin> set (take 1023 (b @ f)) \<Longrightarrow> grep rd pat b f = []"
proof (induction f arbitrary: b rule: length_induct)
  case (1 f)
  define k where "k = rd (1024 - length b - 1) (length f)"
  have "rd x y \<le> x \<and> rd x y \<le> y" for x y using rd by (simp add: read_ok_def)
  from this [of "1024 - length b - 1" "length f"] have k: "k \<le> 1023 - length b" "k \<le> length f" by (simp_all add: k_def)
  show ?case
  proof (cases "take k f = []")
    case True
    then show ?thesis unfolding grep.simps [of rd pat b f] Let_def k_def [symmetric] by simp
  next
    case False
    have "set (b @ take k f) \<subseteq> set (take 1023 (b @ f))"
      using k 1(3) set_take_subset_set_take [of k "1023 - length b" f] by auto
    then have n: "NL \<notin> set (b @ take k f)" using 1(4) by blast
    have g: "grep_lines pat (b @ take k f) = ([], b @ take k f)" using strchr_notin [OF n] by (simp add: grep_lines.simps [of pat "b @ take k f"])
    have "grep rd pat (b @ take k f) (drop k f) = []"
      using 1 k False by (intro 1(1) [rule_format]) auto
    then show ?thesis unfolding grep.simps [of rd pat b f] Let_def k_def [symmetric] using g k False by (simp add: min_absorb2)
  qed
qed

end
