(* ===== verification/Tools.thy ===== *)
theory Tools
  imports Grep
begin

text \<open>
  The small user programs \<^verbatim>\<open>cat\<close>, \<^verbatim>\<open>wc\<close>, \<^verbatim>\<open>echo\<close>, \<^verbatim>\<open>kill\<close>, \<^verbatim>\<open>ln\<close>, \<^verbatim>\<open>mkdir\<close> and \<^verbatim>\<open>rm\<close>. A program is the list of strings it writes, with the
  descriptor, and its exit status; system calls are parameters. \<open>rd n r\<close> is what a \<open>read\<close> of \<open>n\<close> bytes returns when \<open>r\<close> bytes are left in the
  file, negative for an error.
\<close>

type_synonym outp = "(nat \<times> string) list"

section \<open>cat\<close>

text \<open>\<open>wr c\<close> is what a \<open>write\<close> of \<open>c\<close> returns: the number of bytes written, or a negative number. \<open>None\<close> is a return, \<open>Some\<close> an exit.\<close>

function cat :: "(nat \<Rightarrow> nat \<Rightarrow> int) \<Rightarrow> (string \<Rightarrow> int) \<Rightarrow> string \<Rightarrow> outp \<times> nat option" where
  "cat rd wr file =
     (let n = rd 512 (length file); c = take (nat n) file in
      if n < 0 then ([(2, ''cat: read error'' @ [NL])], Some 1)
      else if c = [] then ([], None)
      else if wr c \<noteq> n then ([(1, take (nat (wr c)) c), (2, ''cat: write error'' @ [NL])], Some 1)
      else apfst (Cons (1, c)) (cat rd wr (drop (length c) file)))"
  by auto
termination
  by (relation "measure (\<lambda>(rd, wr, file). length file)") auto

declare cat.simps [simp del]

fun cat_files :: "(nat \<Rightarrow> nat \<Rightarrow> int) \<Rightarrow> (string \<Rightarrow> int) \<Rightarrow> (string \<Rightarrow> string option) \<Rightarrow> string list \<Rightarrow> outp \<times> nat" where
  "cat_files rd wr fopen [] = ([], 0)"
| "cat_files rd wr fopen (a # as) =
     (case fopen a of
        None \<Rightarrow> ([(2, ''cat: cannot open '' @ a @ [NL])], 1)
      | Some f \<Rightarrow>
          let (out, st) = cat rd wr f in
          case st of Some e \<Rightarrow> (out, e) | None \<Rightarrow> apfst ((@) out) (cat_files rd wr fopen as))"

definition cat_main :: "(nat \<Rightarrow> nat \<Rightarrow> int) \<Rightarrow> (string \<Rightarrow> int) \<Rightarrow> (string \<Rightarrow> string option) \<Rightarrow> string \<Rightarrow> string list \<Rightarrow> outp \<times> nat" where
  "cat_main rd wr fopen stdin argv =
     (if length argv \<le> 1 then
        let (out, st) = cat rd wr stdin in (out, case st of Some e \<Rightarrow> e | None \<Rightarrow> 0)
      else cat_files rd wr fopen (tl argv))"

section \<open>wc\<close>

text \<open>The counters for lines, words and characters, and \<^verbatim>\<open>inword\<close>.\<close>

type_synonym wc_st = "u32 \<times> u32 \<times> u32 \<times> bool"

definition is_space :: "char \<Rightarrow> bool" where
  "is_space x \<longleftrightarrow> strchr ('' '' @ [CR, CHR 0x09, NL, CHR 0x0B]) x \<noteq> None"

definition wc_char :: "char \<Rightarrow> wc_st \<Rightarrow> wc_st" where
  "wc_char x = (\<lambda>(l, w, c, inword).
     (if x = NL then l + 1 else l,
      if is_space x then w else if \<not> inword then w + 1 else w,
      c + 1,
      \<not> is_space x))"

text \<open>The counters at the end of the file, or \<open>None\<close> for a read error.\<close>

function wc_loop :: "(nat \<Rightarrow> nat \<Rightarrow> int) \<Rightarrow> string \<Rightarrow> wc_st \<Rightarrow> wc_st option" where
  "wc_loop rd file st =
     (let n = rd 512 (length file); b = take (nat n) file in
      if n < 0 then None
      else if b = [] then Some st
      else wc_loop rd (drop (length b) file) (fold wc_char b st))"
  by auto
termination
  by (relation "measure (\<lambda>(rd, file, st). length file)") auto

declare wc_loop.simps [simp del]

definition wc :: "(nat \<Rightarrow> nat \<Rightarrow> int) \<Rightarrow> string \<Rightarrow> string \<Rightarrow> outp \<times> nat option" where
  "wc rd name file =
     (case wc_loop rd file (0, 0, 0, False) of
        None \<Rightarrow> ([(1, ''wc: read error'' @ [NL])], Some 1)
      | Some (l, w, c, _) \<Rightarrow>
          (case vprintf False (''%d %d %d %s'' @ [NL]) [Reg (scast l), Reg (scast w), Reg (scast c), Str (Some name)] of
             Some out \<Rightarrow> [(1, out)] | None \<Rightarrow> [], None))"

fun wc_files :: "(nat \<Rightarrow> nat \<Rightarrow> int) \<Rightarrow> (string \<Rightarrow> string option) \<Rightarrow> string list \<Rightarrow> outp \<times> nat" where
  "wc_files rd fopen [] = ([], 0)"
| "wc_files rd fopen (a # as) =
     (case fopen a of
        None \<Rightarrow> ([(1, ''wc: cannot open '' @ a @ [NL])], 1)
      | Some f \<Rightarrow>
          let (out, st) = wc rd a f in
          case st of Some e \<Rightarrow> (out, e) | None \<Rightarrow> apfst ((@) out) (wc_files rd fopen as))"

definition wc_main :: "(nat \<Rightarrow> nat \<Rightarrow> int) \<Rightarrow> (string \<Rightarrow> string option) \<Rightarrow> string \<Rightarrow> string list \<Rightarrow> outp \<times> nat" where
  "wc_main rd fopen stdin argv =
     (if length argv \<le> 1 then
        let (out, st) = wc rd [] stdin in (out, case st of Some e \<Rightarrow> e | None \<Rightarrow> 0)
      else wc_files rd fopen (tl argv))"

section \<open>Programs without a loop over input\<close>

fun echo_args :: "string list \<Rightarrow> outp" where
  "echo_args [] = []"
| "echo_args (a # as) = (1, a) # (1, if as \<noteq> [] then '' '' else [NL]) # echo_args as"

definition echo_main :: "string list \<Rightarrow> outp \<times> nat" where
  "echo_main argv = (echo_args (tl argv), 0)"

text \<open>System calls act on a state \<open>'s\<close> of the kernel and return an \<^verbatim>\<open>int\<close>.\<close>

fun kill_all :: "(int \<Rightarrow> 's \<Rightarrow> int \<times> 's) \<Rightarrow> string list \<Rightarrow> 's \<Rightarrow> 's" where
  "kill_all kill [] s = s"
| "kill_all kill (a # as) s = kill_all kill as (snd (kill (atoi a) s))"

definition kill_main :: "(int \<Rightarrow> 's \<Rightarrow> int \<times> 's) \<Rightarrow> string list \<Rightarrow> 's \<Rightarrow> (outp \<times> nat) \<times> 's" where
  "kill_main kill argv s =
     (if length argv < 2 then (([(2, ''usage: kill pid...'' @ [NL])], 1), s)
      else (([], 0), kill_all kill (tl argv) s))"

definition ln_main :: "(string \<Rightarrow> string \<Rightarrow> 's \<Rightarrow> int \<times> 's) \<Rightarrow> string list \<Rightarrow> 's \<Rightarrow> (outp \<times> nat) \<times> 's" where
  "ln_main link argv s =
     (if length argv \<noteq> 3 then (([(2, ''Usage: ln old new'' @ [NL])], 1), s)
      else
        let (r, s) = link (argv ! 1) (argv ! 2) s in
        ((if r < 0 then [(2, ''link '' @ argv ! 1 @ '' '' @ argv ! 2 @ '': failed'' @ [NL])] else [], 0), s))"

fun mkdir_all :: "(string \<Rightarrow> 's \<Rightarrow> int \<times> 's) \<Rightarrow> string list \<Rightarrow> 's \<Rightarrow> outp \<times> 's" where
  "mkdir_all mkdir [] s = ([], s)"
| "mkdir_all mkdir (a # as) s =
     (let (r, s) = mkdir a s in
      if r < 0 then ([(2, ''mkdir: '' @ a @ '' failed to create'' @ [NL])], s) else mkdir_all mkdir as s)"

definition mkdir_main :: "(string \<Rightarrow> 's \<Rightarrow> int \<times> 's) \<Rightarrow> string list \<Rightarrow> 's \<Rightarrow> (outp \<times> nat) \<times> 's" where
  "mkdir_main mkdir argv s =
     (if length argv < 2 then (([(2, ''Usage: mkdir files...'' @ [NL])], 1), s)
      else let (out, s) = mkdir_all mkdir (tl argv) s in ((out, 0), s))"

fun rm_all :: "(string \<Rightarrow> 's \<Rightarrow> int \<times> 's) \<Rightarrow> string list \<Rightarrow> 's \<Rightarrow> outp \<times> 's" where
  "rm_all unlink [] s = ([], s)"
| "rm_all unlink (a # as) s =
     (let (r, s) = unlink a s in
      if r < 0 then ([(2, ''rm: '' @ a @ '' failed to delete'' @ [NL])], s) else rm_all unlink as s)"

definition rm_main :: "(string \<Rightarrow> 's \<Rightarrow> int \<times> 's) \<Rightarrow> string list \<Rightarrow> 's \<Rightarrow> (outp \<times> nat) \<times> 's" where
  "rm_main unlink argv s =
     (if length argv < 2 then (([(2, ''Usage: rm files...'' @ [NL])], 1), s)
      else let (out, s) = rm_all unlink (tl argv) s in ((out, 0), s))"

section \<open>cat copies its input\<close>

definition reads :: "(nat \<Rightarrow> nat \<Rightarrow> int) \<Rightarrow> bool" where
  "reads rd \<longleftrightarrow> read_ok (\<lambda>n r. nat (rd n r)) \<and> (\<forall>n r. 0 \<le> rd n r)"

lemma readsD:
  assumes "reads rd"
  shows "0 \<le> rd 512 r" "nat (rd 512 r) \<le> r" "0 < r \<Longrightarrow> 0 < rd 512 r"
proof -
  have "nat (rd 512 r) \<le> r \<and> (0 < r \<longrightarrow> 0 < nat (rd 512 r))" using assms unfolding reads_def read_ok_def by simp
  then show "0 \<le> rd 512 r" "nat (rd 512 r) \<le> r" "0 < r \<Longrightarrow> 0 < rd 512 r" using assms by (auto simp: reads_def)
qed

lemma cat_copies:
  assumes "reads rd" "\<And>c. wr c = int (length c)"
  shows "\<exists>out. cat rd wr f = (map (Pair 1) out, None) \<and> concat out = f"
proof (induction "length f" arbitrary: f rule: less_induct)
  case less
  note r = readsD [OF assms(1), of "length f"]
  let ?c = "take (nat (rd 512 (length f))) f"
  show ?case
  proof (cases "f = []")
    case True
    then show ?thesis using r(1) by (subst cat.simps) (simp add: Let_def)
  next
    case False
    then have c: "?c \<noteq> []" "int (length ?c) = rd 512 (length f)" using r by auto
    then have "length (drop (length ?c) f) < length f" using False by (simp add: nat_less_iff)
    then obtain out where o: "cat rd wr (drop (length ?c) f) = (map (Pair 1) out, None)" "concat out = drop (length ?c) f"
      using less by blast
    have "cat rd wr f = (map (Pair 1) (?c # out), None)"
      using c o(1) r(1) assms(2) by (subst cat.simps) (simp add: Let_def)
    moreover have "concat (?c # out) = f" using o(2) r(2) by (simp add: min_absorb2)
    ultimately show ?thesis by blast
  qed
qed

section \<open>wc counts\<close>

text \<open>However \<open>read\<close> cuts up the file, the counters are those of the whole file.\<close>

lemma wc_loop_fold: "reads rd \<Longrightarrow> wc_loop rd f st = Some (fold wc_char f st)"
proof (induction "length f" arbitrary: f st rule: less_induct)
  case less
  note r = readsD [OF less.prems, of "length f"]
  let ?b = "take (nat (rd 512 (length f))) f"
  show ?case
  proof (cases "f = []")
    case True
    then show ?thesis using r(1) by (subst wc_loop.simps) (simp add: Let_def)
  next
    case False
    then have b: "?b \<noteq> []" using r by auto
    then have "length (drop (length ?b) f) < length f" using False by (simp add: nat_less_iff)
    then have "wc_loop rd (drop (length ?b) f) (fold wc_char ?b st) = Some (fold wc_char (drop (length ?b) f) (fold wc_char ?b st))"
      using less by blast
    also have "fold wc_char (drop (length ?b) f) (fold wc_char ?b st) = fold wc_char (?b @ drop (length ?b) f) st" by (simp only: fold_append comp_apply)
    also have "?b @ drop (length ?b) f = f" using r(2) by (simp add: min_absorb2)
    finally show ?thesis using b r(1) by (subst wc_loop.simps) (simp add: Let_def)
  qed
qed

text \<open>A word starts at a character that is no space and has none before it.\<close>

fun word_starts :: "bool \<Rightarrow> string \<Rightarrow> nat" where
  "word_starts inword [] = 0"
| "word_starts inword (x # xs) = (if \<not> is_space x \<and> \<not> inword then 1 else 0) + word_starts (\<not> is_space x) xs"

lemma wc_fold:
  "fold wc_char xs (l, w, c, inword) =
     (l + of_nat (count_list xs NL), w + of_nat (word_starts inword xs), c + of_nat (length xs), if xs = [] then inword else \<not> is_space (last xs))"
  by (induction xs arbitrary: l w c inword) (simp_all add: wc_char_def)

lemma wc_counts:
  "reads rd \<Longrightarrow> wc_loop rd f (0, 0, 0, False) =
     Some (of_nat (count_list f NL), of_nat (word_starts False f), of_nat (length f), f \<noteq> [] \<and> \<not> is_space (last f))"
  by (simp add: wc_loop_fold wc_fold)

end
