(* ===== verification/Sh.thy ===== *)
theory Sh
  imports Ulib
begin

text \<open>
  The parser of the shell (\<^verbatim>\<open>user/sh.c\<close>). The command line is the string \<open>s\<close>, whose end stands for \<^verbatim>\<open>es\<close>; a pointer into it
  is an index. A word is the pair of its ends, as \<^verbatim>\<open>argv\<close> and \<^verbatim>\<open>eargv\<close> hold it, until \<open>nulterminate\<close> stores the
  terminators into the line. \<open>Panic\<close> is the shell's own \<^verbatim>\<open>panic\<close>, which exits.
\<close>

section \<open>Commands\<close>

abbreviation (input) MAXARGS :: nat where "MAXARGS \<equiv> 10"

datatype cmd =
    EXEC "(nat \<times> nat) list"
  | REDIR cmd nat nat int int
  | PIPE cmd cmd
  | LIST cmd cmd
  | BACK cmd

text \<open>Storing an argument into the \<^verbatim>\<open>execcmd\<close> that the redirections around it point to.\<close>

fun add_arg :: "nat \<times> nat \<Rightarrow> cmd \<Rightarrow> cmd" where
  "add_arg w (EXEC ws) = EXEC (ws @ [w])"
| "add_arg w (REDIR c q e mode fd) = REDIR (add_arg w c) q e mode fd"
| "add_arg w c = c"

section \<open>Tokens\<close>

definition whitespace :: string where
  "whitespace = [CHR '' '', CHR 0x09, CHR 0x0D, CHR 0x0A, CHR 0x0B]"

definition symbols :: string where
  "symbols = ''<|>&;()''"

abbreviation (input) in_str :: "string \<Rightarrow> char \<Rightarrow> bool" where
  "in_str t c \<equiv> strchr t c \<noteq> None"

definition char_at :: "string \<Rightarrow> nat \<Rightarrow> char" where
  "char_at s i = (if i < length s then s ! i else NUL)"

function skip_while :: "(char \<Rightarrow> bool) \<Rightarrow> string \<Rightarrow> nat \<Rightarrow> nat" where
  "skip_while p s i = (if i < length s \<and> p (s ! i) then skip_while p s (i + 1) else i)"
  by auto
termination
  by (relation "measure (\<lambda>(p, s, i). length s - i)") auto

declare skip_while.simps [simp del]

definition word_char :: "char \<Rightarrow> bool" where
  "word_char c \<longleftrightarrow> \<not> in_str whitespace c \<and> \<not> in_str symbols c"

definition is_white :: "char \<Rightarrow> bool" where
  "is_white c \<longleftrightarrow> in_str whitespace c"

text \<open>The switch of \<^verbatim>\<open>gettoken\<close>: the kind of the token that starts at \<open>q\<close>, and its end.\<close>

definition tok_end :: "string \<Rightarrow> nat \<Rightarrow> char \<times> nat" where
  "tok_end s q =
     (let c = char_at s q in
      if c = NUL then (c, q)
      else if c \<in> {CHR ''|'', CHR ''('', CHR '')'', CHR '';'', CHR ''&'', CHR ''<''} then (c, q + 1)
      else if c = CHR ''>'' then (if char_at s (q + 1) = CHR ''>'' then (CHR ''+'', q + 2) else (c, q + 1))
      else (CHR ''a'', skip_while word_char s q))"

text \<open>The kind of the token, its ends, and the position after it.\<close>

definition gettoken :: "string \<Rightarrow> nat \<Rightarrow> char \<times> nat \<times> nat \<times> nat" where
  "gettoken s i =
     (let q = skip_while is_white s i; (ret, e) = tok_end s q in (ret, q, e, skip_while is_white s e))"

definition peek :: "string \<Rightarrow> string \<Rightarrow> nat \<Rightarrow> bool \<times> nat" where
  "peek s toks i = (let i = skip_while is_white s i; c = char_at s i in (c \<noteq> NUL \<and> in_str toks c, i))"

text \<open>The position after the next token.\<close>

definition next_pos :: "string \<Rightarrow> nat \<Rightarrow> nat" where
  "next_pos s i = snd (snd (snd (gettoken s i)))"

lemma skip_while_ge: "i \<le> skip_while p s i"
  by (induction p s i rule: skip_while.induct) (subst skip_while.simps, auto)

lemma skip_while_le: "i \<le> length s \<Longrightarrow> skip_while p s i \<le> length s"
  by (induction p s i rule: skip_while.induct) (subst skip_while.simps, auto)

lemma skip_while_in: "i \<le> k \<Longrightarrow> k < skip_while p s i \<Longrightarrow> p (s ! k)"
proof (induction p s i rule: skip_while.induct)
  case (1 p s i)
  then show ?case by (cases "k = i") (auto simp: skip_while.simps [of p s i] split: if_splits)
qed

lemma skip_while_end: "skip_while p s i < length s \<Longrightarrow> \<not> p (s ! skip_while p s i)"
  by (induction p s i rule: skip_while.induct) (subst (asm) (2) skip_while.simps, subst skip_while.simps, auto split: if_splits)

lemma peek_ge: "peek s toks i = (b, j) \<Longrightarrow> i \<le> j"
  using skip_while_ge [of i _ s] by (auto simp: peek_def Let_def)

lemma tok_end_ge: "tok_end s q = (t, e) \<Longrightarrow> q \<le> e"
  using skip_while_ge [of q word_char s] by (auto simp: tok_end_def Let_def split: if_splits)

lemma tok_end_le: "tok_end s q = (t, e) \<Longrightarrow> q \<le> length s \<Longrightarrow> e \<le> length s"
  using skip_while_le [of q s word_char]
  by (auto simp: tok_end_def Let_def char_at_def split: if_splits)

lemma gettoken_ge: "gettoken s i = (t, q, e, j) \<Longrightarrow> i \<le> q \<and> q \<le> e \<and> e \<le> j"
  using skip_while_ge [of _ is_white s] tok_end_ge [of s] by (auto simp: gettoken_def Let_def split: prod.splits)

lemma gettoken_le: "gettoken s i = (t, q, e, j) \<Longrightarrow> i \<le> length s \<Longrightarrow> e \<le> length s \<and> j \<le> length s"
  using skip_while_le [of _ s is_white] tok_end_le [of s] by (auto simp: gettoken_def Let_def split: prod.splits)

lemma tok_end_pos:
  assumes "char_at s q \<noteq> NUL" "\<not> is_white (s ! q)" "tok_end s q = (t, e)"
  shows "q < e \<and> q < length s"
proof -
  have l: "q < length s" using assms(1) by (auto simp: char_at_def split: if_splits)
  then have c: "char_at s q = s ! q" by (simp add: char_at_def)
  show ?thesis
    using assms l skip_while_ge [of "q + 1" word_char s]
    by (auto simp: tok_end_def Let_def c word_char_def is_white_def symbols_def skip_while.simps [of word_char s q] split: if_splits)
qed

text \<open>A symbol that \<open>peek\<close> has seen is consumed.\<close>

lemma peek_gettoken:
  assumes "peek s toks i = (True, j)"
  shows "j < next_pos s j \<and> j < length s"
proof -
  have j: "j = skip_while is_white s i" "char_at s j \<noteq> NUL" using assms by (auto simp: peek_def Let_def)
  then have l: "j < length s" by (auto simp: char_at_def split: if_splits)
  have w: "\<not> is_white (s ! j)" using skip_while_end [of is_white s i] j(1) l by simp
  then have q: "skip_while is_white s j = j" by (simp add: skip_while.simps [of _ s j])
  obtain t e where e: "tok_end s j = (t, e)" by (cases "tok_end s j")
  then show ?thesis
    using tok_end_pos [OF j(2) w e] skip_while_ge [of e is_white s] by (simp add: next_pos_def gettoken_def q)
qed

section \<open>The parser\<close>

function parseredirs :: "string \<Rightarrow> cmd \<Rightarrow> nat \<Rightarrow> (cmd \<times> nat) res" where
  "parseredirs s cmd i =
     (case peek s ''<>'' i of
        (False, i) \<Rightarrow> Ok (cmd, i)
      | (True, i) \<Rightarrow>
          let tok = fst (gettoken s i);
              (t, q, e, i) = gettoken s (next_pos s i) in
          if t \<noteq> CHR ''a'' then Panic ''missing file for redirection''
          else
            let cmd = (if tok = CHR ''<'' then REDIR cmd q e 0 0
                       else if tok = CHR ''>'' then REDIR cmd q e 0x601 1
                       else if tok = CHR ''+'' then REDIR cmd q e 0x201 1 else cmd) in
            parseredirs s cmd i)"
  by auto
termination
proof (relation "measure (\<lambda>(s, cmd, i). length s - i)", simp, goal_cases)
  case (1 s cmd i b j tok x t y q z e k cmd')
  then have "peek s ''<>'' i = (True, j)" by simp
  from peek_gettoken [OF this] peek_ge [OF this] gettoken_ge [of s "next_pos s j" t q e k] 1 show ?case by auto
qed

function back_loop :: "string \<Rightarrow> cmd \<Rightarrow> nat \<Rightarrow> cmd \<times> nat" where
  "back_loop s cmd i =
     (case peek s ''&'' i of (False, i) \<Rightarrow> (cmd, i) | (True, i) \<Rightarrow> back_loop s (BACK cmd) (next_pos s i))"
  by auto
termination
proof (relation "measure (\<lambda>(s, cmd, i). length s - i)", simp, goal_cases)
  case (1 s cmd i b j)
  then have "peek s ''&'' i = (True, j)" by simp
  from peek_gettoken [OF this] peek_ge [OF this] show ?case by auto
qed

declare parseredirs.simps [simp del] back_loop.simps [simp del]

text \<open>The loop of \<^verbatim>\<open>parseexec\<close> over the arguments.\<close>

function parseargs :: "string \<Rightarrow> nat \<Rightarrow> cmd \<Rightarrow> nat \<Rightarrow> (cmd \<times> nat) res" where
  "parseargs s argc ret i =
     (case peek s ''|)&;'' i of
        (True, i) \<Rightarrow> Ok (ret, i)
      | (False, i) \<Rightarrow>
          let (tok, q, e, i) = gettoken s i in
          if tok = NUL then Ok (ret, i)
          else if tok \<noteq> CHR ''a'' then Panic ''syntax''
          else
            let ret = add_arg (q, e) ret; argc = argc + 1 in
            if argc \<ge> MAXARGS then Panic ''too many args''
            else bindr (parseredirs s ret i) (\<lambda>(ret, i). parseargs s argc ret i))"
  by auto
termination
  by (relation "measure (\<lambda>(s, argc, ret, i). MAXARGS - argc)") auto

declare parseargs.simps [simp del]

text \<open>The recursive descent; \<open>parseblock\<close> is the first case of \<open>parseexec\<close>. \<open>Loop\<close> is fuel that ran out.\<close>

fun parseline :: "nat \<Rightarrow> string \<Rightarrow> nat \<Rightarrow> (cmd \<times> nat) res"
  and parsepipe :: "nat \<Rightarrow> string \<Rightarrow> nat \<Rightarrow> (cmd \<times> nat) res"
  and parseblock :: "nat \<Rightarrow> string \<Rightarrow> nat \<Rightarrow> (cmd \<times> nat) res"
  and parseexec :: "nat \<Rightarrow> string \<Rightarrow> nat \<Rightarrow> (cmd \<times> nat) res" where
  "parseline 0 s i = Loop"
| "parseline (Suc n) s i =
     bindr (parsepipe n s i) (\<lambda>(cmd, i).
     let (cmd, i) = back_loop s cmd i; (b, i) = peek s '';'' i in
     if b then bindr (parseline n s (next_pos s i)) (\<lambda>(r, i). Ok (LIST cmd r, i)) else Ok (cmd, i))"
| "parsepipe 0 s i = Loop"
| "parsepipe (Suc n) s i =
     bindr (parseexec n s i) (\<lambda>(cmd, i).
     let (b, i) = peek s ''|'' i in
     if b then bindr (parsepipe n s (next_pos s i)) (\<lambda>(r, i). Ok (PIPE cmd r, i)) else Ok (cmd, i))"
| "parseblock 0 s i = Loop"
| "parseblock (Suc n) s i =
     (let (b, i) = peek s ''('' i in
      if \<not> b then Panic ''parseblock''
      else
        bindr (parseline n s (next_pos s i)) (\<lambda>(cmd, i).
        let (b, i) = peek s '')'' i in
        if \<not> b then Panic ''syntax - missing )'' else parseredirs s cmd (next_pos s i)))"
| "parseexec 0 s i = Loop"
| "parseexec (Suc n) s i =
     (let (b, i) = peek s ''('' i in
      if b then parseblock n s i
      else bindr (parseredirs s (EXEC []) i) (\<lambda>(ret, i). parseargs s 0 ret i))"

section \<open>The whole line\<close>

fun nulterminate :: "cmd \<Rightarrow> string \<Rightarrow> string" where
  "nulterminate (EXEC ws) buf = fold (\<lambda>(q, e) buf. buf[e := NUL]) ws buf"
| "nulterminate (REDIR c q e mode fd) buf = (nulterminate c buf)[e := NUL]"
| "nulterminate (PIPE l r) buf = nulterminate r (nulterminate l buf)"
| "nulterminate (LIST l r) buf = nulterminate r (nulterminate l buf)"
| "nulterminate (BACK c) buf = nulterminate c buf"

text \<open>The command and the buffer, whose last character is the terminator of the line.\<close>

definition parsecmd :: "string \<Rightarrow> (cmd \<times> string) res" where
  "parsecmd s =
     bindr (parseline (4 * length s + 4) s 0) (\<lambda>(cmd, i).
     let (b, i) = peek s [] i in
     if i \<noteq> length s then Panic ''syntax'' else Ok (cmd, nulterminate cmd (s @ [NUL])))"

section \<open>Words\<close>

text \<open>A word is not empty, has no special character, and ends where the line ends or at a special character.\<close>

definition word_ok :: "string \<Rightarrow> nat \<times> nat \<Rightarrow> bool" where
  "word_ok s w \<longleftrightarrow> (case w of (q, e) \<Rightarrow> q < e \<and> e \<le> length s \<and> (\<forall>k. q \<le> k \<and> k < e \<longrightarrow> word_char (s ! k)) \<and>
     (e < length s \<longrightarrow> \<not> word_char (s ! e)))"

fun cmd_words :: "cmd \<Rightarrow> (nat \<times> nat) set" where
  "cmd_words (EXEC ws) = set ws"
| "cmd_words (REDIR c q e mode fd) = insert (q, e) (cmd_words c)"
| "cmd_words (PIPE l r) = cmd_words l \<union> cmd_words r"
| "cmd_words (LIST l r) = cmd_words l \<union> cmd_words r"
| "cmd_words (BACK c) = cmd_words c"

text \<open>Every argument list leaves room for the null pointer that ends it.\<close>

fun args_fit :: "cmd \<Rightarrow> bool" where
  "args_fit (EXEC ws) \<longleftrightarrow> length ws < MAXARGS"
| "args_fit (REDIR c q e mode fd) \<longleftrightarrow> args_fit c"
| "args_fit (PIPE l r) \<longleftrightarrow> args_fit l \<and> args_fit r"
| "args_fit (LIST l r) \<longleftrightarrow> args_fit l \<and> args_fit r"
| "args_fit (BACK c) \<longleftrightarrow> args_fit c"

definition cmd_ok :: "string \<Rightarrow> cmd \<Rightarrow> bool" where
  "cmd_ok s c \<longleftrightarrow> args_fit c \<and> (\<forall>w \<in> cmd_words c. word_ok s w)"

lemma cmd_ok_simps [simp]:
  "cmd_ok s (EXEC ws) \<longleftrightarrow> length ws < MAXARGS \<and> (\<forall>w \<in> set ws. word_ok s w)"
  "cmd_ok s (REDIR c q e mode fd) \<longleftrightarrow> cmd_ok s c \<and> word_ok s (q, e)"
  "cmd_ok s (PIPE l r) \<longleftrightarrow> cmd_ok s l \<and> cmd_ok s r" "cmd_ok s (LIST l r) \<longleftrightarrow> cmd_ok s l \<and> cmd_ok s r"
  "cmd_ok s (BACK c) \<longleftrightarrow> cmd_ok s c"
  by (auto simp: cmd_ok_def)

text \<open>The arguments of the command inside the redirections, if there is one.\<close>

fun exec_args :: "cmd \<Rightarrow> (nat \<times> nat) list option" where
  "exec_args (EXEC ws) = Some ws"
| "exec_args (REDIR c q e mode fd) = exec_args c"
| "exec_args _ = None"

lemma add_arg_spec:
  "exec_args c = Some ws \<Longrightarrow> exec_args (add_arg w c) = Some (ws @ [w])"
  "exec_args c = Some ws \<Longrightarrow> length ws + 1 < MAXARGS \<Longrightarrow> word_ok s w \<Longrightarrow> cmd_ok s c \<Longrightarrow> cmd_ok s (add_arg w c)"
  by (induction c) auto

lemma gettoken_word:
  assumes "gettoken s i = (CHR ''a'', q, e, j)"
  shows "word_ok s (q, e)"
proof -
  have q: "q = skip_while is_white s i" "tok_end s q = (CHR ''a'', e)"
    using assms by (auto simp: gettoken_def Let_def split: prod.splits)
  then have e: "e = skip_while word_char s q" and n: "char_at s q \<noteq> NUL" by (auto simp: tok_end_def Let_def split: if_splits)
  then have l: "q < length s" by (auto simp: char_at_def split: if_splits)
  then have "\<not> is_white (s ! q)" using skip_while_end [of is_white s i] q(1) by simp
  from tok_end_pos [OF n this q(2)] have "q < e" by simp
  moreover have "e \<le> length s" using skip_while_le [of q s word_char] l e by simp
  ultimately show ?thesis using skip_while_in [of q _ word_char s] skip_while_end [of word_char s q] e by (auto simp: word_ok_def)
qed

section \<open>Parsing ends, and yields well-formed commands\<close>

definition good :: "string \<Rightarrow> nat \<Rightarrow> (cmd \<Rightarrow> bool) \<Rightarrow> (cmd \<times> nat) res \<Rightarrow> bool" where
  "good s i P r \<longleftrightarrow> (case r of Ok (c, j) \<Rightarrow> i \<le> j \<and> cmd_ok s c \<and> P c | Panic m \<Rightarrow> True | _ \<Rightarrow> False)"

abbreviation (input) any :: "cmd \<Rightarrow> bool" where "any \<equiv> \<lambda>_. True"

lemma good_simps [simp]:
  "good s i P (Ok (c, j)) \<longleftrightarrow> i \<le> j \<and> cmd_ok s c \<and> P c" "good s i P (Panic m)" "\<not> good s i P Loop" "\<not> good s i P Block"
  by (simp_all add: good_def)

lemma good_le: "good s j P r \<Longrightarrow> i \<le> j \<Longrightarrow> good s i P r"
  by (auto simp: good_def split: res.splits)

lemma good_bind:
  assumes "good s i P m" "\<And>c j. i \<le> j \<Longrightarrow> cmd_ok s c \<Longrightarrow> P c \<Longrightarrow> good s i Q (f (c, j))"
  shows "good s i Q (bindr m f)"
  using assms by (cases m) (auto simp: good_def)

lemma parseredirs_good:
  "cmd_ok s cmd \<Longrightarrow> good s i (\<lambda>c. exec_args c = exec_args cmd) (parseredirs s cmd i)"
proof (induction "length s - i" arbitrary: cmd i rule: less_induct)
  case less
  obtain b j where p: "peek s ''<>'' i = (b, j)" by (cases "peek s ''<>'' i")
  obtain t q e k where g: "gettoken s (next_pos s j) = (t, q, e, k)" by (cases "gettoken s (next_pos s j)")
  have ij: "i \<le> j" using peek_ge [OF p] .
  show ?case
  proof (cases "b \<and> t = CHR ''a''")
    case False
    then show ?thesis using p g ij less(2) by (cases b) (simp_all add: parseredirs.simps [of s cmd i] Let_def)
  next
    case True
    define c where "c = (if fst (gettoken s j) = CHR ''<'' then REDIR cmd q e 0 0 else if fst (gettoken s j) = CHR ''>'' then REDIR cmd q e 0x601 1
       else if fst (gettoken s j) = CHR ''+'' then REDIR cmd q e 0x201 1 else cmd)"
    have k: "i < k" "i < length s" using ij peek_gettoken [of s "''<>''" i j] gettoken_ge [OF g] p True by simp_all
    have c: "cmd_ok s c" "exec_args c = exec_args cmd" using less(2) gettoken_word [of s _ q e k] g True by (simp_all add: c_def)
    have "parseredirs s cmd i = parseredirs s c k" using p g True by (simp add: parseredirs.simps [of s cmd i] Let_def c_def)
    then show ?thesis using less(1) [of k c] k c good_le [of s k _ _ i] by (simp add: diff_less_mono2)
  qed
qed

lemma back_loop_good: "cmd_ok s cmd \<Longrightarrow> back_loop s cmd i = (c, j) \<Longrightarrow> i \<le> j \<and> cmd_ok s c"
proof (induction "length s - i" arbitrary: cmd i rule: less_induct)
  case less
  obtain b k where p: "peek s ''&'' i = (b, k)" by (cases "peek s ''&'' i")
  note ik = peek_ge [OF p]
  show ?case
  proof (cases b)
    case True
    then have "k < next_pos s k" "k < length s" using peek_gettoken [of s "''&''" i k] p by simp_all
    moreover have "back_loop s (BACK cmd) (next_pos s k) = (c, j)" using less(3) p True by (simp add: back_loop.simps [of s cmd i])
    ultimately show ?thesis using less(1) [of "next_pos s k" "BACK cmd"] less(2) ik by (simp add: diff_less_mono2)
  next
    case False
    then show ?thesis using less(2,3) p ik by (simp add: back_loop.simps [of s cmd i])
  qed
qed

lemma parseargs_good:
  "cmd_ok s ret \<Longrightarrow> exec_args ret = Some ws \<Longrightarrow> length ws = argc \<Longrightarrow> argc < MAXARGS \<Longrightarrow> good s i any (parseargs s argc ret i)"
proof (induction "MAXARGS - argc" arbitrary: argc ret ws i rule: less_induct)
  case less
  obtain b j where p: "peek s ''|)&;'' i = (b, j)" by (cases "peek s ''|)&;'' i")
  obtain t q e k where g: "gettoken s j = (t, q, e, k)" by (cases "gettoken s j")
  have ij: "i \<le> j" "j \<le> k" using peek_ge [OF p] gettoken_ge [OF g] by simp_all
  let ?r = "add_arg (q, e) ret"
  have step: "parseargs s argc ret i = (if b then Ok (ret, j) else if t = NUL then Ok (ret, k) else if t \<noteq> CHR ''a'' then Panic ''syntax''
      else if argc + 1 \<ge> MAXARGS then Panic ''too many args''
      else bindr (parseredirs s ?r k) (\<lambda>(ret, i). parseargs s (argc + 1) ret i))"
    using p g by (cases b) (simp_all add: parseargs.simps [of s argc ret i] Let_def)
  show ?case
  proof (cases "\<not> b \<and> t = CHR ''a'' \<and> argc + 1 < MAXARGS")
    case True
    then have w: "word_ok s (q, e)" using gettoken_word g by simp
    have r: "cmd_ok s ?r" "exec_args ?r = Some (ws @ [(q, e)])" using add_arg_spec [OF less(3)] less(2,4) w True by auto
    have "good s k any (bindr (parseredirs s ?r k) (\<lambda>(ret, i). parseargs s (argc + 1) ret i))"
    proof (rule good_bind [OF parseredirs_good [OF r(1)]])
      fix c l assume c: "k \<le> l" "cmd_ok s c" "exec_args c = exec_args ?r"
      have "good s l any (parseargs s (argc + 1) c l)"
        by (rule less(1) [of _ _ "ws @ [(q, e)]"]) (use c r True less(4) in auto)
      then show "good s k any (case (c, l) of (ret, i) \<Rightarrow> parseargs s (argc + 1) ret i)" using good_le c(1) by simp
    qed
    then show ?thesis using step True good_le ij by simp
  next
    case False
    then show ?thesis using step less(2) ij by auto
  qed
qed

lemma after_peek:
  assumes "peek s toks j = (True, l)" "i \<le> j" "\<And>k. i < k \<Longrightarrow> i < length s \<Longrightarrow> good s k any (f k)"
  shows "good s i any (f (next_pos s l))"
  using peek_gettoken [OF assms(1)] peek_ge [OF assms(1)] assms(2) good_le [OF assms(3) [of "next_pos s l"], of i] by simp

lemma parseline_good:
  assumes pipe: "good s i any (parsepipe n s i)" and rest: "\<And>k. i < k \<Longrightarrow> i < length s \<Longrightarrow> good s k any (parseline n s k)"
  shows "good s i any (parseline (Suc n) s i)"
  unfolding parseline.simps
proof (rule good_bind [OF pipe])
  fix c j assume c: "i \<le> j" "cmd_ok s c"
  obtain c' k where k: "back_loop s c j = (c', k)" by (cases "back_loop s c j")
  obtain b l where l: "peek s '';'' k = (b, l)" by (cases "peek s '';'' k")
  have kl: "j \<le> k" "cmd_ok s c'" "k \<le> l" using back_loop_good [OF c(2) k] peek_ge [OF l] by simp_all
  have "good s i any (bindr (parseline n s (next_pos s l)) (\<lambda>(r, i). Ok (LIST c' r, i)))" if b
    by (rule good_bind, rule after_peek [of s "'';''" k]) (use l that c kl rest in simp_all)
  then show "good s i any (case (c, j) of (cmd, i) \<Rightarrow>
     let (cmd, i) = back_loop s cmd i; (b, i) = peek s '';'' i in
     if b then bindr (parseline n s (next_pos s i)) (\<lambda>(r, i). Ok (LIST cmd r, i)) else Ok (cmd, i))"
    using k l c kl by simp
qed

lemma parsepipe_good:
  assumes ex: "good s i any (parseexec n s i)" and rest: "\<And>k. i < k \<Longrightarrow> i < length s \<Longrightarrow> good s k any (parsepipe n s k)"
  shows "good s i any (parsepipe (Suc n) s i)"
  unfolding parsepipe.simps
proof (rule good_bind [OF ex])
  fix c j assume c: "i \<le> j" "cmd_ok s c"
  obtain b l where l: "peek s ''|'' j = (b, l)" by (cases "peek s ''|'' j")
  have "good s i any (bindr (parsepipe n s (next_pos s l)) (\<lambda>(r, i). Ok (PIPE c r, i)))" if b
    by (rule good_bind, rule after_peek [of s "''|''" j]) (use l that c rest in simp_all)
  then show "good s i any (case (c, j) of (cmd, i) \<Rightarrow>
     let (b, i) = peek s ''|'' i in
     if b then bindr (parsepipe n s (next_pos s i)) (\<lambda>(r, i). Ok (PIPE cmd r, i)) else Ok (cmd, i))"
    using l c peek_ge [OF l] by simp
qed

lemma parseblock_good:
  assumes rest: "\<And>k. i < k \<Longrightarrow> i < length s \<Longrightarrow> good s k any (parseline n s k)"
  shows "good s i any (parseblock (Suc n) s i)"
proof -
  obtain b l where l: "peek s ''('' i = (b, l)" by (cases "peek s ''('' i")
  have "good s i any (bindr (parseline n s (next_pos s l)) (\<lambda>(cmd, i).
        let (b, i) = peek s '')'' i in
        if \<not> b then Panic ''syntax - missing )'' else parseredirs s cmd (next_pos s i)))" if b
  proof (rule good_bind, rule after_peek [of s "''(''" i])
    fix c j assume c: "i \<le> j" "cmd_ok s c"
    obtain b' m where m: "peek s '')'' j = (b', m)" by (cases "peek s '')'' j")
    have "good s i any (parseredirs s c (next_pos s m))" if b'
      using peek_gettoken [of s "'')''" j m] m that c peek_ge [OF m] parseredirs_good [OF c(2), of "next_pos s m"] good_le
      by (force simp: good_def split: res.splits)
    then show "good s i any (case (c, j) of (cmd, i) \<Rightarrow>
        let (b, i) = peek s '')'' i in
        if \<not> b then Panic ''syntax - missing )'' else parseredirs s cmd (next_pos s i))" using m by simp
  qed (use l that rest in simp_all)
  then show ?thesis using l by simp
qed

lemma parseexec_good:
  assumes block: "\<And>k. i \<le> k \<Longrightarrow> good s k any (parseblock n s k)"
  shows "good s i any (parseexec (Suc n) s i)"
proof -
  obtain b l where l: "peek s ''('' i = (b, l)" by (cases "peek s ''('' i")
  have "good s l any (bindr (parseredirs s (EXEC []) l) (\<lambda>(ret, i). parseargs s 0 ret i))"
  proof (rule good_bind, rule parseredirs_good)
    fix c j assume c: "l \<le> j" "cmd_ok s c" "exec_args c = exec_args (EXEC [])"
    then have "good s j any (parseargs s 0 c j)" using parseargs_good [of s c "[]"] by simp
    then show "good s l any (case (c, j) of (ret, i) \<Rightarrow> parseargs s 0 ret i)" using c good_le by simp
  qed simp
  then show ?thesis using l block [of l] peek_ge [OF l] good_le by simp
qed

text \<open>Fuel: four calls deep for each character that is left.\<close>

lemma parse_good:
  "(4 * (length s - i) + 4 \<le> n \<longrightarrow> good s i any (parseline n s i)) \<and>
   (4 * (length s - i) + 3 \<le> n \<longrightarrow> good s i any (parsepipe n s i)) \<and>
   (4 * (length s - i) + 1 \<le> n \<longrightarrow> good s i any (parseblock n s i)) \<and>
   (4 * (length s - i) + 2 \<le> n \<longrightarrow> good s i any (parseexec n s i))"
proof (induction n arbitrary: i)
  case (Suc n)
  note line = Suc.IH [THEN conjunct1, rule_format] and pipe = Suc.IH [THEN conjunct2, THEN conjunct1, rule_format]
    and block = Suc.IH [THEN conjunct2, THEN conjunct2, THEN conjunct1, rule_format]
    and ex = Suc.IH [THEN conjunct2, THEN conjunct2, THEN conjunct2, rule_format]
  show ?case
  proof (intro conjI impI)
    assume n: "4 * (length s - i) + 4 \<le> Suc n"
    show "good s i any (parseline (Suc n) s i)" by (rule parseline_good; rule pipe line) (use n in linarith)+
  next
    assume n: "4 * (length s - i) + 3 \<le> Suc n"
    show "good s i any (parsepipe (Suc n) s i)" by (rule parsepipe_good; rule ex pipe) (use n in linarith)+
  next
    assume n: "4 * (length s - i) + 1 \<le> Suc n"
    show "good s i any (parseblock (Suc n) s i)" by (rule parseblock_good; rule line) (use n in linarith)
  next
    assume n: "4 * (length s - i) + 2 \<le> Suc n"
    show "good s i any (parseexec (Suc n) s i)" by (rule parseexec_good; rule block) (use n in linarith)
  qed
qed simp

lemma parsecmd_good:
  obtains (Ok) cmd where "parsecmd s = Ok (cmd, nulterminate cmd (s @ [NUL]))" "cmd_ok s cmd" | (Panic) m where "parsecmd s = Panic m"
proof -
  have "good s 0 any (parseline (4 * length s + 4) s 0)" using parse_good [of s 0] by simp
  then consider c i where "parseline (4 * length s + 4) s 0 = Ok (c, i)" "cmd_ok s c" | m where "parseline (4 * length s + 4) s 0 = Panic m"
    by (cases "parseline (4 * length s + 4) s 0") auto
  then show thesis
  proof cases
    case (1 c i)
    then show thesis using Ok [of c] Panic by (cases "snd (peek s [] i) = length s") (simp_all add: parsecmd_def split_beta)
  qed (simp add: parsecmd_def Panic)
qed

section \<open>Terminating the words in place\<close>

definition c_str :: "string \<Rightarrow> nat \<Rightarrow> string" where
  "c_str buf q = takeWhile (\<lambda>c. c \<noteq> NUL) (drop q buf)"

lemma nulterminate_nth:
  "length (nulterminate c buf) = length buf \<and>
   (\<forall>k < length buf. nulterminate c buf ! k = (if k \<in> snd ` cmd_words c then NUL else buf ! k))"
proof (induction c arbitrary: buf)
  case (EXEC ws)
  have "length (fold (\<lambda>(q, e) buf. buf[e := NUL]) ws buf) = length buf \<and>
    (\<forall>k < length buf. fold (\<lambda>(q, e) buf. buf[e := NUL]) ws buf ! k = (if k \<in> snd ` set ws then NUL else buf ! k))"
  proof (induction ws arbitrary: buf)
    case (Cons w ws)
    obtain q e where w: "w = (q, e)" by (cases w)
    show ?case using Cons [of "buf[e := NUL]"] by (simp add: w nth_list_update)
  qed simp
  then show ?case by simp
next
  case (REDIR c q e mode fd)
  have l: "length (nulterminate c buf) = length buf" using REDIR [of buf] by simp
  have n: "nulterminate c buf ! k = (if k \<in> snd ` cmd_words c then NUL else buf ! k)" if "k < length buf" for k
    using REDIR [of buf] that by simp
  have "(nulterminate c buf)[e := NUL] ! k = (if k \<in> insert e (snd ` cmd_words c) then NUL else buf ! k)" if "k < length buf" for k
    using l n [OF that] that by (cases "k = e") simp_all
  then show ?case using l by simp
qed (simp_all add: image_Un)

lemma nulterminate_word:
  assumes ok: "cmd_ok s c" and w: "(q, e) \<in> cmd_words c" and n: "NUL \<notin> set s"
  shows "c_str (nulterminate c (s @ [NUL])) q = take (e - q) (drop q s)"
proof -
  let ?B = "nulterminate c (s @ [NUL])"
  have len: "length ?B = length s + 1" using nulterminate_nth [of c "s @ [NUL]"] by simp
  have nth: "?B ! k = (if k \<in> snd ` cmd_words c then NUL else (s @ [NUL]) ! k)" if "k \<le> length s" for k
    using nulterminate_nth [of c "s @ [NUL]"] that by simp
  have wo: "word_ok s w" if "w \<in> cmd_words c" for w using ok that by (simp add: cmd_ok_def)
  have qe: "q < e" "e \<le> length s" using wo [OF w] by (simp_all add: word_ok_def)
  have inside: "k \<notin> snd ` cmd_words c" if "q \<le> k" "k < e" for k
  proof
    assume "k \<in> snd ` cmd_words c"
    then obtain q' where "(q', k) \<in> cmd_words c" by force
    from wo [OF this] have "word_ok s (q', k)" .
    then show False using wo [OF w] that qe by (auto simp: word_ok_def)
  qed
  have B: "?B ! k = s ! k" if "q \<le> k" "k < e" for k using nth [of k] inside [OF that] that qe by (simp add: nth_append)
  have "takeWhile (\<lambda>c. c \<noteq> NUL) (drop q ?B) = take (e - q) (drop q ?B)"
  proof (rule takeWhile_eq_take_P_nth)
    show "drop q ?B ! i \<noteq> NUL" if "i < e - q" for i
    proof -
      have "s ! (q + i) \<in> set s" using that qe by simp
      then have "s ! (q + i) \<noteq> NUL" using n by metis
      then show ?thesis using B [of "q + i"] that len qe by simp
    qed
    have "e \<in> snd ` cmd_words c" using w by force
    then show "\<not> drop q ?B ! (e - q) \<noteq> NUL" using nth [OF qe(2)] qe len by simp
  qed
  also have "\<dots> = take (e - q) (drop q s)" by (rule nth_equalityI) (use B qe len in auto)
  finally show ?thesis by (simp add: c_str_def)
qed

end
