(* ===== verification/Spinlock.thy ===== *)
theory Spinlock
  imports Xv6_Prelude
begin

text \<open>
  The spin locks of \<^verbatim>\<open>kernel/spinlock.c\<close> on several CPUs. Every access to a lock's fields and the atomic swap
  are steps of their own, and the steps of the CPUs interleave in any order. The other components use locks
  through the list of the locks the running thread holds; mutual exclusion is what allows that view.
\<close>

section \<open>Locks and CPUs\<close>

record spinlock =
  lk_locked :: u32
  lk_cpu :: "nat option"

record cpu =
  noff :: int
  intena :: bool
  sie :: bool

text \<open>Where a CPU is: running other code, inside \<open>acquire\<close> or \<open>release\<close> of a lock, or stopped by a panic.\<close>

datatype cpu_pc =
    Run
  | Acq_holding nat
  | Acq_swap nat
  | Acq_cpu nat
  | Rel_holding nat
  | Rel_cpu nat
  | Rel_unlock nat
  | Rel_pop
  | Panicked string

record spin_st =
  lks :: "nat \<Rightarrow> spinlock"
  cpus :: "nat \<Rightarrow> cpu"
  pcs :: "nat \<Rightarrow> cpu_pc"

definition initlock :: "nat \<Rightarrow> spin_st \<Rightarrow> spin_st" where
  "initlock l st = st\<lparr>lks := (lks st)(l := \<lparr>lk_locked = 0, lk_cpu = None\<rparr>)\<rparr>"

definition holding :: "spinlock \<Rightarrow> nat \<Rightarrow> bool" where
  "holding lk c \<longleftrightarrow> lk_locked lk \<noteq> 0 \<and> lk_cpu lk = Some c"

definition push_off :: "cpu \<Rightarrow> cpu" where
  "push_off c =
     (let old = sie c; c = c\<lparr>sie := False\<rparr>;
          c = (if noff c = 0 then c\<lparr>intena := old\<rparr> else c) in
      c\<lparr>noff := noff c + 1\<rparr>)"

definition pop_off :: "cpu \<Rightarrow> cpu res" where
  "pop_off c =
     (if sie c then Panic ''pop_off - interruptible''
      else if noff c < 1 then Panic ''pop_off''
      else
        let c = c\<lparr>noff := noff c - 1\<rparr> in
        Ok (if noff c = 0 \<and> intena c then c\<lparr>sie := True\<rparr> else c))"

section \<open>Steps\<close>

definition goto :: "nat \<Rightarrow> cpu_pc \<Rightarrow> spin_st \<Rightarrow> spin_st" where
  "goto c pc st = st\<lparr>pcs := (pcs st)(c := pc)\<rparr>"

definition upd_lk :: "nat \<Rightarrow> (spinlock \<Rightarrow> spinlock) \<Rightarrow> spin_st \<Rightarrow> spin_st" where
  "upd_lk l f st = st\<lparr>lks := (lks st)(l := f (lks st l))\<rparr>"

text \<open>A call of \<open>acquire\<close>, and what the CPU does next inside it. The swap returns the old value and stores 1.\<close>

definition acquire_call :: "nat \<Rightarrow> nat \<Rightarrow> spin_st \<Rightarrow> spin_st" where
  "acquire_call c l st = goto c (Acq_holding l) (st\<lparr>cpus := (cpus st)(c := push_off (cpus st c))\<rparr>)"

fun acquire_step :: "nat \<Rightarrow> cpu_pc \<Rightarrow> spin_st \<Rightarrow> spin_st" where
  "acquire_step c (Acq_holding l) st =
     (if holding (lks st l) c then goto c (Panicked ''acquire'') st else goto c (Acq_swap l) st)"
| "acquire_step c (Acq_swap l) st =
     (let old = lk_locked (lks st l); st = upd_lk l (lk_locked_update (\<lambda>_. 1)) st in
      if old \<noteq> 0 then st else goto c (Acq_cpu l) st)"
| "acquire_step c (Acq_cpu l) st = goto c Run (upd_lk l (lk_cpu_update (\<lambda>_. Some c)) st)"
| "acquire_step c _ st = st"

fun release_step :: "nat \<Rightarrow> cpu_pc \<Rightarrow> spin_st \<Rightarrow> spin_st" where
  "release_step c (Rel_holding l) st =
     (if \<not> holding (lks st l) c then goto c (Panicked ''release'') st else goto c (Rel_cpu l) st)"
| "release_step c (Rel_cpu l) st = goto c (Rel_unlock l) (upd_lk l (lk_cpu_update (\<lambda>_. None)) st)"
| "release_step c (Rel_unlock l) st = goto c Rel_pop (upd_lk l (lk_locked_update (\<lambda>_. 0)) st)"
| "release_step c Rel_pop st =
     (case pop_off (cpus st c) of
        Ok k \<Rightarrow> goto c Run (st\<lparr>cpus := (cpus st)(c := k)\<rparr>)
      | Panic m \<Rightarrow> goto c (Panicked m) st
      | _ \<Rightarrow> st)"
| "release_step c _ st = st"

text \<open>
  One step of one CPU. Code outside the lock functions calls \<open>acquire\<close> and \<open>release\<close> as it likes, and turns
  interrupts on or off only while no \<open>push_off\<close> is pending.
\<close>

inductive spin_step :: "spin_st \<Rightarrow> spin_st \<Rightarrow> bool" where
  call_acquire: "pcs st c = Run \<Longrightarrow> spin_step st (acquire_call c l st)"
| in_acquire: "pcs st c = pc \<Longrightarrow> spin_step st (acquire_step c pc st)"
| call_release: "pcs st c = Run \<Longrightarrow> spin_step st (goto c (Rel_holding l) st)"
| in_release: "pcs st c = pc \<Longrightarrow> spin_step st (release_step c pc st)"
| set_intr: "pcs st c = Run \<Longrightarrow> noff (cpus st c) = 0 \<Longrightarrow>
    spin_step st (st\<lparr>cpus := (cpus st)(c := (cpus st c)\<lparr>sie := b\<rparr>)\<rparr>)"

definition spin_init :: spin_st where
  "spin_init = \<lparr>lks = \<lambda>_. \<lparr>lk_locked = 0, lk_cpu = None\<rparr>, cpus = \<lambda>_. \<lparr>noff = 0, intena = False, sie = False\<rparr>, pcs = \<lambda>_. Run\<rparr>"

abbreviation spin_reach :: "spin_st \<Rightarrow> bool" where
  "spin_reach st \<equiv> spin_step\<^sup>*\<^sup>* spin_init st"

section \<open>The invariant\<close>

text \<open>A CPU is in the critical section of a lock from its successful swap until it stores 0.\<close>

definition crit :: "spin_st \<Rightarrow> nat \<Rightarrow> nat \<Rightarrow> bool" where
  "crit st c l \<longleftrightarrow> pcs st c \<in> {Acq_cpu l, Rel_cpu l, Rel_unlock l} \<or> holding (lks st l) c"

definition pending :: "cpu_pc \<Rightarrow> int" where
  "pending pc = (case pc of Acq_holding _ \<Rightarrow> 1 | Acq_swap _ \<Rightarrow> 1 | Rel_pop \<Rightarrow> 1 | Panicked m \<Rightarrow> (if m = ''acquire'' then 1 else 0) | _ \<Rightarrow> 0)"

definition spin_inv :: "spin_st \<Rightarrow> bool" where
  "spin_inv st \<longleftrightarrow>
     (\<forall>l c d. crit st c l \<longrightarrow> crit st d l \<longrightarrow> c = d) \<and>
     (\<forall>l. lk_locked (lks st l) \<noteq> 0 \<longleftrightarrow> (\<exists>c. crit st c l)) \<and>
     (\<forall>l c. lk_cpu (lks st l) = Some c \<longrightarrow> lk_locked (lks st l) \<noteq> 0 \<and> pcs st c \<noteq> Acq_cpu l \<and> pcs st c \<noteq> Rel_unlock l) \<and>
     (\<forall>c l. pcs st c = Rel_cpu l \<longrightarrow> holding (lks st l) c) \<and>
     (\<forall>c. finite {l. crit st c l} \<and> noff (cpus st c) = int (card {l. crit st c l}) + pending (pcs st c)) \<and>
     (\<forall>c. 0 < noff (cpus st c) \<longrightarrow> \<not> sie (cpus st c)) \<and>
     (\<forall>c m. pcs st c = Panicked m \<longrightarrow> m = ''acquire'' \<or> m = ''release'')"

lemma spin_invD:
  assumes "spin_inv st"
  shows "crit st c l \<Longrightarrow> crit st d l \<Longrightarrow> c = d" "lk_locked (lks st l) \<noteq> 0 \<longleftrightarrow> (\<exists>c. crit st c l)"
    "lk_cpu (lks st l) = Some c \<Longrightarrow> lk_locked (lks st l) \<noteq> 0 \<and> pcs st c \<noteq> Acq_cpu l \<and> pcs st c \<noteq> Rel_unlock l"
    "pcs st c = Rel_cpu l \<Longrightarrow> holding (lks st l) c"
    "finite {l. crit st c l}" "noff (cpus st c) = int (card {l. crit st c l}) + pending (pcs st c)"
    "0 < noff (cpus st c) \<Longrightarrow> \<not> sie (cpus st c)" "pcs st c = Panicked m \<Longrightarrow> m = ''acquire'' \<or> m = ''release''"
  using assms unfolding spin_inv_def by (blast+)

text \<open>A step of CPU \<open>c\<close> that leaves every critical section as it is.\<close>

lemma spin_inv_same:
  assumes inv: "spin_inv st" and cr: "\<And>d l. crit st' d l = crit st d l"
    and lk: "\<And>l. lk_locked (lks st' l) \<noteq> 0 \<longleftrightarrow> lk_locked (lks st l) \<noteq> 0"
    and cp: "\<And>l d. lk_cpu (lks st' l) = Some d \<Longrightarrow> lk_locked (lks st l) \<noteq> 0 \<and> pcs st' d \<noteq> Acq_cpu l \<and> pcs st' d \<noteq> Rel_unlock l"
    and rel: "\<And>d l. pcs st' d = Rel_cpu l \<Longrightarrow> holding (lks st' l) d"
    and off: "\<And>d. d \<noteq> c \<Longrightarrow> pcs st' d = pcs st d \<and> cpus st' d = cpus st d"
    and c: "noff (cpus st' c) - pending (pcs st' c) = noff (cpus st c) - pending (pcs st c)"
      "0 < noff (cpus st' c) \<Longrightarrow> \<not> sie (cpus st' c)" "\<And>m. pcs st' c = Panicked m \<Longrightarrow> m = ''acquire'' \<or> m = ''release''"
  shows "spin_inv st'"
  unfolding spin_inv_def cr lk
proof (intro conjI allI impI)
  note I = spin_invD [OF inv]
  fix d l
  show "noff (cpus st' d) = int (card {l. crit st d l}) + pending (pcs st' d)"
    using I(6) [of d] off c(1) by (cases "d = c") auto
  show "\<not> sie (cpus st' d)" if "0 < noff (cpus st' d)" using that I(7) [of d] off c(2) by (cases "d = c") auto
  show "m = ''acquire'' \<or> m = ''release''" if "pcs st' d = Panicked m" for m
    using that I(8) [of d] off c(3) by (cases "d = c") auto
  show "holding (lks st' l) d" if "pcs st' d = Rel_cpu l" using rel [OF that] .
qed (use spin_invD [OF inv] cp in auto)

lemma card_crit_insert:
  assumes "finite {l. crit st c l}" "\<And>k. crit st' c k \<longleftrightarrow> k = l \<or> crit st c k" "\<not> crit st c l"
  shows "finite {l. crit st' c l}" "card {l. crit st' c l} = card {l. crit st c l} + 1"
proof -
  have "{k. crit st' c k} = insert l {k. crit st c k}" using assms(2) by auto
  then show "finite {l. crit st' c l}" "card {l. crit st' c l} = card {l. crit st c l} + 1" using assms by auto
qed

text \<open>Steps that touch no lock, between program counters outside the critical parts.\<close>

definition plain :: "cpu_pc \<Rightarrow> bool" where
  "plain pc \<longleftrightarrow> (\<forall>l. pc \<noteq> Acq_cpu l \<and> pc \<noteq> Rel_cpu l \<and> pc \<noteq> Rel_unlock l)"

lemma spin_inv_goto:
  assumes inv: "spin_inv st" and pc: "plain (pcs st c)"
    and pc': "plain pc' \<or> (\<exists>l. pc' = Rel_cpu l \<and> holding (lks st l) c)"
    and c: "noff k - pending pc' = noff (cpus st c) - pending (pcs st c)" "0 < noff k \<Longrightarrow> \<not> sie k"
      "\<And>m. pc' = Panicked m \<Longrightarrow> m = ''acquire'' \<or> m = ''release''"
  shows "spin_inv (goto c pc' (st\<lparr>cpus := (cpus st)(c := k)\<rparr>))" (is "spin_inv ?t")
proof (rule spin_inv_same [OF inv, where c = c])
  fix d l
  show "crit ?t d l = crit st d l"
    using pc pc' by (cases "d = c") (auto simp: crit_def goto_def plain_def)
  show "lk_locked (lks st l) \<noteq> 0 \<and> pcs ?t d \<noteq> Acq_cpu l \<and> pcs ?t d \<noteq> Rel_unlock l" if "lk_cpu (lks ?t l) = Some d"
    using that spin_invD(3) [OF inv, of l d] pc' by (cases "d = c") (auto simp: goto_def plain_def)
  show "holding (lks ?t l) d" if "pcs ?t d = Rel_cpu l"
    using that spin_invD(4) [OF inv, of d l] pc' by (cases "d = c") (auto simp: goto_def plain_def)
qed (use c in \<open>simp_all add: goto_def\<close>)

lemma spin_inv_goto':
  assumes "spin_inv st" "plain (pcs st c)" "plain pc' \<or> (\<exists>l. pc' = Rel_cpu l \<and> holding (lks st l) c)"
    "pending pc' = pending (pcs st c)" "\<And>m. pc' = Panicked m \<Longrightarrow> m = ''acquire'' \<or> m = ''release''"
  shows "spin_inv (goto c pc' st)"
  using spin_inv_goto [OF assms(1-3), of "cpus st c"] assms(4,5) spin_invD(7) [OF assms(1), of c] by simp

lemma noff_nonneg: "spin_inv st \<Longrightarrow> 0 \<le> noff (cpus st c) - pending (pcs st c)"
  using spin_invD(6) [of st c] by simp

lemma acquire_call_inv: "spin_inv st \<Longrightarrow> pcs st c = Run \<Longrightarrow> spin_inv (acquire_call c l st)"
  unfolding acquire_call_def
  by (rule spin_inv_goto) (auto simp: plain_def pending_def push_off_def Let_def)

lemma set_intr_inv:
  assumes "spin_inv st" "pcs st c = Run" "noff (cpus st c) = 0"
  shows "spin_inv (st\<lparr>cpus := (cpus st)(c := (cpus st c)\<lparr>sie := b\<rparr>)\<rparr>)"
proof -
  have "spin_inv (goto c Run (st\<lparr>cpus := (cpus st)(c := (cpus st c)\<lparr>sie := b\<rparr>)\<rparr>))"
    by (rule spin_inv_goto) (use assms in \<open>simp_all add: plain_def\<close>)
  then show ?thesis using assms(2) by (simp add: goto_def fun_upd_idem)
qed

lemma acquire_swap_inv:
  assumes inv: "spin_inv st" and pc: "pcs st c = Acq_swap l" and lk: "lk_locked (lks st l) = 0"
    and t: "t = goto c (Acq_cpu l) (upd_lk l (lk_locked_update (\<lambda>_. 1)) st)"
  shows "spin_inv t"
proof -
  note I = spin_invD [OF inv]
  have nc: "\<not> crit st d l" for d using I(2) [of l] lk by blast
  have no: "lk_cpu (lks st l) = None" using I(3) [of l] lk by (cases "lk_cpu (lks st l)") auto
  have cr: "crit t d k \<longleftrightarrow> d = c \<and> k = l \<or> crit st d k" for d k
    using lk no pc by (auto simp: t crit_def holding_def goto_def upd_lk_def)
  have crd: "{k. crit t d k} = {k. crit st d k}" if "d \<noteq> c" for d using that cr by auto
  note cd = card_crit_insert [OF I(5) [of c], of t l]
  show ?thesis unfolding spin_inv_def
  proof (intro conjI allI impI)
    fix d e k
    show "finite {k. crit t d k}" using cd(1) cr nc I(5) [of d] crd by (cases "d = c") auto
    show "noff (cpus t d) = int (card {k. crit t d k}) + pending (pcs t d)"
    proof (cases "d = c")
      case True
      then show ?thesis using cd(2) cr nc I(6) [of c] pc by (simp add: t goto_def upd_lk_def pending_def)
    next
      case False
      then show ?thesis using I(6) [of d] crd by (simp add: t goto_def upd_lk_def)
    qed
    show "lk_locked (lks t k) \<noteq> 0 \<longleftrightarrow> (\<exists>d. crit t d k)"
      unfolding cr using I(2) [of k] by (cases "k = l") (auto simp: t goto_def upd_lk_def)
    show "d = e" if "crit t d k" "crit t e k" using that I(1) nc unfolding cr by blast
    show "lk_locked (lks t k) \<noteq> 0" "pcs t d \<noteq> Acq_cpu k" "pcs t d \<noteq> Rel_unlock k" if "lk_cpu (lks t k) = Some d"
      using that I(3) [of k d] no by (auto simp: t goto_def upd_lk_def split: if_splits)
    show "holding (lks t k) d" if "pcs t d = Rel_cpu k"
      using that I(4) [of d k] lk by (auto simp: t goto_def upd_lk_def holding_def split: if_splits)
    show "\<not> sie (cpus t d)" if "0 < noff (cpus t d)" using that I(7) [of d] by (simp add: t goto_def upd_lk_def)
    show "m = ''acquire'' \<or> m = ''release''" if "pcs t d = Panicked m" for m
      using that I(8) [of d m] by (auto simp: t goto_def upd_lk_def split: if_splits)
  qed
qed

lemma acquire_cpu_inv:
  assumes inv: "spin_inv st" and pc: "pcs st c = Acq_cpu l" and t: "t = goto c Run (upd_lk l (lk_cpu_update (\<lambda>_. Some c)) st)"
  shows "spin_inv t"
proof -
  note I = spin_invD [OF inv]
  have cl: "crit st c l" using pc by (simp add: crit_def)
  then have lk: "lk_locked (lks st l) \<noteq> 0" using I(2) by blast
  have uniq: "crit st d l \<Longrightarrow> d = c" for d using I(1) cl by blast
  show ?thesis
  proof (rule spin_inv_same [OF inv, where c = c])
    fix d k
    show "crit t d k = crit st d k"
    proof (cases "k = l \<and> d \<noteq> c")
      case True
      then have "\<not> crit st d l" using uniq by blast
      then show ?thesis using True by (simp add: t crit_def goto_def upd_lk_def holding_def)
    next
      case False
      then show ?thesis using lk pc by (cases "d = c"; cases "k = l") (simp_all add: t crit_def goto_def upd_lk_def holding_def)
    qed
    show "lk_locked (lks st k) \<noteq> 0 \<and> pcs t d \<noteq> Acq_cpu k \<and> pcs t d \<noteq> Rel_unlock k" if "lk_cpu (lks t k) = Some d"
      using that I(3) [of k d] lk by (cases "k = l") (auto simp: t goto_def upd_lk_def)
    show "holding (lks t k) d" if "pcs t d = Rel_cpu k"
    proof -
      have "pcs st d = Rel_cpu k" "d \<noteq> c" using that by (auto simp: t goto_def upd_lk_def split: if_splits)
      moreover from this have "k \<noteq> l" using uniq [of d] by (auto simp: crit_def)
      ultimately show ?thesis using I(4) [of d k] by (simp add: t goto_def upd_lk_def)
    qed
  qed (use pc I(7) [of c] in \<open>auto simp: t goto_def upd_lk_def pending_def\<close>)
qed

lemma acquire_spin_inv:
  assumes inv: "spin_inv st" and lk: "lk_locked (lks st l) \<noteq> 0" and t: "t = upd_lk l (lk_locked_update (\<lambda>_. 1)) st"
  shows "spin_inv t"
proof (rule spin_inv_same [OF inv, where c = 0])
  note I = spin_invD [OF inv]
  fix d k
  show "crit t d k = crit st d k" using lk by (auto simp: t crit_def upd_lk_def holding_def)
  show "lk_locked (lks st k) \<noteq> 0 \<and> pcs t d \<noteq> Acq_cpu k \<and> pcs t d \<noteq> Rel_unlock k" if "lk_cpu (lks t k) = Some d"
    using that I(3) [of k d] by (auto simp: t upd_lk_def split: if_splits)
  show "holding (lks t k) d" if "pcs t d = Rel_cpu k" using that I(4) [of d k] by (auto simp: t upd_lk_def holding_def)
  show "m = ''acquire'' \<or> m = ''release''" if "pcs t 0 = Panicked m" for m using that I(8) [of 0 m] by (simp add: t upd_lk_def)
qed (use lk spin_invD(7) [OF inv, of 0] in \<open>simp_all add: t upd_lk_def\<close>)

lemma acquire_step_inv:
  assumes inv: "spin_inv st" and pc: "pcs st c = pc"
  shows "spin_inv (acquire_step c pc st)"
proof (cases pc)
  case (Acq_holding l)
  have "spin_inv (goto c (Acq_swap l) st)" "spin_inv (goto c (Panicked ''acquire'') st)"
    by (rule spin_inv_goto' [OF inv]; use pc Acq_holding in \<open>simp add: plain_def pending_def\<close>)+
  then show ?thesis using Acq_holding by simp
next
  case (Acq_swap l)
  then show ?thesis
    using acquire_swap_inv [OF inv _ _ refl, of c l] acquire_spin_inv [OF inv _ refl, of l] pc by (simp add: Let_def)
next
  case (Acq_cpu l)
  then show ?thesis using acquire_cpu_inv [OF inv _ refl, of c l] pc by simp
qed (use inv in simp_all)

lemma release_cpu_inv:
  assumes inv: "spin_inv st" and pc: "pcs st c = Rel_cpu l" and t: "t = goto c (Rel_unlock l) (upd_lk l (lk_cpu_update (\<lambda>_. None)) st)"
  shows "spin_inv t"
proof -
  note I = spin_invD [OF inv]
  have cl: "crit st c l" using pc by (simp add: crit_def)
  have uniq: "crit st d l \<Longrightarrow> d = c" for d using I(1) cl by blast
  show ?thesis
  proof (rule spin_inv_same [OF inv, where c = c])
    fix d k
    show "crit t d k = crit st d k"
    proof (cases "k = l \<and> d \<noteq> c")
      case True
      then have "\<not> crit st d l" using uniq by blast
      then show ?thesis using True by (simp add: t crit_def goto_def upd_lk_def holding_def)
    next
      case False
      then show ?thesis using pc by (cases "d = c"; cases "k = l") (simp_all add: t crit_def goto_def upd_lk_def holding_def)
    qed
    show "lk_locked (lks st k) \<noteq> 0 \<and> pcs t d \<noteq> Acq_cpu k \<and> pcs t d \<noteq> Rel_unlock k" if "lk_cpu (lks t k) = Some d"
      using that I(3) [of k d] by (auto simp: t goto_def upd_lk_def split: if_splits)
    show "holding (lks t k) d" if "pcs t d = Rel_cpu k"
    proof -
      have "pcs st d = Rel_cpu k" "d \<noteq> c" using that by (auto simp: t goto_def upd_lk_def split: if_splits)
      moreover from this have "k \<noteq> l" using uniq [of d] by (auto simp: crit_def)
      ultimately show ?thesis using I(4) [of d k] by (simp add: t goto_def upd_lk_def)
    qed
  qed (use pc I(7) [of c] in \<open>auto simp: t goto_def upd_lk_def pending_def\<close>)
qed

lemma release_unlock_inv:
  assumes inv: "spin_inv st" and pc: "pcs st c = Rel_unlock l" and t: "t = goto c Rel_pop (upd_lk l (lk_locked_update (\<lambda>_. 0)) st)"
  shows "spin_inv t"
proof -
  note I = spin_invD [OF inv]
  have cl: "crit st c l" using pc by (simp add: crit_def)
  have uniq: "crit st d l \<Longrightarrow> d = c" for d using I(1) cl by blast
  have no: "lk_cpu (lks st l) = None"
  proof (cases "lk_cpu (lks st l)")
    case (Some d)
    then have "holding (lks st l) d" using I(3) by (simp add: holding_def)
    then have "d = c" using uniq by (simp add: crit_def)
    then show ?thesis using I(3) [OF Some] pc by simp
  qed
  have cr: "crit t d k \<longleftrightarrow> crit st d k \<and> k \<noteq> l" for d k
  proof (cases "k = l \<and> d \<noteq> c")
    case True
    then have "\<not> crit st d l" using uniq by blast
    then show ?thesis using True by (simp add: t crit_def goto_def upd_lk_def holding_def)
  next
    case False
    then show ?thesis using pc by (cases "d = c"; cases "k = l") (simp_all add: t crit_def goto_def upd_lk_def holding_def)
  qed
  have crd: "{k. crit t d k} = {k. crit st d k}" if "d \<noteq> c" for d using that cr uniq by auto
  have "\<And>k. crit st c k \<longleftrightarrow> k = l \<or> crit t c k" "finite {k. crit t c k}" using cr cl finite_subset [OF _ I(5) [of c], of "{k. crit t c k}"] by auto
  from card_crit_insert [OF this(2,1)] have cd: "card {k. crit st c k} = card {k. crit t c k} + 1" using cr by simp
  show ?thesis unfolding spin_inv_def
  proof (intro conjI allI impI)
    fix d e k
    show "finite {k. crit t d k}" using cr finite_subset [OF _ I(5) [of d], of "{k. crit t d k}"] by auto
    show "noff (cpus t d) = int (card {k. crit t d k}) + pending (pcs t d)"
    proof (cases "d = c")
      case True
      then show ?thesis using cd I(6) [of c] pc by (simp add: t goto_def upd_lk_def pending_def)
    next
      case False
      then show ?thesis using I(6) [of d] crd by (simp add: t goto_def upd_lk_def)
    qed
    show "lk_locked (lks t k) \<noteq> 0 \<longleftrightarrow> (\<exists>d. crit t d k)"
      unfolding cr using I(2) [of k] by (cases "k = l") (auto simp: t goto_def upd_lk_def)
    show "d = e" if "crit t d k" "crit t e k" using that I(1) unfolding cr by blast
    show "lk_locked (lks t k) \<noteq> 0" "pcs t d \<noteq> Acq_cpu k" "pcs t d \<noteq> Rel_unlock k" if "lk_cpu (lks t k) = Some d"
      using that I(3) [of k d] no by (auto simp: t goto_def upd_lk_def split: if_splits)
    show "holding (lks t k) d" if "pcs t d = Rel_cpu k"
    proof -
      have r: "pcs st d = Rel_cpu k" "d \<noteq> c" using that by (auto simp: t goto_def upd_lk_def split: if_splits)
      then have "k \<noteq> l" using uniq [of d] by (auto simp: crit_def)
      then show ?thesis using I(4) [OF r(1)] by (simp add: t goto_def upd_lk_def)
    qed
    show "\<not> sie (cpus t d)" if "0 < noff (cpus t d)" using that I(7) [of d] by (simp add: t goto_def upd_lk_def)
    show "m = ''acquire'' \<or> m = ''release''" if "pcs t d = Panicked m" for m
      using that I(8) [of d m] by (auto simp: t goto_def upd_lk_def split: if_splits)
  qed
qed

lemma pop_off_ok:
  assumes inv: "spin_inv st" and pc: "pcs st c = Rel_pop"
  shows "\<exists>k. pop_off (cpus st c) = Ok k \<and> noff k = noff (cpus st c) - 1 \<and> (0 < noff k \<longrightarrow> \<not> sie k)"
proof -
  have "1 \<le> noff (cpus st c)" using noff_nonneg [OF inv, of c] pc by (simp add: pending_def)
  then show ?thesis using spin_invD(7) [OF inv, of c] by (auto simp: pop_off_def Let_def)
qed

lemma release_step_inv:
  assumes inv: "spin_inv st" and pc: "pcs st c = pc"
  shows "spin_inv (release_step c pc st)"
proof (cases pc)
  case (Rel_holding l)
  have "spin_inv (goto c (Panicked ''release'') st)"
    by (rule spin_inv_goto' [OF inv]) (use pc Rel_holding in \<open>simp_all add: plain_def pending_def\<close>)
  moreover have "spin_inv (goto c (Rel_cpu l) st)" if "holding (lks st l) c"
    by (rule spin_inv_goto' [OF inv]) (use pc Rel_holding that in \<open>simp_all add: plain_def pending_def\<close>)
  ultimately show ?thesis using Rel_holding by simp
next
  case (Rel_cpu l)
  then show ?thesis using release_cpu_inv [OF inv _ refl, of c l] pc by simp
next
  case (Rel_unlock l)
  then show ?thesis using release_unlock_inv [OF inv _ refl, of c l] pc by simp
next
  case Rel_pop
  obtain k where k: "pop_off (cpus st c) = Ok k" "noff k = noff (cpus st c) - 1" "0 < noff k \<longrightarrow> \<not> sie k"
    using pop_off_ok [OF inv] pc Rel_pop by blast
  have "spin_inv (goto c Run (st\<lparr>cpus := (cpus st)(c := k)\<rparr>))"
    by (rule spin_inv_goto [OF inv]) (use pc Rel_pop k in \<open>simp_all add: plain_def pending_def\<close>)
  then show ?thesis using Rel_pop k(1) by simp
qed (use inv in simp_all)

lemma spin_step_inv: "spin_step st st' \<Longrightarrow> spin_inv st \<Longrightarrow> spin_inv st'"
proof (induction rule: spin_step.induct)
  case (call_release st c l)
  then show ?case by (intro spin_inv_goto') (simp_all add: plain_def pending_def)
qed (simp_all add: acquire_call_inv acquire_step_inv release_step_inv set_intr_inv)

lemma spin_init_inv: "spin_inv spin_init"
  by (simp add: spin_inv_def spin_init_def crit_def holding_def pending_def)

lemma spin_reach_inv: "spin_reach st \<Longrightarrow> spin_inv st"
  by (induction rule: rtranclp_induct) (auto intro: spin_init_inv spin_step_inv)

end
