(* ===== verification/Hart.thy ===== *)
theory Hart
  imports Riscv
begin

text \<open>
  A hart with its registers and the code below the C level: the register accessors of \<^verbatim>\<open>kernel/riscv.h\<close>, the start in machine mode
  (\<^verbatim>\<open>entry.S\<close>, \<^verbatim>\<open>start.c\<close>), the context switch (\<^verbatim>\<open>swtch.S\<close>), and the entry and exit of traps (\<^verbatim>\<open>trampoline.S\<close>, \<^verbatim>\<open>kernelvec.S\<close>). Loads and stores
  go through the translation \<open>tr\<close> of the page table that \<^verbatim>\<open>satp\<close> names; it is a parameter. A write to a control register stores the value;
  registers that are views of others (\<^verbatim>\<open>sstatus\<close>, \<^verbatim>\<open>sie\<close>, \<^verbatim>\<open>sip\<close>) are computed as the instruction set defines them.
\<close>

section \<open>State\<close>

abbreviation (input) RA :: nat where "RA \<equiv> 1"
abbreviation (input) SP :: nat where "SP \<equiv> 2"
abbreviation (input) GP :: nat where "GP \<equiv> 3"
abbreviation (input) TP :: nat where "TP \<equiv> 4"
abbreviation (input) T0 :: nat where "T0 \<equiv> 5"
abbreviation (input) T1 :: nat where "T1 \<equiv> 6"
abbreviation (input) T2 :: nat where "T2 \<equiv> 7"
abbreviation (input) S0 :: nat where "S0 \<equiv> 8"
abbreviation (input) S1 :: nat where "S1 \<equiv> 9"
abbreviation (input) A0 :: nat where "A0 \<equiv> 10"
abbreviation (input) A1 :: nat where "A1 \<equiv> 11"

datatype mode = User | Supervisor | Machine

record hart =
  xr :: "nat \<Rightarrow> u64"
  pm :: memory
  pc :: u64
  mode :: mode
  mhartid :: u64
  mstatus :: u64
  mepc :: u64
  mie :: u64
  mip :: u64
  medeleg :: u64
  mideleg :: u64
  menvcfg :: u64
  mcounteren :: u64
  mtime :: u64
  pmpcfg0 :: u64
  pmpaddr0 :: u64
  h_satp :: u64
  h_stvec :: u64
  h_sepc :: u64
  h_scause :: u64
  h_stval :: u64
  sscratch :: u64
  stimecmp :: u64

definition set_x :: "nat \<Rightarrow> u64 \<Rightarrow> hart \<Rightarrow> hart" where
  "set_x r v h = h\<lparr>xr := (xr h)(r := v)\<rparr>"

section \<open>Control registers\<close>

abbreviation (input) MSTATUS_MPP_MASK :: u64 where "MSTATUS_MPP_MASK \<equiv> push_bit 11 3"
abbreviation (input) MSTATUS_MPP_S :: u64 where "MSTATUS_MPP_S \<equiv> push_bit 11 1"
abbreviation (input) SIE_SEIE :: u64 where "SIE_SEIE \<equiv> push_bit 9 1"
abbreviation (input) SIE_STIE :: u64 where "SIE_STIE \<equiv> push_bit 5 1"
abbreviation (input) SIE_SSIE :: u64 where "SIE_SSIE \<equiv> push_bit 1 1"
abbreviation (input) MIE_STIE :: u64 where "MIE_STIE \<equiv> push_bit 5 1"

text \<open>The bits of \<^verbatim>\<open>mstatus\<close> that \<^verbatim>\<open>sstatus\<close> shows.\<close>

definition sstatus_mask :: u64 where "sstatus_mask = 0x80000003000DE762"

definition r_mhartid :: "hart \<Rightarrow> u64" where "r_mhartid h = mhartid h"
definition r_mstatus :: "hart \<Rightarrow> u64" where "r_mstatus h = mstatus h"
definition w_mstatus :: "u64 \<Rightarrow> hart \<Rightarrow> hart" where "w_mstatus x h = h\<lparr>mstatus := x\<rparr>"
definition w_mepc :: "u64 \<Rightarrow> hart \<Rightarrow> hart" where "w_mepc x h = h\<lparr>mepc := x\<rparr>"
definition r_sstatus :: "hart \<Rightarrow> u64" where "r_sstatus h = mstatus h AND sstatus_mask"
definition w_sstatus :: "u64 \<Rightarrow> hart \<Rightarrow> hart" where
  "w_sstatus x h = h\<lparr>mstatus := (mstatus h AND NOT sstatus_mask) OR (x AND sstatus_mask)\<rparr>"
definition r_sip :: "hart \<Rightarrow> u64" where "r_sip h = mip h AND mideleg h"
definition w_sip :: "u64 \<Rightarrow> hart \<Rightarrow> hart" where "w_sip x h = h\<lparr>mip := (mip h AND NOT (mideleg h)) OR (x AND mideleg h)\<rparr>"
definition r_sie :: "hart \<Rightarrow> u64" where "r_sie h = mie h AND mideleg h"
definition w_sie :: "u64 \<Rightarrow> hart \<Rightarrow> hart" where "w_sie x h = h\<lparr>mie := (mie h AND NOT (mideleg h)) OR (x AND mideleg h)\<rparr>"
definition r_mie :: "hart \<Rightarrow> u64" where "r_mie h = mie h"
definition w_mie :: "u64 \<Rightarrow> hart \<Rightarrow> hart" where "w_mie x h = h\<lparr>mie := x\<rparr>"
definition w_sepc :: "u64 \<Rightarrow> hart \<Rightarrow> hart" where "w_sepc x h = h\<lparr>h_sepc := x\<rparr>"
definition r_sepc :: "hart \<Rightarrow> u64" where "r_sepc h = h_sepc h"
definition r_medeleg :: "hart \<Rightarrow> u64" where "r_medeleg h = medeleg h"
definition w_medeleg :: "u64 \<Rightarrow> hart \<Rightarrow> hart" where "w_medeleg x h = h\<lparr>medeleg := x\<rparr>"
definition r_mideleg :: "hart \<Rightarrow> u64" where "r_mideleg h = mideleg h"
definition w_mideleg :: "u64 \<Rightarrow> hart \<Rightarrow> hart" where "w_mideleg x h = h\<lparr>mideleg := x\<rparr>"
definition w_stvec :: "u64 \<Rightarrow> hart \<Rightarrow> hart" where "w_stvec x h = h\<lparr>h_stvec := x\<rparr>"
definition r_stvec :: "hart \<Rightarrow> u64" where "r_stvec h = h_stvec h"
definition r_stimecmp :: "hart \<Rightarrow> u64" where "r_stimecmp h = stimecmp h"
definition w_stimecmp :: "u64 \<Rightarrow> hart \<Rightarrow> hart" where "w_stimecmp x h = h\<lparr>stimecmp := x\<rparr>"
definition r_menvcfg :: "hart \<Rightarrow> u64" where "r_menvcfg h = menvcfg h"
definition w_menvcfg :: "u64 \<Rightarrow> hart \<Rightarrow> hart" where "w_menvcfg x h = h\<lparr>menvcfg := x\<rparr>"
definition w_pmpcfg0 :: "u64 \<Rightarrow> hart \<Rightarrow> hart" where "w_pmpcfg0 x h = h\<lparr>pmpcfg0 := x\<rparr>"
definition w_pmpaddr0 :: "u64 \<Rightarrow> hart \<Rightarrow> hart" where "w_pmpaddr0 x h = h\<lparr>pmpaddr0 := x\<rparr>"
definition w_satp :: "u64 \<Rightarrow> hart \<Rightarrow> hart" where "w_satp x h = h\<lparr>h_satp := x\<rparr>"
definition r_satp :: "hart \<Rightarrow> u64" where "r_satp h = h_satp h"
definition r_scause :: "hart \<Rightarrow> u64" where "r_scause h = h_scause h"
definition r_stval :: "hart \<Rightarrow> u64" where "r_stval h = h_stval h"
definition w_mcounteren :: "u64 \<Rightarrow> hart \<Rightarrow> hart" where "w_mcounteren x h = h\<lparr>mcounteren := x\<rparr>"
definition r_mcounteren :: "hart \<Rightarrow> u64" where "r_mcounteren h = mcounteren h"
definition r_time :: "hart \<Rightarrow> u64" where "r_time h = mtime h"
definition r_sp :: "hart \<Rightarrow> u64" where "r_sp h = xr h SP"
definition r_tp :: "hart \<Rightarrow> u64" where "r_tp h = xr h TP"
definition w_tp :: "u64 \<Rightarrow> hart \<Rightarrow> hart" where "w_tp x h = set_x TP x h"
definition r_ra :: "hart \<Rightarrow> u64" where "r_ra h = xr h RA"

lemmas csr_defs = r_mhartid_def r_mstatus_def w_mstatus_def w_mepc_def r_sie_def w_sie_def r_mie_def w_mie_def w_medeleg_def w_mideleg_def
  w_stimecmp_def r_menvcfg_def w_menvcfg_def w_pmpcfg0_def w_pmpaddr0_def w_satp_def w_mcounteren_def r_mcounteren_def r_time_def w_tp_def set_x_def

section \<open>Boot\<close>

text \<open>\<^verbatim>\<open>_entry\<close> up to the call of \<^verbatim>\<open>start\<close>; the registers \<^verbatim>\<open>a0\<close> and \<^verbatim>\<open>a1\<close> are scratch.\<close>

definition boot_entry :: "u64 \<Rightarrow> u64 \<Rightarrow> hart \<Rightarrow> hart" where
  "boot_entry stack0 start_addr h =
     (let h = set_x SP stack0 h;
          h = set_x A0 (1024 * 4) h;
          h = set_x A1 (mhartid h) h;
          h = set_x A1 (xr h A1 + 1) h;
          h = set_x A0 (xr h A0 * xr h A1) h;
          h = set_x SP (xr h SP + xr h A0) h in
      h\<lparr>pc := start_addr\<rparr>)"

definition timerinit :: "hart \<Rightarrow> hart" where
  "timerinit h =
     (let h = w_mie (r_mie h OR MIE_STIE) h;
          h = w_menvcfg (r_menvcfg h OR push_bit 63 1) h;
          h = w_mcounteren (r_mcounteren h OR 2) h in
      w_stimecmp (r_time h + 1000000) h)"

text \<open>The instruction: to the mode in \<^verbatim>\<open>MPP\<close>, with the interrupt enable from \<^verbatim>\<open>MPIE\<close>.\<close>

definition mret :: "hart \<Rightarrow> hart" where
  "mret h =
     (let m = mstatus h; mpp = drop_bit 11 m AND 3;
          m' = (if bit m 7 then m OR push_bit 3 1 else m AND NOT (push_bit 3 1));
          m' = (m' OR push_bit 7 1) AND NOT (push_bit 11 3);
          m' = (if mpp = 3 then m' else m' AND NOT (push_bit 17 1)) in
      h\<lparr>mode := if mpp = 3 then Machine else if mpp = 1 then Supervisor else User, pc := mepc h, mstatus := m'\<rparr>)"

definition start :: "u64 \<Rightarrow> hart \<Rightarrow> hart" where
  "start main h =
     (let x = r_mstatus h;
          x = x AND NOT MSTATUS_MPP_MASK;
          x = x OR MSTATUS_MPP_S;
          h = w_mstatus x h;
          h = w_mepc main h;
          h = w_satp 0 h;
          h = w_medeleg 0xffff h;
          h = w_mideleg 0xffff h;
          h = w_sie (r_sie h OR SIE_SEIE OR SIE_STIE OR SIE_SSIE) h;
          h = w_pmpaddr0 0x3fffffffffffff h;
          h = w_pmpcfg0 0xf h;
          h = timerinit h;
          h = w_tp (scast (ucast (r_mhartid h) :: u32)) h in
      mret h)"

definition kvminithart :: "u64 \<Rightarrow> hart \<Rightarrow> hart" where
  "kvminithart kernel_pagetable h = w_satp (MAKE_SATP kernel_pagetable) h"

section \<open>Loads and stores\<close>

definition sd :: "(u64 \<Rightarrow> u64 \<Rightarrow> u64) \<Rightarrow> nat \<Rightarrow> nat \<times> nat \<Rightarrow> hart \<Rightarrow> hart" where
  "sd tr base = (\<lambda>(r, off) h. h\<lparr>pm := st64 (pm h) (tr (h_satp h) (xr h base + of_nat off)) (xr h r)\<rparr>)"

definition ld :: "(u64 \<Rightarrow> u64 \<Rightarrow> u64) \<Rightarrow> nat \<Rightarrow> nat \<times> nat \<Rightarrow> hart \<Rightarrow> hart" where
  "ld tr base = (\<lambda>(r, off) h. set_x r (ld64 (pm h) (tr (h_satp h) (xr h base + of_nat off))) h)"

section \<open>Context switch\<close>

text \<open>The registers of \<^verbatim>\<open>struct context\<close> with their offsets: \<^verbatim>\<open>ra\<close>, \<^verbatim>\<open>sp\<close>, \<^verbatim>\<open>s0\<close> to \<^verbatim>\<open>s11\<close>.\<close>

definition ctx_regs :: "(nat \<times> nat) list" where
  "ctx_regs = [(RA, 0), (SP, 8), (S0, 16), (S1, 24), (18, 32), (19, 40), (20, 48), (21, 56), (22, 64), (23, 72), (24, 80), (25, 88),
     (26, 96), (27, 104)]"

definition swtch :: "(u64 \<Rightarrow> u64 \<Rightarrow> u64) \<Rightarrow> hart \<Rightarrow> hart" where
  "swtch tr h =
     (let h = fold (sd tr A0) ctx_regs h;
          h = fold (ld tr A1) ctx_regs h in
      h\<lparr>pc := xr h RA\<rparr>)"

section \<open>Traps\<close>

text \<open>The registers of \<^verbatim>\<open>struct trapframe\<close> in the order of \<^verbatim>\<open>trampoline.S\<close>; \<^verbatim>\<open>a0\<close> is saved and restored apart from them.\<close>

definition user_regs :: "(nat \<times> nat) list" where
  "user_regs = [(RA, 40), (SP, 48), (GP, 56), (TP, 64), (T0, 72), (T1, 80), (T2, 88), (S0, 96), (S1, 104), (A1, 120), (12, 128), (13, 136),
     (14, 144), (15, 152), (16, 160), (17, 168), (18, 176), (19, 184), (20, 192), (21, 200), (22, 208), (23, 216), (24, 224), (25, 232),
     (26, 240), (27, 248), (28, 256), (29, 264), (30, 272), (31, 280)]"

definition uservec :: "(u64 \<Rightarrow> u64 \<Rightarrow> u64) \<Rightarrow> hart \<Rightarrow> hart" where
  "uservec tr h =
     (let h = h\<lparr>sscratch := xr h A0\<rparr>;
          h = set_x A0 TRAPFRAME h;
          h = fold (sd tr A0) user_regs h;
          h = set_x T0 (sscratch h) h;
          h = sd tr A0 (T0, 112) h;
          h = ld tr A0 (SP, 8) h;
          h = ld tr A0 (TP, 32) h;
          h = ld tr A0 (T0, 16) h;
          h = ld tr A0 (T1, 0) h;
          h = h\<lparr>h_satp := xr h T1\<rparr> in
      h\<lparr>pc := xr h T0\<rparr>)"

text \<open>The instruction: to the mode in \<^verbatim>\<open>SPP\<close>, with the interrupt enable from \<^verbatim>\<open>SPIE\<close>.\<close>

definition sret :: "hart \<Rightarrow> hart" where
  "sret h =
     (let m = mstatus h;
          m' = (if bit m 5 then m OR push_bit 1 1 else m AND NOT (push_bit 1 1));
          m' = (m' OR push_bit 5 1) AND NOT (push_bit 8 1) AND NOT (push_bit 17 1) in
      h\<lparr>mode := if bit m 8 then Supervisor else User, pc := h_sepc h, mstatus := m'\<rparr>)"

definition userret :: "(u64 \<Rightarrow> u64 \<Rightarrow> u64) \<Rightarrow> hart \<Rightarrow> hart" where
  "userret tr h =
     (let h = h\<lparr>h_satp := xr h A0\<rparr>;
          h = set_x A0 TRAPFRAME h;
          h = fold (ld tr A0) user_regs h;
          h = ld tr A0 (A0, 112) h in
      sret h)"

text \<open>The caller-saved registers; \<^verbatim>\<open>kernelvec\<close> saves them below the stack pointer and restores all but \<^verbatim>\<open>tp\<close>.\<close>

definition caller_regs :: "(nat \<times> nat) list" where
  "caller_regs = [(RA, 0), (SP, 8), (GP, 16), (TP, 24), (T0, 32), (T1, 40), (T2, 48), (A0, 72), (A1, 80), (12, 88), (13, 96), (14, 104), (15, 112), (16, 120), (17, 128),
     (28, 216), (29, 224), (30, 232), (31, 240)]"

definition kernelvec :: "(u64 \<Rightarrow> u64 \<Rightarrow> u64) \<Rightarrow> (hart \<Rightarrow> hart) \<Rightarrow> hart \<Rightarrow> hart" where
  "kernelvec tr kerneltrap h =
     (let h = set_x SP (xr h SP - 256) h;
          h = fold (sd tr SP) caller_regs h;
          h = kerneltrap h;
          h = fold (ld tr SP) (filter (\<lambda>(r, _). r \<noteq> TP) caller_regs) h;
          h = set_x SP (xr h SP + 256) h in
      sret h)"

section \<open>Start in supervisor mode\<close>

text \<open>Whatever the state of the registers was, \<^verbatim>\<open>start\<close> enters \<^verbatim>\<open>main\<close> in supervisor mode without translation, with the exceptions and the
  supervisor's interrupts delegated, the timer armed, all memory accessible and the number of the hart in \<^verbatim>\<open>tp\<close>. The supervisor's
  status is as it was.\<close>

lemma start_supervisor:
  "mode (start main h) = Supervisor" "pc (start main h) = main" "h_satp (start main h) = 0" "medeleg (start main h) = 0xffff"
  "stimecmp (start main h) = mtime h + 1000000" "bit (menvcfg (start main h)) 63" "bit (mcounteren (start main h)) 1"
  "pmpcfg0 (start main h) = 0xf" "PHYSTOP \<le> 4 * pmpaddr0 (start main h)"
  "xr (start main h) TP = scast (ucast (mhartid h) :: u32)"
proof -
  have e: "drop_bit 11 ((x AND NOT MSTATUS_MPP_MASK) OR MSTATUS_MPP_S) AND 3 = (1 :: u64)" for x :: u64
  proof -
    have "(3 :: u64) = mask 2" by (simp add: mask_eq_exp_minus_1)
    then have b: "bit (3 :: u64) n \<longleftrightarrow> n < 2" for n by (simp only: bit_mask_iff) auto
    show ?thesis
    proof (rule bit_word_eqI)
      fix n assume "n < LENGTH(64)"
      have "bit MSTATUS_MPP_MASK (11 + n) \<longleftrightarrow> n < 2" "bit MSTATUS_MPP_S (11 + n) \<longleftrightarrow> n = 0"
        by (simp_all only: bit_push_bit_iff b bit_1_iff) auto
      then show "bit (drop_bit 11 ((x AND NOT MSTATUS_MPP_MASK) OR MSTATUS_MPP_S) AND 3) n \<longleftrightarrow> bit (1 :: u64) n"
        unfolding bit_and_iff bit_drop_bit_eq comp_apply bit_or_iff bit_not_iff b bit_1_iff by auto
    qed
  qed
  show "mode (start main h) = Supervisor" "pc (start main h) = main" "h_satp (start main h) = 0" "medeleg (start main h) = 0xffff"
    "stimecmp (start main h) = mtime h + 1000000" "bit (menvcfg (start main h)) 63" "bit (mcounteren (start main h)) 1"
    "pmpcfg0 (start main h) = 0xf" "PHYSTOP \<le> 4 * pmpaddr0 (start main h)"
    "xr (start main h) TP = scast (ucast (mhartid h) :: u32)"
    using e by (simp_all add: start_def timerinit_def mret_def Let_def csr_defs bit_simps)
qed

text \<open>Each hart starts on the top of its own part of \<^verbatim>\<open>stack0\<close>.\<close>

lemma boot_entry_stack: "xr (boot_entry stack0 a h) SP = stack0 + 4096 * (mhartid h + 1)" "pc (boot_entry stack0 a h) = a"
  by (simp_all add: boot_entry_def Let_def set_x_def)

section \<open>Saving and restoring registers\<close>

definition stores :: "(nat \<Rightarrow> u64) \<Rightarrow> (nat \<Rightarrow> u64) \<Rightarrow> (nat \<times> nat) list \<Rightarrow> memory \<Rightarrow> memory" where
  "stores a v ps m = fold (\<lambda>(r, off) m. st64 m (a off) (v r)) ps m"

lemma fold_sd: "fold (sd tr b) ps h = h\<lparr>pm := stores (\<lambda>off. tr (h_satp h) (xr h b + of_nat off)) (xr h) ps (pm h)\<rparr>"
  by (induction ps arbitrary: h) (auto simp: sd_def stores_def)

lemma sd_apply: "sd tr b (r, off) h = h\<lparr>pm := st64 (pm h) (tr (h_satp h) (xr h b + of_nat off)) (xr h r)\<rparr>"
  and ld_apply: "ld tr b (r, off) h = h\<lparr>xr := (xr h)(r := ld64 (pm h) (tr (h_satp h) (xr h b + of_nat off)))\<rparr>"
  by (simp_all add: sd_def ld_def set_x_def)

lemma stores_Cons: "stores a v (p # ps) m = stores a v ps (st64 m (a (snd p)) (v (fst p)))"
  by (simp add: stores_def split_beta)

lemma stores_other: "\<forall>p \<in> set ps. disj8 (a (snd p)) y \<Longrightarrow> ld64 (stores a v ps m) y = ld64 m y"
proof (induction ps arbitrary: m)
  case (Cons p ps)
  then show ?case by (simp add: stores_Cons ld64_st64_other)
qed (simp add: stores_def)

lemma stores_same:
  assumes "(r, off) \<in> set ps" "distinct (map snd ps)" "\<forall>x \<in> snd ` set ps. \<forall>y \<in> snd ` set ps. x \<noteq> y \<longrightarrow> disj8 (a x) (a y)"
  shows "ld64 (stores a v ps m) (a off) = v r"
  using assms
proof (induction ps arbitrary: m)
  case (Cons p ps)
  show ?case
  proof (cases "p = (r, off)")
    case True
    then have "off \<notin> snd ` set ps" using Cons.prems(2) by simp
    then have "\<forall>q \<in> set ps. disj8 (a (snd q)) (a off)" using Cons.prems(3) True by auto
    then have "ld64 (stores a v ps (st64 m (a off) (v r))) (a off) = ld64 (st64 m (a off) (v r)) (a off)" by (rule stores_other)
    then show ?thesis using True by (simp add: stores_Cons)
  next
    case False
    then have "(r, off) \<in> set ps" using Cons.prems(1) by simp
    then show ?thesis unfolding stores_Cons by (rule Cons.IH) (use Cons.prems(2,3) in simp_all)
  qed
qed simp

lemma disj8_offsets:
  assumes "x < 4096" "y < 4096" "8 dvd x" "8 dvd y" "x \<noteq> y"
  shows "disj8 (b + of_nat x) (b + of_nat y :: u64)"
proof -
  have *: "8 \<le> (of_nat x - of_nat y :: u64)" if "x < 4096" "y < 4096" "8 dvd x" "8 dvd y" "x \<noteq> y" for x y :: nat
  proof (cases "y < x")
    case True
    then have "8 \<le> x - y" using that by (metis dvd_diff_nat dvd_imp_le zero_less_diff)
    then show ?thesis using True that by (simp flip: of_nat_diff add: word_le_nat_alt unat_of_nat_u64)
  next
    case False
    then have l: "x < y" using that(5) by simp
    define d where "d = y - x"
    have d: "0 < d" "d < 4096" "y = x + d" using l that(2) by (simp_all add: d_def)
    have "(of_nat x - of_nat y :: u64) = - of_nat d" by (simp add: d(3))
    moreover have "unat (of_nat d :: u64) = d" "(of_nat d :: u64) \<noteq> 0" using d(1,2) by (simp_all add: unat_of_nat_u64 word_unat_eq_iff)
    ultimately show ?thesis using d unat_uminus [of "of_nat d :: u64"] by (simp add: word_le_nat_alt)
  qed
  show ?thesis using *[OF assms] *[OF assms(2,1,4,3)] assms(5) by (simp add: disj8_def)
qed

text \<open>The base register may be loaded too, with the value it has.\<close>

lemma fold_ld_base:
  "(\<And>off. (b, off) \<in> set ps \<Longrightarrow> ld64 (pm h) (tr (h_satp h) (xr h b + of_nat off)) = xr h b) \<Longrightarrow> distinct (map fst ps) \<Longrightarrow>
   fold (ld tr b) ps h = h\<lparr>xr := \<lambda>r. case map_of ps r of Some off \<Rightarrow> ld64 (pm h) (tr (h_satp h) (xr h b + of_nat off)) | None \<Rightarrow> xr h r\<rparr>"
proof (induction ps arbitrary: h)
  case (Cons p ps)
  obtain r off where p: "p = (r, off)" by (cases p)
  let ?h = "set_x r (ld64 (pm h) (tr (h_satp h) (xr h b + of_nat off))) h"
  let ?f = "\<lambda>ps h r. case map_of ps r of Some off \<Rightarrow> ld64 (pm h) (tr (h_satp h) (xr h b + of_nat off)) | None \<Rightarrow> xr h r"
  have n: "map_of ps r = None" using Cons.prems(2) p by (auto simp: map_of_eq_None_iff)
  have h: "pm ?h = pm h" "h_satp ?h = h_satp h" "xr ?h b = xr h b" using Cons.prems(1) [of off] p by (auto simp: set_x_def)
  have "fold (ld tr b) (p # ps) h = fold (ld tr b) ps ?h" by (simp add: p ld_def)
  also have "\<dots> = ?h\<lparr>xr := ?f ps ?h\<rparr>"
  proof (rule Cons.IH)
    fix off' assume "(b, off') \<in> set ps"
    then show "ld64 (pm ?h) (tr (h_satp ?h) (xr ?h b + of_nat off')) = xr ?h b" unfolding h by (intro Cons.prems(1)) simp
  qed (use Cons.prems(2) in simp)
  also have "?f ps ?h = ?f (p # ps) h"
  proof
    fix q show "?f ps ?h q = ?f (p # ps) h q" using n p h by (cases "map_of ps q"; cases "q = r") (simp_all add: set_x_def)
  qed
  finally show ?case by (simp only: set_x_def) simp
qed simp

lemma fold_ld:
  assumes "b \<notin> fst ` set ps" "distinct (map fst ps)"
  shows "fold (ld tr b) ps h = h\<lparr>xr := \<lambda>r. case map_of ps r of Some off \<Rightarrow> ld64 (pm h) (tr (h_satp h) (xr h b + of_nat off)) | None \<Rightarrow> xr h r\<rparr>"
  using assms(1) by (intro fold_ld_base assms(2)) force

text \<open>The context at an address the kernel maps to itself, and two contexts that do not overlap.\<close>

definition ctx_mapped :: "(u64 \<Rightarrow> u64 \<Rightarrow> u64) \<Rightarrow> hart \<Rightarrow> u64 \<Rightarrow> bool" where
  "ctx_mapped tr h p \<longleftrightarrow> (\<forall>off < 112. tr (h_satp h) (p + of_nat off) = p + of_nat off)"

definition ctx_apart :: "u64 \<Rightarrow> u64 \<Rightarrow> bool" where
  "ctx_apart p q \<longleftrightarrow> (\<forall>x \<in> snd ` set ctx_regs. \<forall>y \<in> snd ` set ctx_regs. disj8 (p + of_nat x) (q + of_nat y))"

lemma ctx_regs_wf: "distinct (map fst ctx_regs)" "distinct (map snd ctx_regs)" "A1 \<notin> fst ` set ctx_regs" "(RA, 0) \<in> set ctx_regs"
    "\<forall>x \<in> snd ` set ctx_regs. x < 112 \<and> 8 dvd x"
  by (simp_all add: ctx_regs_def)

lemma ctx_regs_all: "r \<in> {1, 2, 8, 9} \<union> {18..27} \<Longrightarrow> \<exists>off. (r, off) \<in> set ctx_regs"
proof -
  assume "r \<in> {1, 2, 8, 9} \<union> {18..27}"
  then have "r \<in> set ([1, 2, 8, 9] @ [18..<28])" by (auto simp del: upt_rec_numeral)
  moreover have "list_all (\<lambda>r. r \<in> set (map fst ctx_regs)) ([1, 2, 8, 9] @ [18..<28])" by code_simp
  ultimately have "r \<in> set (map fst ctx_regs)" unfolding list_all_iff by (rule bspec [rotated])
  then show ?thesis by auto
qed

lemma swtch_saves:
  assumes "ctx_mapped tr h (xr h A0)" "(r, off) \<in> set ctx_regs"
  shows "ld64 (pm (swtch tr h)) (xr h A0 + of_nat off) = xr h r"
proof -
  let ?a = "\<lambda>off. tr (h_satp h) (xr h A0 + of_nat off)"
  have a: "?a x = xr h A0 + of_nat x" if "x \<in> snd ` set ctx_regs" for x
    using assms(1) ctx_regs_wf(5) that unfolding ctx_mapped_def by blast
  have "disj8 (?a x) (?a y)" if "x \<in> snd ` set ctx_regs" "y \<in> snd ` set ctx_regs" "x \<noteq> y" for x y
  proof -
    have "x < 112 \<and> 8 dvd x" "y < 112 \<and> 8 dvd y" using ctx_regs_wf(5) that(1,2) by blast+
    then show ?thesis using that disj8_offsets [of x y] by (simp add: a)
  qed
  then have "ld64 (stores ?a (xr h) ctx_regs (pm h)) (?a off) = xr h r" by (intro stores_same assms(2) ctx_regs_wf(2)) simp
  moreover have "off \<in> snd ` set ctx_regs" using assms(2) by force
  ultimately show ?thesis by (simp add: swtch_def Let_def fold_sd fold_ld ctx_regs_wf a)
qed

lemma swtch_loads:
  assumes "ctx_mapped tr h (xr h A0)" "ctx_mapped tr h (xr h A1)" "ctx_apart (xr h A0) (xr h A1)" "(r, off) \<in> set ctx_regs"
  shows "xr (swtch tr h) r = ld64 (pm h) (xr h A1 + of_nat off)" "pc (swtch tr h) = xr (swtch tr h) RA"
proof -
  let ?a = "\<lambda>off. tr (h_satp h) (xr h A0 + of_nat off)"
  have o: "off \<in> snd ` set ctx_regs" using assms(4) by force
  have "\<forall>p \<in> set ctx_regs. disj8 (?a (snd p)) (xr h A1 + of_nat off)"
  proof
    fix p assume "p \<in> set ctx_regs"
    then have p: "snd p \<in> snd ` set ctx_regs" by simp
    then have "?a (snd p) = xr h A0 + of_nat (snd p)" using assms(1) ctx_regs_wf(5) unfolding ctx_mapped_def by blast
    moreover have "disj8 (xr h A0 + of_nat (snd p)) (xr h A1 + of_nat off)" using assms(3) p o unfolding ctx_apart_def by blast
    ultimately show "disj8 (?a (snd p)) (xr h A1 + of_nat off)" by simp
  qed
  then have "ld64 (stores ?a (xr h) ctx_regs (pm h)) (xr h A1 + of_nat off) = ld64 (pm h) (xr h A1 + of_nat off)" by (rule stores_other)
  moreover have "map_of ctx_regs r = Some off" using assms(4) ctx_regs_wf(1) by simp
  moreover have "tr (h_satp h) (xr h A1 + of_nat off) = xr h A1 + of_nat off" using assms(2) ctx_regs_wf(5) o unfolding ctx_mapped_def by blast
  ultimately show "xr (swtch tr h) r = ld64 (pm h) (xr h A1 + of_nat off)" by (simp add: swtch_def Let_def fold_sd fold_ld ctx_regs_wf)
  show "pc (swtch tr h) = xr (swtch tr h) RA" by (simp add: swtch_def Let_def)
qed

section \<open>The trapframe\<close>

text \<open>All saved registers with \<^verbatim>\<open>a0\<close>.\<close>

abbreviation (input) frame_regs :: "(nat \<times> nat) list" where "frame_regs \<equiv> (A0, 112) # user_regs"

definition tf_mapped :: "(u64 \<Rightarrow> u64 \<Rightarrow> u64) \<Rightarrow> u64 \<Rightarrow> u64 \<Rightarrow> bool" where
  "tf_mapped tr satp tf \<longleftrightarrow> (\<forall>off < 4096. tr satp (TRAPFRAME + of_nat off) = tf + of_nat off)"

lemma user_regs_wf: "distinct (map fst user_regs)" "distinct (map snd frame_regs)" "A0 \<notin> fst ` set user_regs"
    "\<forall>x \<in> snd ` set frame_regs. 40 \<le> x \<and> x < 4096 \<and> 8 dvd x"
  by (simp_all add: user_regs_def)

lemma user_regs_all: "0 < r \<Longrightarrow> r < 32 \<Longrightarrow> \<exists>off. (r, off) \<in> set frame_regs"
proof -
  assume "0 < r" "r < 32"
  moreover have "list_all (\<lambda>r. r \<in> set (map fst frame_regs)) [1..<32]" by code_simp
  ultimately have "r \<in> set (map fst frame_regs)" unfolding list_all_iff by (metis One_nat_def Suc_leI atLeastLessThan_iff set_upt)
  moreover have "x \<in> set (map fst ps) \<Longrightarrow> \<exists>y. (x, y) \<in> set ps" for x and ps :: "(nat \<times> nat) list" by auto
  ultimately show ?thesis by blast
qed

lemma stores_cong:
  assumes "\<And>p. p \<in> set ps \<Longrightarrow> a (snd p) = a' (snd p) \<and> v (fst p) = v' (fst p)"
  shows "stores a v ps m = stores a' v' ps m"
  unfolding stores_def by (rule fold_cong) (use assms in \<open>auto split: prod.splits\<close>)

text \<open>The memory \<^verbatim>\<open>uservec\<close> leaves and what it loads for the kernel.\<close>

lemma uservec_eq:
  assumes "tf_mapped tr (h_satp h) tf"
  shows "pm (uservec tr h) = stores (\<lambda>off. tf + of_nat off) (xr h) (user_regs @ [(A0, 112)]) (pm h)"
    "xr (uservec tr h) SP = ld64 (pm (uservec tr h)) (tf + 8)" "xr (uservec tr h) TP = ld64 (pm (uservec tr h)) (tf + 32)"
    "pc (uservec tr h) = ld64 (pm (uservec tr h)) (tf + 16)" "h_satp (uservec tr h) = ld64 (pm (uservec tr h)) tf"
proof -
  let ?a = "\<lambda>off. tr (h_satp h) (TRAPFRAME + of_nat off)" and ?v = "(xr h)(A0 := TRAPFRAME)"
  have a: "?a x = tf + of_nat x" if "x < 4096" for x using assms that by (simp add: tf_mapped_def)
  have "stores ?a ?v user_regs (pm h) = stores (\<lambda>off. tf + of_nat off) (xr h) user_regs (pm h)"
  proof (rule stores_cong)
    fix p assume "p \<in> set user_regs"
    then have "snd p < 4096" "fst p \<noteq> A0" using user_regs_wf(3,4) by auto
    then show "?a (snd p) = tf + of_nat (snd p) \<and> ?v (fst p) = xr h (fst p)" using a by simp
  qed
  then have s: "stores ?a ?v user_regs (pm h) = stores (\<lambda>off. tf + of_nat off) (xr h) user_regs (pm h)" .
  note e = uservec_def Let_def fold_sd set_x_def sd_apply ld_apply s
  have n: "?a 112 = tf + 112" "?a 8 = tf + 8" "?a 32 = tf + 32" "?a 16 = tf + 16" "?a 0 = tf" using a [of 112] a [of 8] a [of 32] a [of 16] a [of 0] by simp_all
  have m: "stores (\<lambda>off. tf + of_nat off) (xr h) (user_regs @ [(A0, 112)]) (pm h) =
      st64 (stores (\<lambda>off. tf + of_nat off) (xr h) user_regs (pm h)) (tf + 112) (xr h A0)" by (simp add: stores_def)
  show "pm (uservec tr h) = stores (\<lambda>off. tf + of_nat off) (xr h) (user_regs @ [(A0, 112)]) (pm h)"
    unfolding m using n by (simp add: e)
  show "xr (uservec tr h) SP = ld64 (pm (uservec tr h)) (tf + 8)" "xr (uservec tr h) TP = ld64 (pm (uservec tr h)) (tf + 32)"
    "pc (uservec tr h) = ld64 (pm (uservec tr h)) (tf + 16)" "h_satp (uservec tr h) = ld64 (pm (uservec tr h)) tf"
    using n by (simp_all add: e)
qed

lemma frame_apart:
  "x \<in> {0, 8, 16, 32} \<union> snd ` set frame_regs \<Longrightarrow> y \<in> snd ` set frame_regs \<Longrightarrow> x \<noteq> y \<Longrightarrow> disj8 (tf + of_nat y) (tf + of_nat x :: u64)"
proof -
  assume a: "x \<in> {0, 8, 16, 32} \<union> snd ` set frame_regs" "y \<in> snd ` set frame_regs" "x \<noteq> y"
  have "x < 4096 \<and> 8 dvd x" using a(1) user_regs_wf(4) by auto
  moreover have "y < 4096 \<and> 8 dvd y" using a(2) user_regs_wf(4) by blast
  ultimately show ?thesis using disj8_offsets [of y x] a(3) by simp
qed

lemma uservec_saves:
  assumes "tf_mapped tr (h_satp h) tf" "(r, off) \<in> set frame_regs"
  shows "ld64 (pm (uservec tr h)) (tf + of_nat off) = xr h r"
proof -
  let ?ps = "user_regs @ [(A0, 112)]"
  have e: "set ?ps = set frame_regs" by simp
  have "\<forall>x \<in> snd ` set ?ps. \<forall>y \<in> snd ` set ?ps. x \<noteq> y \<longrightarrow> disj8 (tf + of_nat x) (tf + of_nat y :: u64)"
    unfolding e
  proof (intro ballI impI)
    fix x y assume "x \<in> snd ` set frame_regs" "y \<in> snd ` set frame_regs" "x \<noteq> y"
    then show "disj8 (tf + of_nat x) (tf + of_nat y)" using frame_apart [OF UnI2, of y x tf] by simp
  qed
  moreover have "distinct (map snd ?ps)" using user_regs_wf(2) by auto
  ultimately show ?thesis unfolding uservec_eq(1) [OF assms(1)] by (intro stores_same) (use assms(2) in auto)
qed

lemma uservec_kernel:
  assumes "tf_mapped tr (h_satp h) tf" "x \<in> {0, 8, 16, 32}"
  shows "ld64 (pm (uservec tr h)) (tf + of_nat x) = ld64 (pm h) (tf + of_nat x)"
proof -
  have "disj8 (tf + of_nat (snd p)) (tf + of_nat x)" if "p \<in> set frame_regs" for p
  proof -
    have y: "snd p \<in> snd ` set frame_regs" using that by blast
    then have "40 \<le> snd p" using user_regs_wf(4) by blast
    then have "x \<noteq> snd p" using assms(2) by auto
    then show ?thesis by (rule frame_apart [OF UnI1 [OF assms(2)] y])
  qed
  then show ?thesis unfolding uservec_eq(1) [OF assms(1)] by (intro stores_other) auto
qed

lemma userret_loads:
  assumes "tf_mapped tr (xr h A0) tf" "(r, off) \<in> set frame_regs"
  shows "xr (userret tr h) r = ld64 (pm h) (tf + of_nat off)" "pc (userret tr h) = h_sepc h" "h_satp (userret tr h) = xr h A0"
proof -
  have a: "tr (xr h A0) (TRAPFRAME + of_nat x) = tf + of_nat x" if "x < 4096" for x using assms(1) that by (simp add: tf_mapped_def)
  define g where "g = fold (ld tr A0) user_regs (h\<lparr>h_satp := xr h A0, xr := (xr h)(A0 := TRAPFRAME)\<rparr>)"
  have g: "g = h\<lparr>h_satp := xr h A0, xr := \<lambda>r. case map_of user_regs r of Some off \<Rightarrow> ld64 (pm h) (tr (xr h A0) (TRAPFRAME + of_nat off))
      | None \<Rightarrow> ((xr h)(A0 := TRAPFRAME)) r\<rparr>"
    unfolding g_def using user_regs_wf(1,3) by (simp add: fold_ld cong: option.case_cong)
  have n: "map_of user_regs A0 = None" using user_regs_wf(3) by (simp add: map_of_eq_None_iff)
  have u: "userret tr h = sret (ld tr A0 (A0, 112) g)" by (simp add: userret_def Let_def set_x_def g_def)
  show "pc (userret tr h) = h_sepc h" "h_satp (userret tr h) = xr h A0" by (simp_all add: u sret_def Let_def ld_apply g)
  show "xr (userret tr h) r = ld64 (pm h) (tf + of_nat off)"
  proof (cases "r = A0")
    case True
    moreover have "off = 112" using assms(2) True user_regs_wf(3) by (auto simp: rev_image_eqI)
    ultimately show ?thesis using a [of 112] n by (simp add: u sret_def Let_def ld_apply g)
  next
    case False
    then have m: "(r, off) \<in> set user_regs" using assms(2) by simp
    then have "map_of user_regs r = Some off" using user_regs_wf(1) by simp
    moreover have "off < 4096" using m user_regs_wf(4) by auto
    ultimately show ?thesis using a [of off] False by (simp add: u sret_def Let_def ld_apply g)
  qed
qed

section \<open>Traps in the kernel\<close>

lemma caller_regs_wf: "distinct (map fst caller_regs)" "distinct (map snd caller_regs)" "\<forall>x \<in> snd ` set caller_regs. x < 4096 \<and> 8 dvd x"
    "(SP, 8) \<in> set caller_regs"
  by (simp_all add: caller_regs_def)

lemma caller_regs_frame: "(r, off) \<in> set caller_regs \<Longrightarrow> off < 256"
  by (auto simp: caller_regs_def)

lemma caller_regs_all: "r \<in> {1, 2, 3, 5, 6, 7} \<union> {10..17} \<union> {28..31} \<Longrightarrow> \<exists>off. (r, off) \<in> set caller_regs"
proof -
  assume "r \<in> {1, 2, 3, 5, 6, 7} \<union> {10..17} \<union> {28..31}"
  then have "r \<in> fst ` set caller_regs" by (auto simp: caller_regs_def)
  then show ?thesis by auto
qed

lemma ld_sepc: "h_sepc (fold (ld tr b) ps h) = h_sepc h"
  by (induction ps arbitrary: h) (auto simp: ld_def set_x_def split: prod.splits)

text \<open>\<^verbatim>\<open>kernelvec\<close> returns to where the handler's \<^verbatim>\<open>sepc\<close> points.\<close>

lemma kernelvec_pc: "pc (kernelvec tr kerneltrap h) = h_sepc (kerneltrap (fold (sd tr SP) caller_regs (set_x SP (xr h SP - 256) h)))"
  by (simp add: kernelvec_def Let_def sret_def set_x_def ld_sepc)

text \<open>An interrupt in the kernel is invisible to the interrupted thread: if \<^verbatim>\<open>kerneltrap\<close> returns with its stack pointer and leaves the saved
  registers alone, \<^verbatim>\<open>kernelvec\<close> restores them, all but \<^verbatim>\<open>tp\<close>, which names the hart. Callee-saved registers are what \<^verbatim>\<open>kerneltrap\<close> leaves.\<close>

lemma kernelvec_restores:
  fixes h :: hart and kerneltrap :: "hart \<Rightarrow> hart"
  assumes id: "\<forall>a. tr (h_satp h) a = a"
    and g: "g = fold (sd tr SP) caller_regs (set_x SP (xr h SP - 256) h)" and k: "k = kerneltrap g"
    and kt: "xr k SP = xr g SP" "h_satp k = h_satp g" "\<forall>(r, off) \<in> set caller_regs. ld64 (pm k) (xr g SP + of_nat off) = ld64 (pm g) (xr g SP + of_nat off)"
    and r: "(r, off) \<in> set caller_regs" "r \<noteq> TP"
  shows "xr (kernelvec tr kerneltrap h) r = xr h r"
proof -
  let ?ps = "filter (\<lambda>(r, _). r \<noteq> TP) caller_regs"
  define S where "S = xr h SP - 256"
  define v where "v = (xr h)(SP := S)"
  have G: "g = h\<lparr>xr := v, pm := stores (\<lambda>off. S + of_nat off) v caller_regs (pm h)\<rparr>"
    using id by (simp add: g fold_sd set_x_def v_def S_def)
  have sv: "ld64 (pm k) (S + of_nat off) = v r" if m: "(r, off) \<in> set caller_regs" for r off
  proof -
    have "disj8 (S + of_nat x) (S + of_nat y)" if "x \<in> snd ` set caller_regs" "y \<in> snd ` set caller_regs" "x \<noteq> y" for x y
    proof -
      have "x < 4096 \<and> 8 dvd x" "y < 4096 \<and> 8 dvd y" using caller_regs_wf(3) that(1,2) by blast+
      then show ?thesis using disj8_offsets [of x y] that(3) by simp
    qed
    then have "ld64 (stores (\<lambda>off. S + of_nat off) v caller_regs (pm h)) (S + of_nat off) = v r"
      by (intro stores_same m caller_regs_wf(2)) blast
    moreover have "ld64 (pm k) (xr g SP + of_nat off) = ld64 (pm g) (xr g SP + of_nat off)" using kt(3) m by blast
    ultimately show ?thesis by (simp add: G v_def)
  qed
  have ks: "xr k SP = S" "\<forall>a. tr (h_satp k) a = a" using kt(1,2) id by (simp_all add: G v_def)
  have o: "off = 8" if "(SP, off) \<in> set ?ps" for off
    using that caller_regs_wf(1,4) by (metis (mono_tags, lifting) Some_eq_map_of_iff filter_is_subset option.inject subsetD)
  have d: "distinct (map fst ?ps)" using caller_regs_wf(1) by (rule distinct_map_filter)
  have b: "ld64 (pm k) (tr (h_satp k) (xr k SP + of_nat off)) = xr k SP" if "(SP, off) \<in> set ?ps" for off
    using sv [OF caller_regs_wf(4)] ks o [OF that] by (simp add: v_def)
  have m: "map_of ?ps r = Some off" using r d by simp
  have e: "kernelvec tr kerneltrap h = sret (set_x SP (xr (fold (ld tr SP) ?ps k) SP + 256) (fold (ld tr SP) ?ps k))"
    by (simp add: kernelvec_def Let_def k g)
  have f: "fold (ld tr SP) ?ps k = k\<lparr>xr := \<lambda>r. case map_of ?ps r of Some off \<Rightarrow> ld64 (pm k) (tr (h_satp k) (xr k SP + of_nat off)) | None \<Rightarrow> xr k r\<rparr>"
    by (rule fold_ld_base) (use b d in auto)
  show ?thesis unfolding e f using m sv [OF r(1)] ks
    by (cases "r = SP") (simp_all add: sret_def Let_def set_x_def v_def S_def)
qed

text \<open>A hart in user mode, with its contexts and trapframe at addresses that are mapped to themselves.\<close>

definition hart0 :: hart where
  "hart0 = \<lparr>xr = \<lambda>r. if r = A0 then 0x1000 else if r = A1 then 0x2000 else of_nat r, pm = \<lambda>_. 0, pc = 0, mode = User, mhartid = 0, mstatus = 0,
     mepc = 0, mie = 0, mip = 0, medeleg = 0, mideleg = 0, menvcfg = 0, mcounteren = 0, mtime = 0, pmpcfg0 = 0, pmpaddr0 = 0,
     h_satp = 0, h_stvec = 0, h_sepc = 0, h_scause = 0, h_stval = 0, sscratch = 0, stimecmp = 0\<rparr>"

end
