(* ===== verification/Disk.thy ===== *)
theory Disk
  imports Virtio
begin

text \<open>
  The disk driver with its device: \<open>Virtio.vd_rw\<close> implements \<open>Bio.virtio_disk_rw\<close>, the effect the buffer cache relies on.
  The device is a parameter that serves a request as the virtio specification describes it.
\<close>

section \<open>The device and the interrupt\<close>

text \<open>The request at the end of the available ring, the only one the device has not served: a chain of header, data and status.\<close>

definition request :: "vdisk \<Rightarrow> nat \<Rightarrow> nat \<Rightarrow> bool \<Rightarrow> u32 \<Rightarrow> bool" where
  "request v h b write n \<longleftrightarrow>
     (let d = unat (vd_next (vdesc v h)); e = unat (vd_next (vdesc v d)) in
      used_dev_idx (vused v) + 1 = avail_idx (vavail v) \<and> unat (avail_ring (vavail v) (unat (used_dev_idx (vused v)) mod VIRTIO_NUM)) = h \<and>
      vd_addr (vdesc v h) = VOp h \<and> vd_len (vdesc v h) = 16 \<and> vd_flags (vdesc v h) AND VRING_DESC_F_NEXT \<noteq> 0 \<and>
      vd_addr (vdesc v d) = VData b \<and> vd_len (vdesc v d) = BSIZE \<and> vd_flags (vdesc v d) AND VRING_DESC_F_NEXT \<noteq> 0 \<and>
      (vd_flags (vdesc v d) AND VRING_DESC_F_WRITE = 0 \<longleftrightarrow> write) \<and>
      vd_addr (vdesc v e) = VStatus h \<and> vd_len (vdesc v e) = 1 \<and> vd_flags (vdesc v e) AND VRING_DESC_F_WRITE \<noteq> 0 \<and>
      vd_flags (vdesc v e) AND VRING_DESC_F_NEXT = 0 \<and>
      rq_type (vops v h) = (if write then VIRTIO_BLK_T_OUT else VIRTIO_BLK_T_IN) \<and> rq_sector (vops v h) = 2 * ucast n)"

text \<open>The device transfers the data, sets the status and adds the head of the chain to the used ring.\<close>

definition used_entry :: "nat \<Rightarrow> vdisk \<Rightarrow> vdisk" where
  "used_entry h v = v\<lparr>info_status := (info_status v)(h := 0),
     vused := \<lparr>used_dev_idx = used_dev_idx (vused v) + 1,
       used_ring = (used_ring (vused v))(unat (used_dev_idx (vused v)) mod VIRTIO_NUM := of_nat h)\<rparr>\<rparr>"

definition transfer :: "nat \<Rightarrow> bool \<Rightarrow> u32 \<Rightarrow> 'a virtio_st_scheme \<Rightarrow> 'a virtio_st_scheme" where
  "transfer b write n s =
     (if write then s\<lparr>disk := (disk s)(n := b_data (bufs s b)), dwrites := dwrites s @ [(n, b_data (bufs s b))]\<rparr>
      else upd_buf b (b_data_update (\<lambda>_. disk s n)) s)"

definition device_ok :: "('a virtio_st_scheme \<Rightarrow> 'a virtio_st_scheme) \<Rightarrow> bool" where
  "device_ok dev \<longleftrightarrow> (\<forall>s h b write n. request (vdisk s) h b write n \<longrightarrow> dev s = upd_vd (used_entry h) (transfer b write n s))"

text \<open>What runs while the thread waits: the scheduler releases the lock of the process, the device serves the request, the
  interrupt handler runs, and the scheduler resumes the process when it is runnable.\<close>

definition disk_wait :: "('a virtio_st_scheme \<Rightarrow> 'a virtio_st_scheme) \<Rightarrow> 'a virtio_st_scheme \<Rightarrow> 'a virtio_st_scheme res" where
  "disk_wait dev s =
     bindr (myproc s) (\<lambda>p.
     bindr (release (Proc_lock p) (s\<lparr>cur := None\<rparr>)) (\<lambda>s.
     bindr (virtio_disk_intr (dev s)) (\<lambda>s.
     bindr (acquire (Proc_lock p) s) (\<lambda>s.
     if p_state (ptab s p) = RUNNABLE then Ok ((upd_proc p (p_state_update (\<lambda>_. RUNNING)) s)\<lparr>cur := Some p\<rparr>) else Block))))"

definition vd_idle :: "vdisk \<Rightarrow> bool" where
  "vd_idle v \<longleftrightarrow> used_idx v = used_dev_idx (vused v) \<and> used_dev_idx (vused v) = avail_idx (vavail v)"

section \<open>The steps of a request\<close>

lemma vd_submit_eq:
  "vd_submit b w i j k s = s\<lparr>bufs := (bufs s)(b := (bufs s b)\<lparr>b_disk := True\<rparr>), vdisk := vdisk (vd_submit b w i j k s)\<rparr>"
  by (simp add: vd_submit_def Let_def upd_vd_def upd_buf_def)

lemma vd_submit_sched: "held (vd_submit b w i j k s) = held s" "cur (vd_submit b w i j k s) = cur s"
    "bufs (vd_submit b w i j k s) = (bufs s)(b := (bufs s b)\<lparr>b_disk := True\<rparr>)"
  by (subst vd_submit_eq, simp)+

lemma vdisk_upd_buf [simp]: "vdisk (upd_buf b g s) = vdisk s"
  by (simp add: upd_buf_def)

lemma vd_submit_vdisk:
  "used_idx (vdisk (vd_submit b w i j k s)) = used_idx (vdisk s)" "vused (vdisk (vd_submit b w i j k s)) = vused (vdisk s)"
  "info_b (vdisk (vd_submit b w i j k s)) i = Some b" "avail_idx (vavail (vdisk (vd_submit b w i j k s))) = avail_idx (vavail (vdisk s)) + 1"
  by (simp_all add: vd_submit_def Let_def)

lemma sector_of_block: "n < 2 ^ 31 \<Longrightarrow> (ucast (n * 2 :: u32) :: u64) = 2 * ucast n"
proof -
  assume "n < 2 ^ 31"
  then have "unat n < 2 ^ 31" by (simp add: word_less_nat_alt)
  then have "unat (n * 2) = unat n * 2" by (simp add: unat_mult_lem [THEN iffD1])
  moreover have "take_bit 64 (unat n) = unat n" using \<open>unat n < 2 ^ 31\<close> by (simp add: take_bit_nat_eq_self)
  then have "unat (2 * ucast n :: u64) = 2 * unat n" using \<open>unat n < 2 ^ 31\<close> by (simp add: unat_word_ariths unsigned_ucast_eq)
  ultimately show ?thesis using \<open>unat n < 2 ^ 31\<close> by (simp add: word_unat_eq_iff unsigned_ucast_eq take_bit_nat_eq_self)
qed

lemma vd_submit_request:
  assumes "distinct [i, j, k]" "i < VIRTIO_NUM" "j < VIRTIO_NUM" "k < VIRTIO_NUM" "vd_idle (vdisk s)" "b_blockno (bufs s b) < 2 ^ 31"
  shows "request (vdisk (vd_submit b w i j k s)) i b w (b_blockno (bufs s b))"
proof -
  have u: "unat (of_nat x :: u16) = x" if "x < VIRTIO_NUM" for x :: nat using that by (simp add: unat_of_nat)
  have f: "((if w then 0 else 2) OR 1 :: u16) AND 1 \<noteq> 0" "((if w then 0 else 2) OR 1 :: u16) AND 2 = 0 \<longleftrightarrow> w" by simp_all
  show ?thesis using assms u f sector_of_block [OF assms(6)]
    by (simp add: vd_submit_def Let_def request_def vd_idle_def)
qed

lemma woken_cong: "cur s = cur t \<Longrightarrow> ptab s = ptab t \<Longrightarrow> woken ch P s = woken ch P t"
  by (auto simp: woken_def)

text \<open>The handler takes the one entry of the used ring and wakes the waiting process.\<close>

lemma intr_one:
  assumes "held s = []" "used_idx (vdisk s) + 1 = used_dev_idx (vused (vdisk s))"
    "unat (used_ring (vused (vdisk s)) (unat (used_idx (vdisk s)) mod VIRTIO_NUM)) = h" "info_status (vdisk s) h = 0" "info_b (vdisk s) h = Some b"
  shows "virtio_disk_intr s = Ok (s\<lparr>bufs := (bufs s)(b := (bufs s b)\<lparr>b_disk := False\<rparr>), ptab := woken (Chan_buf b) {..<NPROC} s,
    vdisk := (vdisk s)\<lparr>used_idx := used_idx (vdisk s) + 1\<rparr>\<rparr>)"
proof -
  let ?s = "s\<lparr>held := [Vdisk_lock], bufs := (bufs s)(b := (bufs s b)\<lparr>b_disk := False\<rparr>)\<rparr>"
  let ?t = "?s\<lparr>ptab := woken (Chan_buf b) {..<NPROC} s, vdisk := (vdisk s)\<lparr>used_idx := used_idx (vdisk s) + 1\<rparr>\<rparr>"
  let ?f = "\<lambda>s. if used_idx (vdisk s) = used_dev_idx (vused (vdisk s)) then Ok (Inr s)
       else
         let ident = unat (used_ring (vused (vdisk s)) (unat (used_idx (vdisk s)) mod VIRTIO_NUM)) in
         if info_status (vdisk s) ident \<noteq> 0 then Panic ''virtio_disk_intr status''
         else case info_b (vdisk s) ident of
           None \<Rightarrow> Panic ''kerneltrap''
         | Some b \<Rightarrow>
             let s = upd_buf b (b_disk_update (\<lambda>_. False)) s in
             bindr (wakeup (Chan_buf b) s) (\<lambda>s.
             Ok (Inl (upd_vd (used_idx_update (\<lambda>u. u + 1)) s)))"
  have n: "used_idx (vdisk s) \<noteq> used_dev_idx (vused (vdisk s))" using assms(2) by (metis add_left_cancel add.right_neutral zero_neq_one)
  have "no_proc_lock ?s" by (simp add: no_proc_lock_def)
  then have w: "wakeup (Chan_buf b) ?s = Ok (?s\<lparr>ptab := woken (Chan_buf b) {..<NPROC} s\<rparr>)"
    using woken_cong [of ?s s] by (simp add: wakeup_spec)
  have "?f (s\<lparr>held := [Vdisk_lock]\<rparr>) = Ok (Inl ?t)"
    using n assms(3-5) w by (simp add: Let_def upd_buf_def upd_vd_def)
  moreover have "?f ?t = Ok (Inr ?t)" using assms(2) by simp
  ultimately have "loopr ?f (s\<lparr>held := [Vdisk_lock]\<rparr>) = Ok ?t"
    by (simp only: loopr_unfold [of _ "s\<lparr>held := [Vdisk_lock]\<rparr>"] loopr_unfold [of _ ?t] bindr.simps sum.case)
  then show ?thesis unfolding virtio_disk_intr_def by (simp add: assms(1) bindr.simps)
qed

lemma transfer_fields [simp]:
  "held (transfer b w n s) = held s" "cur (transfer b w n s) = cur s" "ptab (transfer b w n s) = ptab s" "vdisk (transfer b w n s) = vdisk s"
  "b_disk (bufs (transfer b w n s) x) = b_disk (bufs s x)"
  by (simp_all add: transfer_def upd_buf_def)

lemma transfer_upd:
  "transfer b w n (s\<lparr>held := l\<rparr>) = (transfer b w n s)\<lparr>held := l\<rparr>" "transfer b w n (s\<lparr>cur := c\<rparr>) = (transfer b w n s)\<lparr>cur := c\<rparr>"
  "transfer b w n (s\<lparr>ptab := pt\<rparr>) = (transfer b w n s)\<lparr>ptab := pt\<rparr>"
  by (simp_all add: transfer_def upd_buf_def)

text \<open>What the thread finds when it wakes up: the transfer is done and the buffer is its own again.\<close>

abbreviation (input) served :: "nat \<Rightarrow> nat \<Rightarrow> bool \<Rightarrow> u32 \<Rightarrow> (nat \<Rightarrow> proc) \<Rightarrow> 'a virtio_st_scheme \<Rightarrow> 'a virtio_st_scheme" where
  "served h b w n pt s \<equiv> upd_buf b (b_disk_update (\<lambda>_. False))
     ((transfer b w n s)\<lparr>ptab := pt, vdisk := (used_entry h (vdisk s))\<lparr>used_idx := used_idx (vdisk s) + 1\<rparr>\<rparr>)"

lemma disk_wait_served:
  assumes s: "held s = [Proc_lock p]" "cur s = Some p" "p < NPROC" "sleeping_on (Chan_buf b) (ptab s p)"
    and d: "device_ok dev" "request (vdisk s) h b w n" "h < VIRTIO_NUM" "info_b (vdisk s) h = Some b"
      "used_idx (vdisk s) = used_dev_idx (vused (vdisk s))"
  shows "\<exists>pt. disk_wait dev s = Ok (served h b w n pt s)"
proof -
  define s3 where "s3 = (transfer b w n s)\<lparr>held := [], cur := None, vdisk := used_entry h (vdisk s)\<rparr>"
  have dev: "dev (s\<lparr>cur := None, held := []\<rparr>) = s3"
    using d(1) [unfolded device_ok_def, rule_format, of "s\<lparr>cur := None, held := []\<rparr>" h b w n] d(2)
    by (simp add: s3_def upd_vd_def transfer_upd)
  have h: "unat (of_nat h :: u32) = h" using d(3) by (simp add: unat_of_nat)
  define s4 where "s4 = s3\<lparr>bufs := (bufs s3)(b := (bufs s3 b)\<lparr>b_disk := False\<rparr>), ptab := woken (Chan_buf b) {..<NPROC} s3,
    vdisk := (vdisk s3)\<lparr>used_idx := used_idx (vdisk s3) + 1\<rparr>\<rparr>"
  have "virtio_disk_intr s3 = Ok s4" unfolding s4_def
    using d(4,5) h by (intro intr_one [where h = h]) (simp_all add: s3_def used_entry_def)
  moreover have "held s4 = []" "p_state (ptab s4 p) = RUNNABLE" using s by (simp_all add: woken_def s3_def s4_def)
  ultimately have "disk_wait dev s = Ok ((upd_proc p (p_state_update (\<lambda>_. RUNNING)) (s4\<lparr>held := [Proc_lock p]\<rparr>))\<lparr>cur := Some p\<rparr>)"
    using s(1,2) dev by (simp add: disk_wait_def myproc_def)
  moreover have "(upd_proc p (p_state_update (\<lambda>_. RUNNING)) (s4\<lparr>held := [Proc_lock p]\<rparr>))\<lparr>cur := Some p\<rparr> =
      served h b w n ((ptab s4)(p := (ptab s4 p)\<lparr>p_state := RUNNING\<rparr>)) s"
    by (rule virtio_st.equality) (use s(1,2) in \<open>simp_all add: s3_def s4_def upd_proc_def upd_buf_def used_entry_def\<close>)
  ultimately show ?thesis by metis
qed

lemma sleep_served:
  assumes s: "held s = [Vdisk_lock]" "cur s = Some p" "p < NPROC"
    and d: "device_ok dev" "request (vdisk s) h b w n" "h < VIRTIO_NUM" "info_b (vdisk s) h = Some b"
      "used_idx (vdisk s) = used_dev_idx (vused (vdisk s))"
  shows "\<exists>pt. sleep (disk_wait dev) (Chan_buf b) Vdisk_lock s = Ok (served h b w n pt s)"
proof -
  define s1 where "s1 = s\<lparr>held := [Proc_lock p], ptab := (ptab s)(p := (ptab s p)\<lparr>p_chan := Some (Chan_buf b), p_state := SLEEPING\<rparr>)\<rparr>"
  have "\<exists>pt. disk_wait dev s1 = Ok (served h b w n pt s1)"
    by (rule disk_wait_served [where p = p]) (use s d in \<open>simp_all add: s1_def sleeping_on_def\<close>)
  then obtain pt where pt: "disk_wait dev s1 = Ok (served h b w n pt s1)" by blast
  have "sched (disk_wait dev) s1 = disk_wait dev s1" using s by (simp add: sched_def myproc_def s1_def)
  then have "sleep (disk_wait dev) (Chan_buf b) Vdisk_lock s =
      Ok ((upd_proc p (p_chan_update (\<lambda>_. None)) (served h b w n pt s1))\<lparr>held := [Vdisk_lock]\<rparr>)"
    using s pt by (simp add: sleep_def myproc_def Let_def s1_def upd_proc_def upd_buf_def)
  moreover have "(upd_proc p (p_chan_update (\<lambda>_. None)) (served h b w n pt s1))\<lparr>held := [Vdisk_lock]\<rparr> =
      served h b w n (pt(p := (pt p)\<lparr>p_chan := None\<rparr>)) s"
    by (rule virtio_st.equality) (use s(1,2) in \<open>simp_all add: s1_def upd_proc_def upd_buf_def transfer_upd\<close>)
  ultimately show ?thesis by metis
qed

section \<open>The driver implements the transfer\<close>

lemma alloc3_desc_three:
  assumes "no_proc_lock s" "3 \<le> card {i. i < VIRTIO_NUM \<and> vdfree s i}"
  shows "\<exists>i j k t. alloc3_desc s = Ok (Some [i, j, k], t) \<and> distinct [i, j, k] \<and> (\<forall>x \<in> {i, j, k}. x < VIRTIO_NUM \<and> vdfree s x) \<and>
    t = upd_vd (vfree_update (\<lambda>_ x. x \<notin> {i, j, k} \<and> vdfree s x)) s"
proof -
  obtain js t where a: "alloc3_loop 3 [] s = Ok (Some js, t)" using alloc3_enough [OF assms(2)] by blast
  then obtain "is" where r: "js = is" "length is = 3" "distinct js" "\<forall>i \<in> set is. i < VIRTIO_NUM \<and> vdfree s i"
    "vfree (vdisk t) = (\<lambda>i. i \<notin> set is \<and> vdfree s i)" "t = upd_vd (vfree_update (\<lambda>_. vfree (vdisk t))) s"
    using alloc3_loop_spec [OF assms(1), of "[]" 3] by auto
  obtain i j k where js: "is = [i, j, k]" using r(2) by (auto simp: length_Suc_conv numeral_3_eq_3)
  have "t = upd_vd (vfree_update (\<lambda>_ x. x \<notin> {i, j, k} \<and> vdfree s x)) s" using r(6) unfolding r(5) js by simp
  then show ?thesis using a r(1,3,4) js unfolding alloc3_desc_def by (intro exI [of _ i] exI [of _ j] exI [of _ k] exI [of _ t]) simp
qed

lemma vd_wait_done:
  assumes "b_disk (bufs s b)" "sleep others (Chan_buf b) Vdisk_lock s = Ok t" "\<not> b_disk (bufs t b)"
  shows "loopr (\<lambda>s. if b_disk (bufs s b) then bindr (sleep others (Chan_buf b) Vdisk_lock s) (\<lambda>s. Ok (Inl s)) else Ok (Inr s)) s = Ok t"
  using assms by (simp add: loopr_unfold [of _ s] loopr_unfold [of _ t])

text \<open>The request once it is submitted: it returns, and the three descriptors are free again.\<close>

lemma vd_rw_submitted:
  assumes u_def: "u = vd_submit b w i j k s" and
    s: "held s = [Vdisk_lock]" "cur s = Some p" "p < NPROC" "vd_idle (vdisk s)" "b_blockno (bufs s b) < 2 ^ 31" and d: "device_ok dev"
    and ijk: "distinct [i, j, k]" "\<forall>x \<in> {i, j, k}. x < VIRTIO_NUM \<and> \<not> vdfree s x"
  shows "\<exists>pt z. sleep (disk_wait dev) (Chan_buf b) Vdisk_lock u = Ok (served i b w (b_blockno (bufs s b)) pt u) \<and>
    free_chain i (upd_vd (info_b_update (\<lambda>f. f(i := None))) (served i b w (b_blockno (bufs s b)) pt u)) = Ok z \<and>
    vfree (vdisk z) = (\<lambda>x. x \<in> {i, j, k} \<or> vdfree s x) \<and>
    vd_only (upd_vd (info_b_update (\<lambda>f. f(i := None))) (served i b w (b_blockno (bufs s b)) pt u)) z"
proof -
  let ?n = "b_blockno (bufs s b)"
  have c: "chain3 (vdisk u) i j k" "vfree (vdisk u) = vdfree s" unfolding u_def using vd_submit_chain [OF ijk(1)] ijk(2) by auto
  have u: "held u = [Vdisk_lock]" "cur u = Some p" using s by (simp_all add: u_def vd_submit_sched)
  have "request (vdisk u) i b w ?n" unfolding u_def by (rule vd_submit_request) (use ijk s in auto)
  moreover have "info_b (vdisk u) i = Some b" "used_idx (vdisk u) = used_dev_idx (vused (vdisk u))"
    using s(4) by (simp_all add: u_def vd_submit_vdisk vd_idle_def)
  ultimately obtain pt where pt: "sleep (disk_wait dev) (Chan_buf b) Vdisk_lock u = Ok (served i b w ?n pt u)"
    using sleep_served [OF u s(3) d, of i b w ?n] ijk(2) by auto
  let ?t = "upd_vd (info_b_update (\<lambda>f. f(i := None))) (served i b w ?n pt u)"
  have v: "vdesc (vdisk ?t) = vdesc (vdisk u)" "vfree (vdisk ?t) = vdfree s" "no_proc_lock ?t"
    using u c(2) by (simp_all add: used_entry_def no_proc_lock_def upd_buf_def)
  then have "\<exists>z. free_chain i ?t = Ok z \<and> vfree (vdisk z) = (\<lambda>x. x \<in> {i, j, k} \<or> vdfree ?t x) \<and> vd_only ?t z"
    using c(1) ijk by (intro free_chain3) (simp_all add: chain3_def)
  then show ?thesis using pt v(2) by auto
qed

lemma virtio_disk_rw_eq:
  assumes "held s = []"
  shows "virtio_disk_rw b w s = Ok (upd_buf b (b_disk_update (\<lambda>_. False)) (transfer b w (b_blockno (bufs s b)) s))"
proof -
  have "virtio_disk_rw b w s = Ok ((upd_buf b (b_disk_update (\<lambda>_. False)) (transfer b w (b_blockno (bufs s b)) (s\<lparr>held := [Vdisk_lock]\<rparr>)))\<lparr>held := []\<rparr>)"
    using assms by (simp add: virtio_disk_rw_def Let_def transfer_def upd_buf_def)
  moreover have "(upd_buf b (b_disk_update (\<lambda>_. False)) (transfer b w (b_blockno (bufs s b)) (s\<lparr>held := [Vdisk_lock]\<rparr>)))\<lparr>held := []\<rparr> =
      upd_buf b (b_disk_update (\<lambda>_. False)) (transfer b w (b_blockno (bufs s b)) s)"
    by (rule virtio_st.equality) (use assms in \<open>simp_all add: upd_buf_def transfer_upd\<close>)
  ultimately show ?thesis by simp
qed

text \<open>The submission marks the buffer, and the completion takes the mark away: nothing else of the buffers is left of it.\<close>

lemma served_refines:
  assumes u: "u = vd_submit b w i j k t" and t: "t = upd_vd f (s\<lparr>held := l\<rparr>)" and h: "held s = []"
    and z: "vd_only (upd_vd g (served i b w n pt u)) z"
  shows "z\<lparr>held := [], vdisk := vdisk s, ptab := ptab s\<rparr> = upd_buf b (b_disk_update (\<lambda>_. False)) (transfer b w n s)"
proof -
  obtain d e pt' where "z = (upd_vd g (served i b w n pt u))\<lparr>vdisk := (vdisk (upd_vd g (served i b w n pt u)))\<lparr>vdesc := d, vfree := e\<rparr>, ptab := pt'\<rparr>"
    using z unfolding vd_only_def by blast
  then have z': "z\<lparr>held := [], vdisk := vdisk s, ptab := ptab s\<rparr> = (served i b w n pt u)\<lparr>held := [], vdisk := vdisk s, ptab := ptab s\<rparr>"
    by (auto intro!: virtio_st.equality simp: upd_vd_def)
  have "u = s\<lparr>held := l, bufs := (bufs s)(b := (bufs s b)\<lparr>b_disk := True\<rparr>), vdisk := vdisk u\<rparr>"
    unfolding u by (subst vd_submit_eq) (simp add: t upd_vd_def)
  then obtain v where "u = s\<lparr>held := l, bufs := (bufs s)(b := (bufs s b)\<lparr>b_disk := True\<rparr>), vdisk := v\<rparr>" by (rule that)
  then show ?thesis unfolding z' using h
    by (intro virtio_st.equality) (simp_all add: upd_buf_def transfer_def)
qed

lemma vd_rw_served:
  assumes s: "held s = []" "cur s = Some p" "p < NPROC" "vd_idle (vdisk s)" "3 \<le> card {i. i < VIRTIO_NUM \<and> vdfree s i}"
    "b_blockno (bufs s b) < 2 ^ 31" and d: "device_ok dev"
  shows "\<exists>t. vd_rw (disk_wait dev) b w s = Ok t \<and> virtio_disk_rw b w s = Ok (t\<lparr>vdisk := vdisk s, ptab := ptab s\<rparr>) \<and>
    vfree (vdisk t) = vdfree s \<and> vd_idle (vdisk t)"
proof -
  let ?s = "s\<lparr>held := [Vdisk_lock]\<rparr>" and ?n = "b_blockno (bufs s b)"
  obtain i j k t where a: "alloc3_desc ?s = Ok (Some [i, j, k], t)" and ijk: "distinct [i, j, k]" "\<forall>x \<in> {i, j, k}. x < VIRTIO_NUM \<and> vdfree ?s x"
    and t: "t = upd_vd (vfree_update (\<lambda>_ x. x \<notin> {i, j, k} \<and> vdfree ?s x)) ?s"
    using alloc3_desc_three [of ?s] s(5) by (auto simp: no_proc_lock_def)
  define u where "u = vd_submit b w i j k t"
  have t': "held t = [Vdisk_lock]" "cur t = Some p" "vd_idle (vdisk t)" "bufs t = bufs s" "\<forall>x \<in> {i, j, k}. x < VIRTIO_NUM \<and> \<not> vdfree t x"
    using s ijk by (simp_all add: t vd_idle_def)
  obtain pt z where pt: "sleep (disk_wait dev) (Chan_buf b) Vdisk_lock u = Ok (served i b w ?n pt u)" and
    z: "free_chain i (upd_vd (info_b_update (\<lambda>f. f(i := None))) (served i b w ?n pt u)) = Ok z"
      "vfree (vdisk z) = (\<lambda>x. x \<in> {i, j, k} \<or> vdfree t x)" "vd_only (upd_vd (info_b_update (\<lambda>f. f(i := None))) (served i b w ?n pt u)) z"
    using vd_rw_submitted [OF u_def t'(1,2) s(3) t'(3) _ d ijk(1) t'(5)] s(6) t'(4) by auto
  have z': "held z = [Vdisk_lock]" "vd_idle (vdisk z)" using z(3) t'(1,3)
    by (auto simp: vd_only_def u_def vd_submit_sched vd_submit_vdisk vd_idle_def used_entry_def upd_buf_def)
  have "vd_rw (disk_wait dev) b w s = Ok (z\<lparr>held := []\<rparr>)"
    using s(1) a vd_wait_done [OF _ pt] z(1) z'(1) t'(4)
    by (simp add: vd_rw_def loopr_unfold [of _ ?s] u_def [symmetric] upd_buf_def) (simp add: u_def vd_submit_sched)
  moreover have "virtio_disk_rw b w s = Ok (z\<lparr>held := [], vdisk := vdisk s, ptab := ptab s\<rparr>)"
    by (simp only: virtio_disk_rw_eq [OF s(1)] served_refines [OF u_def t s(1) z(3)])
  moreover have "vfree (vdisk z) = vdfree s" using z(2) ijk(2) by (auto simp: t)
  ultimately show ?thesis using z'(2) by simp
qed

section \<open>A device\<close>

definition device0 :: "'a virtio_st_scheme \<Rightarrow> 'a virtio_st_scheme" where
  "device0 s =
     (let v = vdisk s; h = unat (avail_ring (vavail v) (unat (used_dev_idx (vused v)) mod VIRTIO_NUM)); r = vops v h in
      case vd_addr (vdesc v (unat (vd_next (vdesc v h)))) of
        VData b \<Rightarrow> upd_vd (used_entry h) (transfer b (rq_type r = VIRTIO_BLK_T_OUT) (ucast (rq_sector r div 2)) s)
      | _ \<Rightarrow> s)"

lemma device0_ok: "device_ok device0"
proof -
  have "(ucast (2 * ucast n div 2 :: u64) :: u32) = n" for n
  proof -
    have n: "unat n < 2 ^ 32" using unsigned_less [of n] by simp
    then have "take_bit 64 (unat n) = unat n" by (simp add: take_bit_nat_eq_self)
    then have "unat (2 * ucast n :: u64) = 2 * unat n" using n by (simp add: unat_word_ariths unsigned_ucast_eq)
    then have "unat (2 * ucast n div 2 :: u64) = unat n" by (simp add: unat_div)
    then show ?thesis using n by (simp add: word_unat_eq_iff unsigned_ucast_eq take_bit_nat_eq_self)
  qed
  then show ?thesis by (auto simp: device_ok_def request_def device0_def Let_def)
qed

end
