(* ===== verification/Umalloc.thy ===== *)
theory Umalloc
  imports Xv6_Prelude
begin

text \<open>
  The user allocator (\<^verbatim>\<open>user/umalloc.c\<close>). Addresses are natural numbers: a user address stays below \<^verbatim>\<open>MAXVA\<close>, so pointer
  arithmetic does not wrap; a size is an \<^verbatim>\<open>uint\<close>, with its wrap-around written out. \<open>B\<close> is the address of \<^verbatim>\<open>base\<close>, and
  \<open>sbrk n b\<close> is the new break the kernel grants when the break is \<open>b\<close>, if it does.
\<close>

section \<open>Operations\<close>

abbreviation (input) HDR :: nat where "HDR \<equiv> 16"

record uheap =
  h_ptr :: "nat \<Rightarrow> nat"
  h_size :: "nat \<Rightarrow> nat"
  freep :: nat
  brk :: nat

definition set_ptr :: "nat \<Rightarrow> nat \<Rightarrow> uheap \<Rightarrow> uheap" where
  "set_ptr p v h = h\<lparr>h_ptr := (h_ptr h)(p := v)\<rparr>"

definition set_size :: "nat \<Rightarrow> nat \<Rightarrow> uheap \<Rightarrow> uheap" where
  "set_size p v h = h\<lparr>h_size := (h_size h)(p := v mod 2 ^ 32)\<rparr>"

text \<open>One turn of the loop of \<^verbatim>\<open>free\<close>: the next block, or the block to insert after.\<close>

definition free_step :: "uheap \<Rightarrow> nat \<Rightarrow> nat \<Rightarrow> (nat + nat) res" where
  "free_step h bp p =
     (if bp > p \<and> bp < h_ptr h p then Ok (Inr p)
      else if p \<ge> h_ptr h p \<and> (bp > p \<or> bp < h_ptr h p) then Ok (Inr p)
      else Ok (Inl (h_ptr h p)))"

definition u_free :: "nat \<Rightarrow> uheap \<Rightarrow> uheap res" where
  "u_free ap h =
     (let bp = ap - HDR in
      bindr (loopr (free_step h bp) (freep h)) (\<lambda>p.
      let nxt = h_ptr h p;
          h = (if bp + HDR * h_size h bp = nxt
               then set_ptr bp (h_ptr h nxt) (set_size bp (h_size h bp + h_size h nxt) h)
               else set_ptr bp nxt h);
          h = (if p + HDR * h_size h p = bp
               then set_ptr p (h_ptr h bp) (set_size p (h_size h p + h_size h bp) h)
               else set_ptr p bp h) in
      Ok (h\<lparr>freep := p\<rparr>)))"

text \<open>The argument of \<^verbatim>\<open>sbrk\<close> is an \<^verbatim>\<open>int\<close>.\<close>

definition morecore :: "(int \<Rightarrow> nat \<Rightarrow> nat option) \<Rightarrow> nat \<Rightarrow> uheap \<Rightarrow> (nat \<times> uheap) res" where
  "morecore sbrk nu h =
     (let nu = (if nu < 4096 then 4096 else nu) in
      case sbrk (sint (word_of_nat (nu * HDR) :: u32)) (brk h) of
        None \<Rightarrow> Ok (0, h)
      | Some b \<Rightarrow>
          let hp = brk h in
          bindr (u_free (hp + HDR) (set_size hp nu (h\<lparr>brk := b\<rparr>))) (\<lambda>h. Ok (freep h, h)))"

definition nunits :: "nat \<Rightarrow> nat" where
  "nunits nbytes = ((nbytes + HDR - 1) div HDR + 1) mod 2 ^ 32"

text \<open>Taking \<open>n\<close> units from the block \<open>p\<close>, which is large enough.\<close>

definition take_units :: "nat \<Rightarrow> nat \<Rightarrow> nat \<Rightarrow> uheap \<Rightarrow> nat \<times> uheap" where
  "take_units n prevp p h =
     (let (p, h) = (if h_size h p = n then (p, set_ptr prevp (h_ptr h p) h)
                    else
                      let h = set_size p (h_size h p - n) h; q = p + HDR * h_size h p in
                      (q, set_size q n h)) in
      (p + HDR, h\<lparr>freep := prevp\<rparr>))"

definition malloc_step :: "(int \<Rightarrow> nat \<Rightarrow> nat option) \<Rightarrow> nat \<Rightarrow> nat \<times> nat \<times> uheap \<Rightarrow> (nat \<times> nat \<times> uheap + nat \<times> uheap) res" where
  "malloc_step sbrk n = (\<lambda>(prevp, p, h).
     if h_size h p \<ge> n then Ok (Inr (take_units n prevp p h))
     else if p = freep h then
       bindr (morecore sbrk n h) (\<lambda>(p, h).
       if p = 0 then Ok (Inr (0, h)) else Ok (Inl (p, h_ptr h p, h)))
     else Ok (Inl (p, h_ptr h p, h)))"

definition malloc :: "nat \<Rightarrow> (int \<Rightarrow> nat \<Rightarrow> nat option) \<Rightarrow> nat \<Rightarrow> uheap \<Rightarrow> (nat \<times> uheap) res" where
  "malloc B sbrk nbytes h =
     (let n = nunits nbytes;
          h = (if freep h = 0 then set_size B 0 (set_ptr B B (h\<lparr>freep := B\<rparr>)) else h) in
      loopr (malloc_step sbrk n) (freep h, h_ptr h (freep h), h))"

section \<open>The free list\<close>

fun path :: "('a \<Rightarrow> 'a) \<Rightarrow> 'a list \<Rightarrow> 'a \<Rightarrow> bool" where
  "path f [] b \<longleftrightarrow> True"
| "path f (x # xs) b \<longleftrightarrow> f x = hd (xs @ [b]) \<and> path f xs b"

lemma path_append: "path f (xs @ ys) b \<longleftrightarrow> path f xs (hd (ys @ [b])) \<and> path f ys b"
  by (induction xs) (auto simp: hd_append)

lemma path_upd [simp]: "x \<notin> set xs \<Longrightarrow> path (f(x := v)) xs b \<longleftrightarrow> path f xs b"
  by (induction xs) auto

text \<open>
  Blocks in \<open>S\<close> are not empty, lie between the first break and the current one, and do not overlap. \<open>X\<close> are the free blocks in the order
  of their addresses, \<open>A\<close> the allocated ones; no free block ends where another starts.
\<close>

definition blocks_ok :: "(nat \<Rightarrow> nat) \<Rightarrow> nat set \<Rightarrow> nat \<Rightarrow> nat \<Rightarrow> bool" where
  "blocks_ok sz S lo hi \<longleftrightarrow> (\<forall>a \<in> S. 0 < sz a \<and> lo \<le> a \<and> a + HDR * sz a \<le> hi) \<and>
     (\<forall>a \<in> S. \<forall>b \<in> S. a < b \<longrightarrow> a + HDR * sz a \<le> b)"

definition apart :: "(nat \<Rightarrow> nat) \<Rightarrow> nat set \<Rightarrow> bool" where
  "apart sz F \<longleftrightarrow> (\<forall>a \<in> F. \<forall>b \<in> F. a + HDR * sz a \<noteq> b)"

definition heap_inv :: "nat \<Rightarrow> nat \<Rightarrow> nat list \<Rightarrow> nat set \<Rightarrow> uheap \<Rightarrow> bool" where
  "heap_inv B lo xs A h \<longleftrightarrow>
     0 < B \<and> B < lo \<and> lo \<le> brk h \<and> brk h \<le> 2 ^ 36 \<and> h_size h B = 0 \<and>
     path (h_ptr h) (B # xs) B \<and> sorted_wrt (<) (B # xs) \<and> freep h \<in> set (B # xs) \<and>
     set xs \<inter> A = {} \<and> blocks_ok (h_size h) (set xs \<union> A) lo (brk h) \<and> apart (h_size h) (set xs)"

section \<open>Merging and splitting blocks\<close>

lemma blocks_okD:
  assumes "blocks_ok sz S lo hi"
  shows "a \<in> S \<Longrightarrow> 0 < sz a" "a \<in> S \<Longrightarrow> lo \<le> a" "a \<in> S \<Longrightarrow> a + HDR * sz a \<le> hi"
    "a \<in> S \<Longrightarrow> b \<in> S \<Longrightarrow> a < b \<Longrightarrow> a + HDR * sz a \<le> b"
  using assms by (auto simp: blocks_ok_def)

lemma blocks_merge:
  assumes ok: "blocks_ok sz S lo hi" and ab: "a \<in> S" "b \<in> S" "a + HDR * sz a = b"
  shows "blocks_ok (sz(a := sz a + sz b)) (S - {b}) lo hi"
proof -
  note D = blocks_okD [OF ok]
  have "c + HDR * (sz(a := sz a + sz b)) c \<le> d" if "c \<in> S - {b}" "d \<in> S - {b}" "c < d" for c d
    using that D(4) [of c d] D(4) [of b d] ab by (cases "c = a") auto
  moreover have "c + HDR * (sz(a := sz a + sz b)) c \<le> hi" if "c \<in> S - {b}" for c
    using that D(3) [of c] D(3) [of b] ab by (cases "c = a") auto
  ultimately show ?thesis using D(1,2) by (auto simp: blocks_ok_def)
qed

lemma blocks_split:
  assumes ok: "blocks_ok sz S lo hi" and z: "z \<in> S" "0 < n" "n < sz z" and q: "q = z + HDR * (sz z - n)"
  shows "blocks_ok (sz(z := sz z - n, q := n)) (insert q S) lo hi" "q \<notin> S"
proof -
  note D = blocks_okD [OF ok]
  have e: "q + HDR * n = z + HDR * sz z" "z < q" using z q by simp_all
  show q: "q \<notin> S" using D(4) [OF z(1), of q] e z by auto
  let ?sz = "sz(z := sz z - n, q := n)"
  have le: "c + HDR * ?sz c \<le> d" if cd: "c \<in> insert q S" "d \<in> insert q S" "c < d" for c d
  proof (cases "c = q")
    case True
    then have "d \<in> S" "z < d" using cd e by auto
    then show ?thesis using D(4) [OF z(1)] e True by fastforce
  next
    case False
    then have c: "c \<in> S" using cd by simp
    have "c + HDR * sz c \<le> z" if "d = q" "c \<noteq> z"
      using D(4) [OF c z(1)] D(4) [OF z(1) c] that cd(3) e by linarith
    moreover have "z + HDR * sz z \<le> d" if "d \<noteq> q" "c = z" using D(4) [OF z(1)] that cd by simp
    moreover have "c + HDR * sz c \<le> d" if "d \<noteq> q" using D(4) [OF c] that cd by simp
    ultimately show ?thesis using False e q cd(3) assms(5) by (cases "d = q"; cases "c = z") auto
  qed
  have hi: "c + HDR * ?sz c \<le> hi" if "c \<in> insert q S" for c
    using that D(3) [of c] D(3) [OF z(1)] e z(3) by (cases "c = q"; cases "c = z") auto
  have lo: "0 < ?sz c \<and> lo \<le> c" if "c \<in> insert q S" for c
    using that D(1,2) [of c] D(2) [OF z(1)] e z by (cases "c = q"; cases "c = z") auto
  show "blocks_ok ?sz (insert q S) lo hi" unfolding blocks_ok_def using le hi lo by blast
qed

lemma blocks_new:
  assumes ok: "blocks_ok sz S lo hi" and k: "lo \<le> hi" "0 < k"
  shows "hi \<notin> S" "blocks_ok (sz(hi := k)) (insert hi S) lo (hi + HDR * k)"
proof -
  note D = blocks_okD [OF ok]
  show hi: "hi \<notin> S" using D(1,3) [of hi] by auto
  have lt: "c + HDR * sz c \<le> hi \<and> c < hi \<and> 0 < sz c \<and> lo \<le> c" if "c \<in> S" for c using D(1-3) [OF that] by auto
  have "c + HDR * (sz(hi := k)) c \<le> d" if "c \<in> insert hi S" "d \<in> insert hi S" "c < d" for c d
    using that lt [of c] lt [of d] D(4) [of c d] by (cases "c = hi"; cases "d = hi") auto
  moreover have "0 < (sz(hi := k)) c \<and> lo \<le> c \<and> c + HDR * (sz(hi := k)) c \<le> hi + HDR * k" if "c \<in> insert hi S" for c
    using that lt [of c] k by (cases "c = hi") auto
  ultimately show "blocks_ok (sz(hi := k)) (insert hi S) lo (hi + HDR * k)" unfolding blocks_ok_def by blast
qed

section \<open>Walking the list\<close>

lemma path_next:
  "path f xs b \<Longrightarrow> sorted_wrt (<) xs \<Longrightarrow> z \<in> set xs \<Longrightarrow> f z = b \<or> f z \<in> set xs \<and> z < f z"
proof (induction xs)
  case (Cons x xs)
  then show ?case by (cases xs) auto
qed simp

lemma walk:
  assumes "path f zs b" "\<And>z. z \<in> set zs \<Longrightarrow> step z = Ok (Inl (f z))"
  shows "loopr step (hd (zs @ [b])) = loopr step b"
  using assms
proof (induction zs)
  case (Cons z zs)
  then show ?case by (simp add: loopr_unfold [of step z])
qed simp

lemma sorted_pred:
  fixes B :: nat
  assumes s: "sorted_wrt (<) (B # xs)" and b: "B < bp" "bp \<notin> set xs"
  obtains ps p vs where "B # xs = ps @ p # vs" "\<forall>x \<in> set (ps @ [p]). x < bp" "\<forall>x \<in> set vs. bp < x"
proof -
  define us vs where "us = takeWhile (\<lambda>x. x < bp) (B # xs)" and "vs = dropWhile (\<lambda>x. x < bp) (B # xs)"
  then have uv: "us @ vs = B # xs" "\<forall>x \<in> set us. x < bp" "us \<noteq> []" using b by (auto dest: set_takeWhileD)
  then have e: "B # xs = butlast us @ last us # vs" by (metis append_butlast_last_id append_Cons append_Nil append_assoc)
  have l: "\<forall>x \<in> set (butlast us @ [last us]). x < bp" using uv(2,3) by simp
  have "\<forall>x \<in> set vs. bp < x"
  proof (cases vs)
    case (Cons v ws)
    then have "\<not> v < bp" using hd_dropWhile [of "\<lambda>x. x < bp" "B # xs"] by (auto simp: vs_def)
    moreover have "v \<in> set (B # xs)" using Cons uv(1) by (metis in_set_conv_decomp)
    ultimately have v: "bp < v" using b by (cases "v = bp") auto
    have "sorted_wrt (<) vs" using s uv(1) by (metis sorted_wrt_append)
    then show ?thesis using Cons v by auto
  qed simp
  with that e l show thesis by blast
qed

lemma free_search:
  assumes r: "path (h_ptr h) (ps @ p # vs) B" "sorted_wrt (<) (ps @ p # vs)" "hd (ps @ [p]) = B"
    and b: "\<forall>x \<in> set (ps @ [p]). x < bp" "\<forall>x \<in> set vs. bp < x" and st: "st \<in> set (ps @ p # vs)"
  shows "loopr (free_step h bp) st = Ok p"
proof -
  let ?f = "h_ptr h"
  have P: "path ?f ps p" "?f p = hd (vs @ [B])" "path ?f vs B" using r(1) by (simp_all add: path_append)
  have so: "sorted_wrt (<) ps" "sorted_wrt (<) vs" "\<forall>x \<in> set ps. x < p" using r(2) by (auto simp: sorted_wrt_append)
  have B: "B \<le> p" "B < bp" using r(3) so(3) b(1) by (cases ps; auto)+
  have stop: "free_step h bp p = Ok (Inr p)" using P(2) b B by (cases vs) (auto simp: free_step_def)
  have goP: "free_step h bp z = Ok (Inl (?f z))" if "z \<in> set ps" for z
    using path_next [OF P(1) so(1) that] so(3) that b(1) by (auto simp: free_step_def)
  have goV: "free_step h bp z = Ok (Inl (?f z))" if "z \<in> set vs" for z
    using path_next [OF P(3) so(2) that] that b(2) B by (auto simp: free_step_def)
  have p: "loopr (free_step h bp) p = Ok p" using stop by (simp add: loopr_unfold [of _ p])
  have "loopr (free_step h bp) B = loopr (free_step h bp) p" using walk [OF P(1) goP] r(3) by simp
  moreover have "loopr (free_step h bp) st = loopr (free_step h bp) p" if stp: "st \<in> set ps"
  proof -
    obtain p1 p2 where e: "ps = p1 @ st # p2" using split_list [OF stp] by blast
    then have "path ?f (st # p2) p" using P(1) by (simp add: path_append)
    then have "loopr (free_step h bp) (hd ((st # p2) @ [p])) = loopr (free_step h bp) p" by (rule walk) (use goP e in auto)
    then show ?thesis by simp
  qed
  moreover have "loopr (free_step h bp) st = loopr (free_step h bp) B" if stp: "st \<in> set vs"
  proof -
    obtain p1 p2 where e: "vs = p1 @ st # p2" using split_list [OF stp] by blast
    then have "path ?f (st # p2) B" using P(3) by (simp add: path_append)
    then have "loopr (free_step h bp) (hd ((st # p2) @ [B])) = loopr (free_step h bp) B" by (rule walk) (use goV e in auto)
    then show ?thesis by simp
  qed
  ultimately show ?thesis using st p by auto
qed

section \<open>Free\<close>

text \<open>The block \<open>a\<close> between \<open>p\<close> and \<open>ws\<close>, linked to \<open>ws\<close> and merged with it if possible, but not yet linked from \<open>p\<close>.\<close>

definition half_linked :: "nat \<Rightarrow> nat \<Rightarrow> nat list \<Rightarrow> nat \<Rightarrow> nat list \<Rightarrow> nat \<Rightarrow> nat set \<Rightarrow> uheap \<Rightarrow> bool" where
  "half_linked B lo ps p ws a A h \<longleftrightarrow>
     0 < B \<and> B < lo \<and> lo \<le> brk h \<and> brk h \<le> 2 ^ 36 \<and> h_size h B = 0 \<and> hd (ps @ [p]) = B \<and>
     path (h_ptr h) ps p \<and> h_ptr h a = hd (ws @ [B]) \<and> path (h_ptr h) ws B \<and> sorted_wrt (<) (ps @ p # a # ws) \<and>
     set (ps @ p # a # ws) \<inter> A = {} \<and> blocks_ok (h_size h) ((set (ps @ p # a # ws) - {B}) \<union> A) lo (brk h) \<and>
     apart (h_size h) (set (ps @ p # ws) - {B}) \<and> (\<forall>c \<in> set ws. a + HDR * h_size h a \<noteq> c)"

lemma set_simps [simp]:
  "h_ptr (set_ptr p v h) = (h_ptr h)(p := v)" "h_size (set_ptr p v h) = h_size h" "freep (set_ptr p v h) = freep h"
  "brk (set_ptr p v h) = brk h" "h_ptr (set_size p v h) = h_ptr h" "h_size (set_size p v h) = (h_size h)(p := v mod 2 ^ 32)"
  "freep (set_size p v h) = freep h" "brk (set_size p v h) = brk h"
  by (simp_all add: set_ptr_def set_size_def)

lemma merged_size:
  assumes "blocks_ok sz S lo hi" "a \<in> S" "b \<in> S" "a + HDR * sz a = b" "hi \<le> 2 ^ 36" "0 < lo"
  shows "(sz a + sz b) mod 2 ^ 32 = sz a + sz b"
  using blocks_okD(2,3) [OF assms(1)] assms(2-6) by (intro mod_less) fastforce

text \<open>What is known of a used block \<open>a\<close> and its place in the free list, behind \<open>p\<close> and before \<open>vs\<close>.\<close>

lemma insert_pos:
  assumes inv: "heap_inv B lo xs A h" and a: "a \<in> A" and l: "B # xs = ps @ p # vs"
    and o: "\<forall>x \<in> set (ps @ [p]). x < a" "\<forall>x \<in> set vs. a < x"
  shows "0 < B" "B < lo" "lo \<le> brk h" "brk h \<le> 2 ^ 36" "h_size h B = 0" "sorted_wrt (<) (ps @ p # vs)" "set xs \<inter> A = {}"
    "blocks_ok (h_size h) (set xs \<union> A) lo (brk h)" "apart (h_size h) (set xs)" "hd (ps @ [p]) = B" "set xs = set (ps @ p # vs) - {B}"
    "p \<noteq> a" "a \<notin> set ps" "a \<notin> set vs" "a \<noteq> B" "a \<notin> set xs" "lo \<le> a" "B \<notin> A"
    "path (h_ptr h) ps p" "h_ptr h p = hd (vs @ [B])" "path (h_ptr h) vs B"
proof -
  show I: "0 < B" "B < lo" "lo \<le> brk h" "brk h \<le> 2 ^ 36" "h_size h B = 0" "sorted_wrt (<) (ps @ p # vs)" "set xs \<inter> A = {}"
    and bl: "blocks_ok (h_size h) (set xs \<union> A) lo (brk h)" and "apart (h_size h) (set xs)"
    using inv l by (simp_all add: heap_inv_def)
  show "hd (ps @ [p]) = B" using l by (cases ps) auto
  have B: "B \<notin> set xs" using inv by (auto simp: heap_inv_def)
  show "set xs = set (ps @ p # vs) - {B}" using l B by (metis insert_Diff_single Diff_insert_absorb list.simps(15))
  show la: "lo \<le> a" using blocks_okD(2) [OF bl] a by simp
  show "p \<noteq> a" "a \<notin> set ps" "a \<notin> set vs" "a \<noteq> B" "a \<notin> set xs" using o a I(7) la I(2) by auto
  show "B \<notin> A" using blocks_okD(2) [OF bl, of B] I(2) by auto
  have "path (h_ptr h) (ps @ p # vs) B" using inv l by (simp add: heap_inv_def)
  then show "path (h_ptr h) ps p" "h_ptr h p = hd (vs @ [B])" "path (h_ptr h) vs B" by (simp_all add: path_append)
qed

lemma insert_sorted:
  fixes a :: nat
  assumes "sorted_wrt (<) (ps @ p # vs)" "\<forall>x \<in> set (ps @ [p]). x < a" "\<forall>x \<in> set vs. a < x" "set ws \<subseteq> set vs" "sorted_wrt (<) ws"
  shows "sorted_wrt (<) (ps @ p # a # ws)"
  using assms by (fastforce simp: sorted_wrt_append)

text \<open>The block does not reach the next free one: it is only linked.\<close>

lemma link_right:
  assumes inv: "heap_inv B lo xs A h" and a: "a \<in> A" and l: "B # xs = ps @ p # vs"
    and o: "\<forall>x \<in> set (ps @ [p]). x < a" "\<forall>x \<in> set vs. a < x" and n: "a + HDR * h_size h a \<noteq> h_ptr h p"
  shows "half_linked B lo ps p vs a (A - {a}) (set_ptr a (h_ptr h p) h)"
proof -
  note F = insert_pos [OF inv a l o]
  have far: "a + HDR * h_size h a \<noteq> c" if cv: "c \<in> set vs" for c
  proof -
    obtain v vs' where v: "vs = v # vs'" using cv by (cases vs) auto
    have "v \<le> c" using F(6) cv v by (auto simp: sorted_wrt_append)
    moreover have "v \<in> set xs" "a < v" using F(11) v o(2) F(17) F(2) by auto
    then have "a + HDR * h_size h a \<le> v" using blocks_okD(4) [OF F(8), of a v] a by simp
    ultimately show ?thesis using n F(20) v by auto
  qed
  have S: "(set (ps @ p # a # vs) - {B}) \<union> (A - {a}) = set xs \<union> A" using F(11,15) a by auto
  have so: "sorted_wrt (<) (ps @ p # a # vs)" by (rule insert_sorted [OF F(6) o]) (use F(6) in \<open>auto simp: sorted_wrt_append\<close>)
  show ?thesis unfolding half_linked_def S using far F so by (auto simp: sorted_wrt_append)
qed

text \<open>It reaches the next free block, which it swallows.\<close>

lemma swallow_right:
  assumes inv: "heap_inv B lo xs A h" and a: "a \<in> A" and l: "B # xs = ps @ p # v # ws"
    and o: "\<forall>x \<in> set (ps @ [p]). x < a" "\<forall>x \<in> set (v # ws). a < x" and v: "a + HDR * h_size h a = v"
    and h1: "h1 = set_ptr a (h_ptr h v) (set_size a (h_size h a + h_size h v) h)"
  shows "half_linked B lo ps p ws a (A - {a}) h1" "h_size h1 = (h_size h)(a := h_size h a + h_size h v)"
proof -
  note F = insert_pos [OF inv a l o]
  have vx: "v \<in> set xs" "B \<noteq> v" using F(2,11,17) o(2) by auto
  show sz: "h_size h1 = (h_size h)(a := h_size h a + h_size h v)"
    using merged_size [OF F(8) _ _ v F(4)] a vx F(1,2) by (simp add: h1)
  have dis: "v \<notin> set ps" "v \<noteq> p" "v \<notin> set ws" using F(6) by (auto simp: sorted_wrt_append)
  have vn: "v \<notin> A" "v \<noteq> a" using vx(1) F(7) o(2) by auto
  have "set xs = insert v (set (ps @ p # ws) - {B})" using vx(2) by (simp add: F(11)) blast
  then have S: "(set (ps @ p # a # ws) - {B}) \<union> (A - {a}) = (set xs \<union> A) - {v}" using F(15) a vn dis by simp blast
  have "blocks_ok (h_size h1) ((set xs \<union> A) - {v}) lo (brk h)" unfolding sz by (rule blocks_merge [OF F(8)]) (use a vx v vn in auto)
  moreover have "a + HDR * h_size h1 a \<noteq> c" if "c \<in> set ws" for c
  proof -
    have "c \<in> set xs" using F(2,11,17) o(2) that by auto
    then have "v + HDR * h_size h v \<noteq> c" using F(9) vx(1) by (simp add: apart_def)
    then show ?thesis using v by (simp add: sz)
  qed
  moreover have "apart (h_size h1) (set (ps @ p # ws) - {B})"
  proof -
    have "set (ps @ p # ws) - {B} \<subseteq> set xs - {a}" using F(11-14) by auto
    then show ?thesis using F(9) by (auto simp: apart_def sz)
  qed
  moreover have "path (h_ptr h1) ps p" "path (h_ptr h1) ws B" "h_ptr h1 a = hd (ws @ [B])" "brk h1 = brk h" "h_size h1 B = 0"
    using F(5,13-15,19,21) by (simp_all add: h1)
  moreover have "sorted_wrt (<) (ps @ p # a # ws)" by (rule insert_sorted [OF F(6) o]) (use F(6) in \<open>auto simp: sorted_wrt_append\<close>)
  ultimately show "half_linked B lo ps p ws a (A - {a}) h1"
    unfolding half_linked_def S using F(1-4,7,10,11,18) by auto
qed

lemma merge_right:
  assumes inv: "heap_inv B lo xs A h" and a: "a \<in> A" and l: "B # xs = ps @ p # vs"
    and o: "\<forall>x \<in> set (ps @ [p]). x < a" "\<forall>x \<in> set vs. a < x"
  defines "h1 \<equiv> (if a + HDR * h_size h a = h_ptr h p
               then set_ptr a (h_ptr h (h_ptr h p)) (set_size a (h_size h a + h_size h (h_ptr h p)) h)
               else set_ptr a (h_ptr h p) h)"
  shows "\<exists>ws. half_linked B lo ps p ws a (A - {a}) h1 \<and> set ws \<subseteq> set vs \<and> h_size h a \<le> h_size h1 a \<and> brk h1 = brk h \<and>
    (\<forall>c. c \<noteq> a \<longrightarrow> h_size h1 c = h_size h c)"
proof (cases "a + HDR * h_size h a = h_ptr h p")
  case False
  then show ?thesis using link_right [OF inv a l o] by (intro exI [of _ vs]) (simp add: h1_def)
next
  case True
  note F = insert_pos [OF inv a l o]
  have "vs \<noteq> []" using True F(2,17,20) by auto
  then obtain v ws where v: "vs = v # ws" "a + HDR * h_size h a = v" "h_ptr h p = v" using True F(20) by (cases vs) auto
  have e: "h1 = set_ptr a (h_ptr h v) (set_size a (h_size h a + h_size h v) h)" using v by (simp add: h1_def)
  have "half_linked B lo ps p ws a (A - {a}) h1" "h_size h1 = (h_size h)(a := h_size h a + h_size h v)"
    by (rule swallow_right [OF inv a l [unfolded v(1)] o(1) o(2) [unfolded v(1)] v(2) e])+
  moreover have "brk h1 = brk h" by (simp add: e)
  ultimately show ?thesis using v(1) by (intro exI [of _ ws]) auto
qed

lemma half_linkedD:
  assumes "half_linked B lo ps p ws a A h"
  shows "0 < B" "B < lo" "lo \<le> brk h" "brk h \<le> 2 ^ 36" "h_size h B = 0" "hd (ps @ [p]) = B"
    "path (h_ptr h) ps p" "h_ptr h a = hd (ws @ [B])" "path (h_ptr h) ws B" "sorted_wrt (<) (ps @ p # a # ws)"
    "set (ps @ p # a # ws) \<inter> A = {}" "blocks_ok (h_size h) ((set (ps @ p # a # ws) - {B}) \<union> A) lo (brk h)"
    "apart (h_size h) (set (ps @ p # ws) - {B})" "\<And>c. c \<in> set ws \<Longrightarrow> a + HDR * h_size h a \<noteq> c"
  using assms unfolding half_linked_def by blast+

text \<open>Only \<open>p\<close> can end where \<open>a\<close> starts.\<close>

lemma half_linked_apart:
  assumes hl: "half_linked B lo ps p ws a A h" and p: "p + HDR * h_size h p \<noteq> a"
  shows "apart (h_size h) (set (ps @ p # a # ws) - {B})"
  unfolding apart_def
proof (intro ballI)
  note H = half_linkedD [OF hl]
  note D = blocks_okD [OF H(12)]
  have so: "\<forall>x \<in> set ps. x < p" "p < a" "\<forall>x \<in> set ws. a < x" "\<forall>x \<in> set ps. x < a"
    using H(10) by (auto simp: sorted_wrt_append)
  have aB: "a \<noteq> B" using so H(6) by (cases ps) auto
  fix c d assume c: "c \<in> set (ps @ p # a # ws) - {B}" and d: "d \<in> set (ps @ p # a # ws) - {B}"
  show "c + HDR * h_size h c \<noteq> d"
  proof (cases "c = a")
    case True
    have "d \<in> set ws \<or> d \<le> a" using d so by auto
    then show ?thesis using H(14) [of d] D(1) [of a] aB True by auto
  next
    case ca: False
    show ?thesis
    proof (cases "d = a")
      case False
      then show ?thesis using ca c d H(13) by (simp add: apart_def)
    next
      case True
      have "c \<in> set ps \<longrightarrow> p \<noteq> B" using H(6) so(1) by (cases ps) auto
      then have "c \<in> set ps \<longrightarrow> c + HDR * h_size h c \<le> p" using D(4) [of c p] c so(1) by simp
      moreover have "c \<in> set ps \<or> c = p \<or> a < c" using c ca so by auto
      ultimately show ?thesis using p so(2) True by auto
    qed
  qed
qed

lemma merge_left:
  assumes hl: "half_linked B lo ps p ws a A h"
  defines "h2 \<equiv> (if p + HDR * h_size h p = a then set_ptr p (h_ptr h a) (set_size p (h_size h p + h_size h a) h) else set_ptr p a h)"
  shows "\<exists>xs. heap_inv B lo xs A (h2\<lparr>freep := p\<rparr>) \<and> (\<exists>x \<in> set xs. h_size h a \<le> h_size h2 x) \<and> (\<forall>c \<in> A. h_size h2 c = h_size h c) \<and> brk h2 = brk h"
proof -
  note H = half_linkedD [OF hl]
  note D = blocks_okD [OF H(12)]
  have so: "\<forall>x \<in> set ps. x < p" "p < a" "\<forall>x \<in> set ws. a < x" "\<forall>x \<in> set ps. x < a" "p \<notin> set ps" "p \<notin> set ws" "a \<notin> set ps" "a \<notin> set ws"
    "sorted_wrt (<) (ps @ p # ws)"
    using H(10) by (auto simp: sorted_wrt_append)
  have aB: "a \<noteq> B" using so H(6) by (cases ps) auto
  have tl: "B # tl (ps @ p # zs) = ps @ p # zs" for zs using H(6) by (cases ps) auto
  have nB: "B \<notin> set (tl (ps @ p # zs))" if "sorted_wrt (<) (ps @ p # zs)" for zs using that tl [of zs] by (metis not_less_iff_gr_or_eq sorted_wrt.simps(2))
  have st: "set (tl (ps @ p # zs)) = set (ps @ p # zs) - {B}" if "sorted_wrt (<) (ps @ p # zs)" for zs
    using nB [OF that] tl [of zs] by (metis Diff_insert_absorb list.simps(15))
  have pA: "p \<notin> A" "a \<notin> A" using H(11) by auto
  show ?thesis
  proof (cases "p + HDR * h_size h p = a")
    case False
    have "heap_inv B lo (tl (ps @ p # a # ws)) A (h2\<lparr>freep := p\<rparr>)"
      unfolding heap_inv_def tl st [OF H(10)]
      using H(1-12) half_linked_apart [OF hl False] so False by (auto simp: h2_def path_append)
    moreover have "a \<in> set (tl (ps @ p # a # ws))" using st [OF H(10)] aB by simp
    ultimately show ?thesis using False by (intro exI [of _ "tl (ps @ p # a # ws)"] conjI bexI [of _ a]) (simp_all add: h2_def)
  next
    case True
    then have pB: "p \<noteq> B" using H(5) so(2) by auto
    have sz: "h_size h2 = (h_size h)(p := h_size h p + h_size h a)"
      using merged_size [OF H(12) _ _ True H(4)] pB aB True H(1,2) by (simp add: h2_def)
    have S: "(set (ps @ p # ws) - {B}) \<union> A = ((set (ps @ p # a # ws) - {B}) \<union> A) - {a}" using so pA(2) by auto
    have bl: "blocks_ok (h_size h2) ((set (ps @ p # ws) - {B}) \<union> A) lo (brk h)"
      unfolding S sz by (rule blocks_merge [OF H(12)]) (use pB aB True in auto)
    have "p + HDR * h_size h2 p \<noteq> d" if "d \<in> set (ps @ p # ws)" for d
      using that H(14) [of d] so(1,2) True by (fastforce simp: sz)
    then have "apart (h_size h2) (set (ps @ p # ws) - {B})" using H(13) by (auto simp: apart_def sz)
    then have "heap_inv B lo (tl (ps @ p # ws)) A (h2\<lparr>freep := p\<rparr>)"
      unfolding heap_inv_def tl st [OF so(9)]
      using H(1-11) bl so sz True by (auto simp: h2_def path_append)
    moreover have "p \<in> set (tl (ps @ p # ws))" using st [OF so(9)] pB by simp
    ultimately show ?thesis using True sz pA by (intro exI [of _ "tl (ps @ p # ws)"] conjI bexI [of _ p]) (auto simp: h2_def)
  qed
qed

lemma u_free_spec:
  assumes inv: "heap_inv B lo xs A h" and a: "a \<in> A"
  shows "\<exists>xs' h'. u_free (a + HDR) h = Ok h' \<and> heap_inv B lo xs' (A - {a}) h' \<and> (\<exists>x \<in> set xs'. h_size h a \<le> h_size h' x) \<and>
    (\<forall>c \<in> A - {a}. h_size h' c = h_size h c) \<and> brk h' = brk h"
proof -
  have I: "sorted_wrt (<) (B # xs)" "path (h_ptr h) (B # xs) B" "freep h \<in> set (B # xs)" "set xs \<inter> A = {}" "B < lo"
    "blocks_ok (h_size h) (set xs \<union> A) lo (brk h)" using inv by (simp_all add: heap_inv_def)
  have "B < a" "a \<notin> set xs" using blocks_okD(2) [OF I(6)] a I(4,5) by fastforce+
  then obtain ps p vs where l: "B # xs = ps @ p # vs" "\<forall>x \<in> set (ps @ [p]). x < a" "\<forall>x \<in> set vs. a < x"
    using sorted_pred [OF I(1)] by metis
  have "hd (ps @ [p]) = B" using l(1) by (cases ps) auto
  then have s: "loopr (free_step h a) (freep h) = Ok p" using free_search [OF _ _ _ l(2,3)] I(1-3) l(1) by simp
  let ?h1 = "if a + HDR * h_size h a = h_ptr h p
     then set_ptr a (h_ptr h (h_ptr h p)) (set_size a (h_size h a + h_size h (h_ptr h p)) h) else set_ptr a (h_ptr h p) h"
  obtain ws where 1: "half_linked B lo ps p ws a (A - {a}) ?h1" "h_size h a \<le> h_size ?h1 a" "brk ?h1 = brk h"
    "\<forall>c. c \<noteq> a \<longrightarrow> h_size ?h1 c = h_size h c" using merge_right [OF inv a l] by blast
  define h1 where "h1 = ?h1"
  let ?h2 = "if p + HDR * h_size h1 p = a then set_ptr p (h_ptr h1 a) (set_size p (h_size h1 p + h_size h1 a) h1) else set_ptr p a h1"
  obtain xs' where 2: "heap_inv B lo xs' (A - {a}) (?h2\<lparr>freep := p\<rparr>)" "\<exists>x \<in> set xs'. h_size h1 a \<le> h_size ?h2 x"
    "\<forall>c \<in> A - {a}. h_size ?h2 c = h_size h1 c" "brk ?h2 = brk h1" using merge_left [OF 1(1), folded h1_def] by blast
  define h2 where "h2 = ?h2\<lparr>freep := p\<rparr>"
  have f: "u_free (a + HDR) h = Ok h2" using s by (simp add: u_free_def Let_def h1_def h2_def)
  have e: "h_size h2 = h_size ?h2" "brk h2 = brk ?h2" by (simp_all add: h2_def)
  have 3: "h_size h a \<le> h_size h1 a" "brk h1 = brk h" "\<forall>c. c \<noteq> a \<longrightarrow> h_size h1 c = h_size h c" using 1(2-4) by (simp_all only: h1_def)
  have "\<exists>x \<in> set xs'. h_size h a \<le> h_size h2 x" using 2(2) 3(1) unfolding e by (meson le_trans)
  moreover have "\<forall>c \<in> A - {a}. h_size h2 c = h_size h c" using 2(3) 3(3) unfolding e by simp
  moreover have "brk h2 = brk h" using 2(4) 3(2) e by simp
  ultimately show ?thesis using 2(1) f unfolding h2_def [symmetric] by blast
qed

section \<open>Malloc\<close>

lemma block_small: "heap_inv B lo xs A h \<Longrightarrow> a \<in> set xs \<union> A \<Longrightarrow> h_size h a < 2 ^ 32"
  using blocks_okD(2,3) [of "h_size h" "set xs \<union> A" lo "brk h" a] by (simp add: heap_inv_def)

lemma take_exact:
  assumes inv: "heap_inv B lo xs A h" and z: "z \<in> set xs" "y \<in> set (B # xs)" "h_ptr h y = z"
  shows "\<exists>xs'. heap_inv B lo xs' (insert z A) (set_ptr y (h_ptr h z) h\<lparr>freep := y\<rparr>)"
proof -
  have I: "sorted_wrt (<) (B # xs)" "path (h_ptr h) (B # xs) B" "set xs \<inter> A = {}"
    "blocks_ok (h_size h) (set xs \<union> A) lo (brk h)" "apart (h_size h) (set xs)" using inv by (simp_all add: heap_inv_def)
  have zB: "z \<noteq> B" using I(1) z(1) by auto
  obtain ps vs' where "B # xs = ps @ y # vs'" using z(2) by (metis split_list)
  moreover from this have "hd (vs' @ [B]) = z" using I(2) z(3) by (simp add: path_append)
  ultimately obtain vs where l: "B # xs = ps @ y # z # vs" using zB by (cases vs') auto
  have P: "path (h_ptr h) ps y" "h_ptr h z = hd (vs @ [B])" "path (h_ptr h) vs B" using I(2) l by (simp_all add: path_append)
  have s: "sorted_wrt (<) (ps @ y # z # vs)" using I(1) l by simp
  then have s': "sorted_wrt (<) (ps @ y # vs)" "y \<notin> set ps" "y \<notin> set vs" "z \<notin> set (ps @ y # vs)" by (auto simp: sorted_wrt_append)
  define ws where "ws = tl (ps @ y # vs)"
  have w: "B # ws = ps @ y # vs" using l by (cases ps) (auto simp: ws_def)
  have sw: "sorted_wrt (<) (B # ws)" unfolding w using s'(1) .
  have nB: "B \<notin> set xs" "B \<notin> set ws" using I(1) sw by auto
  have zw: "z \<notin> set ws" using s'(4) unfolding w [symmetric] by simp
  have "set xs = set (B # xs) - {B}" using nB by simp
  also have "\<dots> = insert z (set (B # ws)) - {B}" unfolding l w by auto
  also have "\<dots> = insert z (set ws)" using nB zB by auto
  finally have X: "set xs = insert z (set ws)" .
  have "path ((h_ptr h)(y := h_ptr h z)) (B # ws) B" unfolding w using P s' by (simp add: path_append)
  moreover have "blocks_ok (h_size h) (set ws \<union> insert z A) lo (brk h)" using I(4) X by simp
  moreover have "apart (h_size h) (set ws)" using I(5) X by (simp add: apart_def)
  moreover have "set ws \<inter> insert z A = {}" using I(3) X zw by auto
  moreover have "y \<in> set (B # ws)" unfolding w by simp
  ultimately show ?thesis using inv sw by (intro exI [of _ ws]) (simp add: heap_inv_def)
qed

lemma take_split:
  assumes inv: "heap_inv B lo xs A h" and z: "z \<in> set xs" "y \<in> set (B # xs)" and n: "0 < n" "n < h_size h z"
    and q: "q = z + HDR * (h_size h z - n)"
  shows "heap_inv B lo xs (insert q A) (set_size q n (set_size z (h_size h z - n) h)\<lparr>freep := y\<rparr>) \<and> q \<notin> set xs \<union> A"
proof -
  have bl: "blocks_ok (h_size h) (set xs \<union> A) lo (brk h)" and ap: "apart (h_size h) (set xs)" using inv by (simp_all add: heap_inv_def)
  have small: "h_size h z < 2 ^ 32" using block_small [OF inv] z by simp
  note B = blocks_split [OF bl _ n q]
  let ?h = "set_size q n (set_size z (h_size h z - n) h)"
  have "q \<noteq> z" using q n by simp
  then have sz: "h_size ?h = (h_size h)(z := h_size h z - n, q := n)" using small n by (simp add: fun_upd_twist)
  have b: "blocks_ok (h_size ?h) (set xs \<union> insert q A) lo (brk h)" unfolding sz using B(1) z by simp
  have q': "q \<notin> set xs \<union> A" using B(2) z by simp
  have "B < lo" "lo \<le> z" "z < q" using inv blocks_okD(2) [OF bl, of z] z q n by (simp_all add: heap_inv_def)
  then have "h_size ?h B = 0" using inv sz by (simp add: heap_inv_def)
  moreover have "c + HDR * h_size ?h c \<noteq> d" if "c \<in> set xs" "d \<in> set xs" for c d
    unfolding sz using that q' ap q by (cases "c = z") (auto simp: apart_def)
  then have "apart (h_size ?h) (set xs)" by (simp add: apart_def)
  ultimately show ?thesis using inv b q' z(2) unfolding heap_inv_def by auto
qed

lemma take_units_spec:
  assumes inv: "heap_inv B lo xs A h" and z: "z \<in> set xs" "y \<in> set (B # xs)" "h_ptr h y = z" and n: "0 < n" "n \<le> h_size h z"
  shows "\<exists>q xs' h'. take_units n y z h = (q + HDR, h') \<and> q \<notin> A \<and> heap_inv B lo xs' (insert q A) h' \<and> h_size h' q = n \<and>
    (\<forall>c \<in> A. h_size h' c = h_size h c)"
proof (cases "h_size h z = n")
  case True
  have "z \<notin> A" using inv z(1) by (auto simp: heap_inv_def)
  with take_exact [OF inv z] True show ?thesis by (auto simp: take_units_def Let_def)
next
  case False
  define q where "q = z + HDR * (h_size h z - n)"
  have z': "z \<notin> A" using inv z(1) by (auto simp: heap_inv_def)
  have small: "h_size h z < 2 ^ 32" using block_small [OF inv] z by simp
  have t: "heap_inv B lo xs (insert q A) (set_size q n (set_size z (h_size h z - n) h)\<lparr>freep := y\<rparr>)" "q \<notin> set xs \<union> A"
    using take_split [OF inv z(1,2) n(1) _ q_def] False n(2) by auto
  have "take_units n y z h = (q + HDR, set_size q n (set_size z (h_size h z - n) h)\<lparr>freep := y\<rparr>)"
    using False small by (simp add: take_units_def Let_def q_def)
  then show ?thesis using t z' small n(2) by (auto intro!: exI [of _ q])
qed

text \<open>The scan from \<open>freep\<close>: it takes from the first block that is large enough, or comes back to \<open>freep\<close>.\<close>

lemma scan:
  assumes "path (h_ptr h) (y # zs) (freep h)" "freep h \<notin> set zs"
  shows "(\<exists>y' z. z \<in> set (zs @ [freep h]) \<and> y' \<in> set (y # zs) \<and> h_ptr h y' = z \<and> n \<le> h_size h z \<and>
      loopr (malloc_step sbrk n) (y, h_ptr h y, h) = Ok (take_units n y' z h)) \<or>
    (\<forall>z \<in> set (zs @ [freep h]). h_size h z < n) \<and>
      loopr (malloc_step sbrk n) (y, h_ptr h y, h) =
        bindr (morecore sbrk n h) (\<lambda>(p, h). if p = 0 then Ok (0, h) else loopr (malloc_step sbrk n) (p, h_ptr h p, h))"
  using assms
proof (induction zs arbitrary: y)
  case Nil
  then show ?case
    by (cases "morecore sbrk n h") (auto simp: loopr_unfold [of _ "(y, freep h, h)"] malloc_step_def split: if_splits)
next
  case (Cons z zs)
  have z: "h_ptr h y = z" "z \<noteq> freep h" using Cons.prems by auto
  show ?case
  proof (cases "n \<le> h_size h z")
    case True
    then have "malloc_step sbrk n (y, z, h) = Ok (Inr (take_units n y z h))" by (simp add: malloc_step_def)
    then have "loopr (malloc_step sbrk n) (y, h_ptr h y, h) = Ok (take_units n y z h)"
      by (simp add: loopr_unfold [of _ "(y, z, h)"] z)
    then show ?thesis using z True by auto
  next
    case False
    then have "malloc_step sbrk n (y, z, h) = Ok (Inl (z, h_ptr h z, h))" using z by (simp add: malloc_step_def)
    then have "loopr (malloc_step sbrk n) (y, h_ptr h y, h) = loopr (malloc_step sbrk n) (z, h_ptr h z, h)"
      by (simp add: loopr_unfold [of _ "(y, z, h)"] z)
    then show ?thesis using Cons.IH [of z] Cons.prems False by auto
  qed
qed

text \<open>What \<^verbatim>\<open>sbrk\<close> promises: it fails or moves the break by what it was asked for; memory is bounded.\<close>

definition sbrk_ok :: "(int \<Rightarrow> nat \<Rightarrow> nat option) \<Rightarrow> bool" where
  "sbrk_ok sbrk \<longleftrightarrow> (\<forall>n b b'. 0 \<le> n \<longrightarrow> sbrk n b = Some b' \<longrightarrow> b' = b + nat n \<and> b' \<le> 2 ^ 36)"

lemma sint_small: "k < 2 ^ 31 \<Longrightarrow> sint (word_of_nat k :: u32) = int k"
  by (simp add: sint_uint unsigned_of_nat take_bit_nat_eq_self signed_take_bit_int_eq_self)

lemma morecore_spec:
  assumes inv: "heap_inv B lo xs A h" and sb: "sbrk_ok sbrk" and n: "0 < n" "n * HDR < 2 ^ 31"
  shows "\<exists>r h'. morecore sbrk n h = Ok (r, h') \<and>
    (r = 0 \<and> h' = h \<or> r \<noteq> 0 \<and> r = freep h' \<and> (\<exists>xs'. heap_inv B lo xs' A h' \<and> (\<exists>x \<in> set xs'. n \<le> h_size h' x)) \<and> (\<forall>c \<in> A. h_size h' c = h_size h c))"
proof -
  define nu where "nu = (if n < 4096 then 4096 else n)"
  have nu: "n \<le> nu" "0 < nu" "nu * HDR < 2 ^ 31" using n by (auto simp: nu_def)
  have m: "morecore sbrk n h = (case sbrk (int (nu * HDR)) (brk h) of None \<Rightarrow> Ok (0, h)
      | Some b \<Rightarrow> bindr (u_free (brk h + HDR) (set_size (brk h) nu (h\<lparr>brk := b\<rparr>))) (\<lambda>h. Ok (freep h, h)))"
    unfolding morecore_def nu_def [symmetric] Let_def sint_small [OF nu(3)] ..
  show ?thesis
  proof (cases "sbrk (int (nu * HDR)) (brk h)")
    case None
    then show ?thesis using m by simp
  next
    case (Some b)
    have "b = brk h + nat (int (nu * HDR)) \<and> b \<le> 2 ^ 36" using sb Some unfolding sbrk_ok_def by (metis of_nat_0_le_iff)
    then have b: "b = brk h + HDR * nu" "b \<le> 2 ^ 36" by simp_all
    let ?a = "brk h" and ?h = "set_size (brk h) nu (h\<lparr>brk := b\<rparr>)"
    have bl: "blocks_ok (h_size h) (set xs \<union> A) lo (brk h)" "set xs \<inter> A = {}" "B < lo" "lo \<le> brk h" using inv by (simp_all add: heap_inv_def)
    note N = blocks_new [OF bl(1,4) nu(2)]
    have a: "?a \<notin> set xs" "?a \<notin> A" "?a \<noteq> B" using N(1) bl(3,4) by auto
    have sz: "h_size ?h = (h_size h)(?a := nu)" using nu by simp
    have mod: "nu mod 4294967296 = nu" using nu(3) by simp
    have "blocks_ok (h_size ?h) (set xs \<union> insert ?a A) lo b" unfolding b(1) using N(2) by (simp add: mod)
    moreover have "apart (h_size h) (set xs)" using inv by (simp add: heap_inv_def)
    then have "apart (h_size ?h) (set xs)" using a(1) unfolding apart_def sz by auto
    ultimately have "heap_inv B lo xs (insert ?a A) ?h" using inv a b(1,2) unfolding heap_inv_def by (simp add: mod)
    note F = u_free_spec [OF this, of ?a, OF insertI1]
    have A: "insert ?a A - {?a} = A" using a(2) by simp
    obtain xs' h' where f: "u_free (?a + HDR) ?h = Ok h'" "heap_inv B lo xs' A h'"
      "\<exists>x \<in> set xs'. h_size ?h ?a \<le> h_size h' x" "\<forall>c \<in> A. h_size h' c = h_size ?h c" using F unfolding A by blast
    have "freep h' \<noteq> 0" using f(2) by (auto simp: heap_inv_def)
    moreover have "\<exists>x \<in> set xs'. n \<le> h_size h' x" using f(3) nu(1) unfolding sz by (auto intro: le_trans)
    moreover have "\<forall>c \<in> A. h_size h' c = h_size h c" using f(4) a(2) unfolding sz by auto
    ultimately show ?thesis using m Some f(1,2) by auto
  qed
qed

lemma ring_from:
  assumes inv: "heap_inv B lo xs A h"
  obtains zs where "path (h_ptr h) (freep h # zs) (freep h)" "freep h \<notin> set zs" "set (freep h # zs) = set (B # xs)"
proof -
  have I: "sorted_wrt (<) (B # xs)" "path (h_ptr h) (B # xs) B" "freep h \<in> set (B # xs)" using inv by (simp_all add: heap_inv_def)
  obtain ps vs where l: "B # xs = ps @ freep h # vs" using I(3) by (metis split_list)
  have "hd (ps @ [freep h]) = B" using l by (cases ps) auto
  then have "path (h_ptr h) ((freep h # vs) @ ps) (freep h)" using I(2) unfolding l path_append by simp
  then have "path (h_ptr h) (freep h # vs @ ps) (freep h)" by (simp only: append_Cons)
  moreover have "freep h \<notin> set (vs @ ps)" using I(1) unfolding l by (auto simp: sorted_wrt_append)
  moreover have "set (freep h # vs @ ps) = set (B # xs)" unfolding l by auto
  ultimately show thesis using that by blast
qed

text \<open>A new block of \<open>n\<close> units.\<close>

definition grants :: "nat \<Rightarrow> nat \<Rightarrow> nat set \<Rightarrow> nat \<Rightarrow> uheap \<Rightarrow> nat \<Rightarrow> uheap \<Rightarrow> bool" where
  "grants B lo A n h r h' \<longleftrightarrow> (\<exists>q xs'. r = q + HDR \<and> q \<notin> A \<and> heap_inv B lo xs' (insert q A) h' \<and> h_size h' q = n \<and>
     (\<forall>c \<in> A. h_size h' c = h_size h c))"

lemma scan_spec:
  assumes inv: "heap_inv B lo xs A h" and n: "0 < n"
  shows "(\<exists>r h'. loopr (malloc_step sbrk n) (freep h, h_ptr h (freep h), h) = Ok (r, h') \<and> grants B lo A n h r h') \<or>
    (\<forall>z \<in> set xs. h_size h z < n) \<and>
      loopr (malloc_step sbrk n) (freep h, h_ptr h (freep h), h) =
        bindr (morecore sbrk n h) (\<lambda>(p, h). if p = 0 then Ok (0, h) else loopr (malloc_step sbrk n) (p, h_ptr h p, h))"
proof -
  obtain zs where z: "path (h_ptr h) (freep h # zs) (freep h)" "freep h \<notin> set zs" "set (freep h # zs) = set (B # xs)" using ring_from [OF inv] .
  have xs: "z \<in> set xs" if "z \<in> set (zs @ [freep h])" "n \<le> h_size h z" for z
  proof -
    have "h_size h B = 0" using inv by (simp add: heap_inv_def)
    then have "z \<noteq> B" using that(2) n by auto
    moreover have "z \<in> set (B # xs)" using that(1) unfolding z(3) [symmetric] by auto
    ultimately show ?thesis by simp
  qed
  show ?thesis
  proof (rule disjE [OF scan [OF z(1,2), of n sbrk]])
    assume "\<exists>y' z. z \<in> set (zs @ [freep h]) \<and> y' \<in> set (freep h # zs) \<and> h_ptr h y' = z \<and> n \<le> h_size h z \<and>
      loopr (malloc_step sbrk n) (freep h, h_ptr h (freep h), h) = Ok (take_units n y' z h)"
    then obtain y w where t: "w \<in> set (zs @ [freep h])" "y \<in> set (freep h # zs)" "h_ptr h y = w" "n \<le> h_size h w"
      "loopr (malloc_step sbrk n) (freep h, h_ptr h (freep h), h) = Ok (take_units n y w h)" by blast
    obtain q xs' h' where "take_units n y w h = (q + HDR, h')" "q \<notin> A" "heap_inv B lo xs' (insert q A) h'" "h_size h' q = n"
      "\<forall>c \<in> A. h_size h' c = h_size h c"
      using take_units_spec [OF inv xs [OF t(1,4)] _ t(3) n t(4)] t(2) unfolding z(3) by blast
    then have "grants B lo A n h (q + HDR) h'" "loopr (malloc_step sbrk n) (freep h, h_ptr h (freep h), h) = Ok (q + HDR, h')"
      using t(5) unfolding grants_def by auto
    then show ?thesis by blast
  next
    assume "(\<forall>z \<in> set (zs @ [freep h]). h_size h z < n) \<and> loopr (malloc_step sbrk n) (freep h, h_ptr h (freep h), h) =
        bindr (morecore sbrk n h) (\<lambda>(p, h). if p = 0 then Ok (0, h) else loopr (malloc_step sbrk n) (p, h_ptr h p, h))"
    moreover have "set xs \<subseteq> set (zs @ [freep h])" using z(3) by auto
    ultimately show ?thesis by blast
  qed
qed

lemma malloc_loop_spec:
  assumes inv: "heap_inv B lo xs A h" and sb: "sbrk_ok sbrk" and n: "0 < n" "n * HDR < 2 ^ 31"
  shows "\<exists>r h'. loopr (malloc_step sbrk n) (freep h, h_ptr h (freep h), h) = Ok (r, h') \<and> (r = 0 \<and> h' = h \<or> grants B lo A n h r h')"
  using scan_spec [OF inv n(1), of sbrk]
proof (elim disjE exE conjE)
  assume l: "loopr (malloc_step sbrk n) (freep h, h_ptr h (freep h), h) =
        bindr (morecore sbrk n h) (\<lambda>(p, h). if p = 0 then Ok (0, h) else loopr (malloc_step sbrk n) (p, h_ptr h p, h))"
  obtain r h1 where m: "morecore sbrk n h = Ok (r, h1)" and
    c: "r = 0 \<and> h1 = h \<or> r \<noteq> 0 \<and> r = freep h1 \<and> (\<exists>xs'. heap_inv B lo xs' A h1 \<and> (\<exists>x \<in> set xs'. n \<le> h_size h1 x)) \<and>
      (\<forall>c \<in> A. h_size h1 c = h_size h c)" using morecore_spec [OF inv sb n] by blast
  from c show ?thesis
  proof (elim disjE conjE exE)
    assume "r = 0" "h1 = h"
    then show ?thesis using l m by simp
  next
    fix xs' assume r: "r \<noteq> 0" "r = freep h1" "heap_inv B lo xs' A h1" "\<exists>x \<in> set xs'. n \<le> h_size h1 x" "\<forall>c \<in> A. h_size h1 c = h_size h c"
    have "\<not> (\<forall>z \<in> set xs'. h_size h1 z < n)" using r(4) by (meson leD)
    then obtain r' h' where "loopr (malloc_step sbrk n) (freep h1, h_ptr h1 (freep h1), h1) = Ok (r', h')" "grants B lo A n h1 r' h'"
      using scan_spec [OF r(3) n(1), of sbrk] by blast
    then show ?thesis using l m r unfolding grants_def by auto
  qed
qed blast

section \<open>Programs that allocate and free\<close>

text \<open>
  The states a program reaches with calls of \<^verbatim>\<open>malloc\<close> and \<^verbatim>\<open>free\<close>, and the blocks it holds. It asks for less than
  \<open>2^31 - 32\<close> bytes at a time, which is what the \<^verbatim>\<open>int\<close> argument of \<^verbatim>\<open>sbrk\<close> can express, and frees only what it holds.
\<close>

inductive heap_run :: "nat \<Rightarrow> (int \<Rightarrow> nat \<Rightarrow> nat option) \<Rightarrow> nat \<Rightarrow> nat set \<Rightarrow> uheap \<Rightarrow> bool"
  for B sbrk lo where
  start: "freep h = 0 \<Longrightarrow> brk h = lo \<Longrightarrow> heap_run B sbrk lo {} h"
| alloc: "heap_run B sbrk lo A h \<Longrightarrow> nbytes < 2 ^ 31 - 32 \<Longrightarrow> malloc B sbrk nbytes h = Ok (r, h') \<Longrightarrow>
    heap_run B sbrk lo (if r = 0 then A else insert (r - HDR) A) h'"
| release: "heap_run B sbrk lo A h \<Longrightarrow> a \<in> A \<Longrightarrow> u_free (a + HDR) h = Ok h' \<Longrightarrow> heap_run B sbrk lo (A - {a}) h'"

definition heap_ok :: "nat \<Rightarrow> nat \<Rightarrow> nat set \<Rightarrow> uheap \<Rightarrow> bool" where
  "heap_ok B lo A h \<longleftrightarrow> (\<exists>xs. heap_inv B lo xs A h) \<or> freep h = 0 \<and> A = {} \<and> brk h = lo"

lemma nunits_bounds:
  assumes "nbytes < 2 ^ 31 - 32"
  shows "0 < nunits nbytes" "nunits nbytes * HDR < 2 ^ 31" "nbytes \<le> HDR * (nunits nbytes - 1)"
proof -
  have "nunits nbytes = (nbytes + 15) div 16 + 1" using assms by (simp add: nunits_def)
  then show "0 < nunits nbytes" "nunits nbytes * HDR < 2 ^ 31" "nbytes \<le> HDR * (nunits nbytes - 1)" using assms by auto
qed

lemma malloc_ok:
  assumes ok: "heap_ok B lo A h" and sb: "sbrk_ok sbrk" and lo: "0 < B" "B < lo" "lo \<le> 2 ^ 36" and n: "nbytes < 2 ^ 31 - 32"
  shows "\<exists>r h'. malloc B sbrk nbytes h = Ok (r, h') \<and> (r = 0 \<and> heap_ok B lo A h' \<or> grants B lo A (nunits nbytes) h r h')"
proof -
  note N = nunits_bounds [OF n]
  show ?thesis
  proof (cases "freep h = 0")
    case False
    then obtain xs where inv: "heap_inv B lo xs A h" using ok by (auto simp: heap_ok_def)
    show ?thesis using malloc_loop_spec [OF inv sb N(1,2)] False inv unfolding malloc_def Let_def heap_ok_def by auto
  next
    case True
    then have h: "A = {}" "brk h = lo" using ok lo by (auto simp: heap_ok_def heap_inv_def)
    let ?h = "set_size B 0 (set_ptr B B (h\<lparr>freep := B\<rparr>))"
    have inv: "heap_inv B lo [] A ?h" using h lo by (simp add: heap_inv_def blocks_ok_def apart_def)
    have "malloc B sbrk nbytes h = loopr (malloc_step sbrk (nunits nbytes)) (freep ?h, h_ptr ?h (freep ?h), ?h)"
      using True by (simp add: malloc_def Let_def)
    then show ?thesis using malloc_loop_spec [OF inv sb N(1,2)] inv h unfolding heap_ok_def grants_def by auto
  qed
qed

lemma heap_run_ok:
  assumes sb: "sbrk_ok sbrk" and lo: "0 < B" "B < lo" "lo \<le> 2 ^ 36"
  shows "heap_run B sbrk lo A h \<Longrightarrow> heap_ok B lo A h"
proof (induction rule: heap_run.induct)
  case (alloc A h nbytes r h')
  then show ?case using malloc_ok [OF alloc(4) sb lo alloc(2)] by (auto simp: heap_ok_def grants_def)
next
  case (release A h a h')
  then obtain xs where "heap_inv B lo xs A h" by (auto simp: heap_ok_def)
  from u_free_spec [OF this release(2)] release(3) show ?case by (auto simp: heap_ok_def)
qed (simp add: heap_ok_def)

text \<open>A heap before the first call, and a kernel with 128 megabytes.\<close>

definition heap0 :: uheap where
  "heap0 = \<lparr>h_ptr = \<lambda>_. 0, h_size = \<lambda>_. 0, freep = 0, brk = 0x5000\<rparr>"

definition sbrk0 :: "int \<Rightarrow> nat \<Rightarrow> nat option" where
  "sbrk0 n b = (if 0 \<le> n \<and> b + nat n \<le> 0x8000000 then Some (b + nat n) else None)"

end
