(* ===== verification/Mkfs.thy ===== *)
theory Mkfs
  imports Fs Crash
begin

text \<open>
  The program that builds the initial file system (\<^verbatim>\<open>mkfs/mkfs.c\<close>), on a little-endian host. The image is a function from sectors to
  bytes with a number of sectors; \<open>io_err\<close> are the sectors on which the host fails. \<^verbatim>\<open>die\<close> and a failed \<^verbatim>\<open>assert\<close> are \<open>Panic\<close>. Structures
  are stored as \<open>Fs\<close> reads them.
\<close>

section \<open>Constants and state\<close>

abbreviation (input) FSSIZE :: "'a::numeral" where "FSSIZE \<equiv> 30000"
abbreviation (input) NINODES :: "'a::numeral" where "NINODES \<equiv> 200"

definition nbitmap :: nat where "nbitmap = FSSIZE div BPB + 1"
definition ninodeblocks :: nat where "ninodeblocks = NINODES div IPB + 1"
definition nlog :: nat where "nlog = LOGSIZE"
definition nmeta :: nat where "nmeta = 2 + nlog + ninodeblocks + nbitmap"
definition nblocks :: nat where "nblocks = 2000 - nmeta"

record mkfs_st =
  img :: "u32 \<Rightarrow> bytes"
  img_len :: nat
  io_err :: "u32 \<Rightarrow> bool"
  freeinode :: u32
  freeblock :: u32

definition xshort :: "u16 \<Rightarrow> u16" where
  "xshort x = rd_bytes 2 (\<lambda>i. ucast (drop_bit (8 * i) x))"

definition xint :: "u32 \<Rightarrow> u32" where
  "xint x = rd_bytes 4 (\<lambda>i. ucast (drop_bit (8 * i) x))"

definition mksb :: superblock where
  "mksb = \<lparr>sb_magic = FSMAGIC, sb_size = xint FSSIZE, sb_nblocks = xint (of_nat nblocks), sb_ninodes = xint NINODES,
     sb_nlog = xint (of_nat nlog), sb_logstart = xint 2, sb_inodestart = xint (of_nat (2 + nlog)),
     sb_bmapstart = xint (of_nat (2 + nlog + ninodeblocks))\<rparr>"

section \<open>Sectors and inodes\<close>

text \<open>The offset given to \<^verbatim>\<open>lseek\<close> is a product in 32 bits.\<close>

definition sector :: "u32 \<Rightarrow> u32" where
  "sector sec = sec * BSIZE div BSIZE"

definition wsect :: "u32 \<Rightarrow> bytes \<Rightarrow> mkfs_st \<Rightarrow> mkfs_st res" where
  "wsect sec buf s =
     (let n = sector sec in
      if io_err s n then Panic ''write''
      else Ok (s\<lparr>img := (img s)(n := \<lambda>i. if i < BSIZE then buf i else 0), img_len := max (img_len s) (unat n + 1)\<rparr>))"

definition rsect :: "u32 \<Rightarrow> mkfs_st \<Rightarrow> bytes res" where
  "rsect sec s =
     (let n = sector sec in
      if io_err s n \<or> img_len s \<le> unat n then Panic ''read'' else Ok (img s n))"

definition winode :: "u32 \<Rightarrow> dinode \<Rightarrow> mkfs_st \<Rightarrow> mkfs_st res" where
  "winode inum ip s =
     (let bn = IBLOCK inum mksb in
      bindr (rsect bn s) (\<lambda>buf.
      wsect bn (wr_dinode buf (dinode_off inum) ip) s))"

definition rinode :: "u32 \<Rightarrow> mkfs_st \<Rightarrow> dinode res" where
  "rinode inum s =
     (let bn = IBLOCK inum mksb in
      bindr (rsect bn s) (\<lambda>buf. Ok (rd_dinode buf (dinode_off inum))))"

definition mk_ialloc :: "u16 \<Rightarrow> mkfs_st \<Rightarrow> (u32 \<times> mkfs_st) res" where
  "mk_ialloc ty s =
     (let inum = freeinode s;
          s = s\<lparr>freeinode := freeinode s + 1\<rparr>;
          din = \<lparr>d_type = xshort ty, d_major = 0, d_minor = 0, d_nlink = xshort 1, d_size = xint 0, d_addrs = \<lambda>_. 0\<rparr> in
      bindr (winode inum din s) (\<lambda>s. Ok (inum, s)))"

fun set_bits :: "nat list \<Rightarrow> bytes \<Rightarrow> bytes" where
  "set_bits [] buf = buf"
| "set_bits (i # is) buf = set_bits is (buf(i div 8 := buf (i div 8) OR push_bit (i mod 8) 1))"

definition mk_balloc :: "int \<Rightarrow> mkfs_st \<Rightarrow> mkfs_st res" where
  "mk_balloc used s =
     (if \<not> used < BPB then Panic ''assert''
      else wsect (sb_bmapstart mksb) (set_bits [0..<nat used] (\<lambda>_. 0)) s)"

section \<open>Appending to a file\<close>

text \<open>The block of the file that holds block number \<open>fbn\<close>, allocated if there is none.\<close>

definition append_block :: "u32 \<Rightarrow> dinode \<Rightarrow> mkfs_st \<Rightarrow> (u32 \<times> dinode \<times> mkfs_st) res" where
  "append_block fbn din s =
     (if fbn < NDIRECT then
        let (din, s) = (if xint (d_addrs din (unat fbn)) = 0
                        then (din\<lparr>d_addrs := (d_addrs din)(unat fbn := xint (freeblock s))\<rparr>, s\<lparr>freeblock := freeblock s + 1\<rparr>)
                        else (din, s)) in
        Ok (xint (d_addrs din (unat fbn)), din, s)
      else
        let (din, s) = (if xint (d_addrs din NDIRECT) = 0
                        then (din\<lparr>d_addrs := (d_addrs din)(NDIRECT := xint (freeblock s))\<rparr>, s\<lparr>freeblock := freeblock s + 1\<rparr>)
                        else (din, s));
            k = 4 * unat (fbn - NDIRECT) in
        bindr (rsect (xint (d_addrs din NDIRECT)) s) (\<lambda>indirect.
        if rd32 indirect k = 0 then
          let indirect = wr32 indirect k (xint (freeblock s));
              s = s\<lparr>freeblock := freeblock s + 1\<rparr> in
          bindr (wsect (xint (d_addrs din NDIRECT)) indirect s) (\<lambda>s. Ok (xint (rd32 indirect k), din, s))
        else Ok (xint (rd32 indirect k), din, s)))"

definition iappend_step :: "u8 list \<times> u32 \<times> dinode \<times> mkfs_st \<Rightarrow> (u8 list \<times> u32 \<times> dinode \<times> mkfs_st + u32 \<times> dinode \<times> mkfs_st) res" where
  "iappend_step = (\<lambda>(p, off, din, s).
     if p = [] then Ok (Inr (off, din, s))
     else
       let fbn = off div BSIZE in
       if \<not> fbn < MAXFILE then Panic ''assert''
       else
         bindr (append_block fbn din s) (\<lambda>(x, din, s).
         let n1 = min (length p) (unat ((fbn + 1) * BSIZE - off)); o1 = unat (off - fbn * BSIZE) in
         bindr (rsect x s) (\<lambda>buf.
         bindr (wsect x (\<lambda>i. if o1 \<le> i \<and> i < o1 + n1 then p ! (i - o1) else buf i) s) (\<lambda>s.
         Ok (Inl (drop n1 p, off + of_nat n1, din, s))))))"

definition iappend :: "u32 \<Rightarrow> u8 list \<Rightarrow> mkfs_st \<Rightarrow> mkfs_st res" where
  "iappend inum p s =
     bindr (rinode inum s) (\<lambda>din.
     bindr (loopr iappend_step (p, xint (d_size din), din, s)) (\<lambda>(off, din, s).
     winode inum (din\<lparr>d_size := xint off\<rparr>) s))"

section \<open>The program\<close>

text \<open>A directory entry: the inode number and the name, padded with zeros to \<^verbatim>\<open>DIRSIZ\<close>.\<close>

definition mk_dirent :: "u32 \<Rightarrow> u8 list \<Rightarrow> u8 list" where
  "mk_dirent inum name =
     map (wr16 (\<lambda>_. 0) 0 (xshort (ucast inum))) [0..<2] @ map (\<lambda>i. if i < length name then name ! i else 0) [0..<DIRSIZ]"

fun zero_sects :: "nat list \<Rightarrow> mkfs_st \<Rightarrow> mkfs_st res" where
  "zero_sects [] s = Ok s"
| "zero_sects (i # is) s = bindr (wsect (of_nat i) (\<lambda>_. 0) s) (zero_sects is)"

definition sb_bytes :: "superblock \<Rightarrow> bytes" where
  "sb_bytes b = wr32 (wr32 (wr32 (wr32 (wr32 (wr32 (wr32 (wr32 (\<lambda>_. 0) 0 (sb_magic b)) 4 (sb_size b)) 8 (sb_nblocks b))
     12 (sb_ninodes b)) 16 (sb_nlog b)) 20 (sb_logstart b)) 24 (sb_inodestart b)) 28 (sb_bmapstart b)"

function append_chunks :: "u32 \<Rightarrow> u8 list \<Rightarrow> mkfs_st \<Rightarrow> mkfs_st res" where
  "append_chunks inum f s =
     (if f = [] then Ok s else bindr (iappend inum (take BSIZE f) s) (append_chunks inum (drop BSIZE f)))"
  by auto
termination
  by (relation "measure (\<lambda>(inum, f, s). length f)") auto

definition shortname :: "string \<Rightarrow> string" where
  "shortname a = (if take 5 a = ''user/'' then drop 5 a else a)"

definition skip_underscore :: "string \<Rightarrow> string" where
  "skip_underscore n = (if n \<noteq> [] \<and> hd n = CHR ''_'' then tl n else n)"

text \<open>The host files in the order of the arguments; \<open>None\<close> is one that does not open.\<close>

fun add_files :: "u32 \<Rightarrow> (string \<times> u8 list option) list \<Rightarrow> mkfs_st \<Rightarrow> mkfs_st res" where
  "add_files rootino [] s = Ok s"
| "add_files rootino ((a, file) # fs) s =
     (if CHR ''/'' \<in> set (shortname a) then Panic ''assert''
      else case file of
        None \<Rightarrow> Panic a
      | Some f \<Rightarrow>
          let name = skip_underscore (shortname a) in
          if \<not> length name \<le> DIRSIZ then Panic ''assert''
          else
            bindr (mk_ialloc T_FILE s) (\<lambda>(inum, s).
            bindr (iappend rootino (mk_dirent inum (map of_char name)) s) (\<lambda>s.
            bindr (append_chunks inum f s) (add_files rootino fs))))"

definition mkfs :: "(string \<times> u8 list option) list \<Rightarrow> mkfs_st \<Rightarrow> mkfs_st res" where
  "mkfs files s =
     (let s = s\<lparr>img := \<lambda>_ _. 0, img_len := 0, freeinode := 1, freeblock := of_nat nmeta\<rparr> in
      bindr (zero_sects [0..<FSSIZE] s) (\<lambda>s.
      bindr (wsect 1 (sb_bytes mksb) s) (\<lambda>s.
      bindr (mk_ialloc T_DIR s) (\<lambda>(rootino, s).
      if rootino \<noteq> ROOTINO then Panic ''assert''
      else
        bindr (iappend rootino (mk_dirent rootino (map of_char ''.'')) s) (\<lambda>s.
        bindr (iappend rootino (mk_dirent rootino (map of_char ''..'')) s) (\<lambda>s.
        bindr (add_files rootino files s) (\<lambda>s.
        bindr (rinode rootino s) (\<lambda>din.
        let off = (xint (d_size din) div BSIZE + 1) * BSIZE in
        bindr (winode rootino (din\<lparr>d_size := xint off\<rparr>) s) (\<lambda>s.
        mk_balloc (sint (freeblock s)) s)))))))))"

section \<open>The bitmap\<close>

lemma set_bits_bit:
  "bit (set_bits is buf b) k \<longleftrightarrow> bit (buf b) k \<or> (\<exists>i \<in> set is. i div 8 = b \<and> i mod 8 = k)"
proof (induction "is" arbitrary: buf)
  case (Cons i "is")
  have "bit ((buf(i div 8 := buf (i div 8) OR push_bit (i mod 8) 1)) b) k \<longleftrightarrow> bit (buf b) k \<or> i div 8 = b \<and> i mod 8 = k"
    by (auto simp: bit_or_iff bit_exp_iff)
  then show ?case using Cons by auto
qed simp

lemma bit_clear_iff: "d AND push_bit k 1 = 0 \<longleftrightarrow> \<not> bit d k" if "k < 8" for d :: u8
  using that and_exp_8 [of k d] by simp

lemma set_bits_upto: "bit (set_bits [0..<n] (\<lambda>_. 0) (i div 8)) (i mod 8) \<longleftrightarrow> i < n"
proof -
  have "j div 8 = i div 8 \<and> j mod 8 = i mod 8 \<longleftrightarrow> j = i" for j :: nat by (metis div_mult_mod_eq)
  then show ?thesis by (simp add: set_bits_bit)
qed

lemma clear_bit_first:
  assumes "\<And>i. i < m \<Longrightarrow> d (i div 8) AND push_bit (i mod 8) 1 = 0 \<longleftrightarrow> \<not> i < n"
  shows "k \<le> m \<Longrightarrow> clear_bit [k..<m] d = (if max k n < m then Some (max k n) else None)"
proof (induction "m - k" arbitrary: k)
  case (Suc j)
  then have k: "k < m" by simp
  then have "[k..<m] = k # [Suc k..<m]" by (rule upt_conv_Cons)
  then show ?case using Suc assms [OF k] k by (auto simp: max_def)
qed (use assms in auto)

lemma rd_bytes_drop: "rd_bytes (LENGTH('a::len) div 8) (\<lambda>i. ucast (drop_bit (8 * i) x)) = (x :: 'a word)" if "8 dvd LENGTH('a)"
proof (rule bit_word_eqI)
  fix n assume n: "n < LENGTH('a)"
  then have "n div 8 < LENGTH('a) div 8" using that by auto
  then show "bit (rd_bytes (LENGTH('a) div 8) (\<lambda>i. ucast (drop_bit (8 * i) x)) :: 'a word) n = bit x n"
    using n that by (simp add: bit_rd_bytes bit_ucast_iff bit_drop_bit_eq)
qed

lemma xint_id [simp]: "xint x = x"
  using rd_bytes_drop [of x] by (simp add: xint_def)

lemma xshort_id [simp]: "xshort x = x"
  using rd_bytes_drop [of x] by (simp add: xshort_def)

text \<open>The kernel reads back the superblock.\<close>

lemma rd_superblock_bytes: "rd_superblock (sb_bytes b) = b"
  by (simp add: rd_superblock_def sb_bytes_def rd32_wr32_other)

lemma sector_id: "sec < 2 ^ 22 \<Longrightarrow> sector sec = sec"
proof -
  assume "sec < 2 ^ 22"
  then have u: "unat sec < 2 ^ 22" by (simp add: word_less_nat_alt)
  then have "unat (sec * BSIZE) = unat sec * 1024" by (simp add: unat_mult_lem [THEN iffD1])
  then show ?thesis unfolding sector_def by (simp add: word_unat_eq_iff unat_div)
qed

lemma mksb_fields: "sb_bmapstart mksb = 45" "sb_inodestart mksb = 32" "sb_size mksb = FSSIZE" "sb_logstart mksb = 2" "sb_nlog mksb = 30"
  by (simp_all add: mksb_def nlog_def ninodeblocks_def)

lemma mk_balloc_bits:
  assumes "mk_balloc used s = Ok t" "m \<le> BPB"
  shows "clear_bit [0..<m] (img t 45) = (if nat used < m then Some (nat used) else None)"
proof -
  have t: "wsect 45 (set_bits [0..<nat used] (\<lambda>_. 0)) s = Ok t"
    using assms(1) by (auto simp: mk_balloc_def mksb_fields split: if_splits)
  have "img t 45 = (\<lambda>i. if i < BSIZE then set_bits [0..<nat used] (\<lambda>_. 0) i else 0)"
    using t by (auto simp: wsect_def Let_def sector_id split: if_splits)
  moreover have "i div 8 < BSIZE" if "i < m" for i using that assms(2) by auto
  ultimately have "img t 45 (i div 8) AND push_bit (i mod 8) 1 = 0 \<longleftrightarrow> \<not> i < nat used" if "i < m" for i
    using that bit_clear_iff [of "i mod 8"] set_bits_upto [of "nat used" i] by simp
  then show ?thesis using clear_bit_first [of m "img t 45" "nat used" 0] by simp
qed

text \<open>There is no check of the inode number against \<^verbatim>\<open>NINODES\<close>: inode 208 would lie in the block of the bitmap.\<close>

lemma inode_in_bitmap: "IBLOCK 207 mksb < sb_bmapstart mksb" "IBLOCK 208 mksb = sb_bmapstart mksb"
  by (simp_all add: IBLOCK_def mksb_fields)

text \<open>An image before the bitmap is written.\<close>

definition image0 :: mkfs_st where
  "image0 = \<lparr>img = \<lambda>_ _. 0, img_len = FSSIZE, io_err = \<lambda>_. False, freeinode = 2, freeblock = 600\<rparr>"

end
