(* ===== verification/Sample.thy ===== *)
theory Sample
  imports Crash Fault
begin

text \<open>
  A small state that satisfies the invariants: a fresh buffer cache, one address space whose only user
  page, at address 0, is resident at \<^verbatim>\<open>0x80103000\<close>, and no free page. As \<^verbatim>\<open>proc_pagetable\<close> leaves it, the space also
  maps the trampoline and the trap frame of the process, which is the page at \<^verbatim>\<open>0x80105000\<close>. In this state the kernel
  has to evict the user page when it needs memory.
\<close>

section \<open>The cache after binit\<close>

lemma binit_loop_fields:
  "b_valid (bufs (binit_loop bs s) c) = b_valid (bufs s c)" "b_dev (bufs (binit_loop bs s) c) = b_dev (bufs s c)"
  "b_blockno (bufs (binit_loop bs s) c) = b_blockno (bufs s c)" "b_refcnt (bufs (binit_loop bs s) c) = b_refcnt (bufs s c)"
  "disk (binit_loop bs s) = disk s" "held (binit_loop bs s) = held s" "cur (binit_loop bs s) = cur s"
  "mem (binit_loop bs s) = mem s" "ptab (binit_loop bs s) = ptab s" "bio_st.more (binit_loop bs s) = bio_st.more s"
  "sl_locked (slocks (binit_loop bs s) (Buf_slock c)) = (c \<notin> set bs \<and> sl_locked (slocks s (Buf_slock c)))"
  by (induction bs arbitrary: s) (auto simp: link_head_def upd_buf_def Let_def)

lemma binit_inv:
  assumes "\<And>b. b < NBUF \<Longrightarrow> b_blockno (bufs s b) = 0 \<and> \<not> b_valid (bufs s b)"
  shows "bio_inv (binit s)"
proof -
  define u where "u = upd_buf HEAD (b_next_update (\<lambda>_. HEAD)) (upd_buf HEAD (b_prev_update (\<lambda>_. HEAD)) s)"
  have b: "binit s = binit_loop [0..<NBUF] u" unfolding binit_def u_def Let_def ..
  have u: "b_blockno (bufs u c) = b_blockno (bufs s c)" "b_valid (bufs u c) = b_valid (bufs s c)" for c
    by (simp_all add: u_def upd_buf_def)
  note f = binit_loop_fields [where bs = "[0..<NBUF]" and s = u, folded b]
  show ?thesis
    using assms by (intro bio_invI [OF binit_blist]) (simp_all add: f u del: upt_rec_numeral)
qed

section \<open>One address space\<close>

abbreviation (input) spt :: u64 where "spt \<equiv> 0x80100000"

definition sample_mem :: memory where
  "sample_mem =
     fold (\<lambda>(t, i, e) m. st64 m (entry t i) e)
       [(0x80100000, 0, PA2PTE 0x80101000 OR 1), (0x80101000, 0, PA2PTE 0x80102000 OR 1), (0x80102000, 0, PA2PTE 0x80103000 OR 0x1F),
        (0x80100000, 255, PA2PTE 0x80106000 OR 1), (0x80106000, 511, PA2PTE 0x80107000 OR 1),
        (0x80107000, 510, PA2PTE 0x80105000 OR 7), (0x80107000, 511, PA2PTE 0x80007000 OR 0xB)] (\<lambda>_. 0)"

definition sample :: vm_st where
  "sample = binit \<lparr>held = [], cur = Some 0,
     ptab = (\<lambda>_. \<lparr>p_state = RUNNING, p_chan = None, p_killed = 0, p_xstate = 0, p_pid = 1, p_parent = None, p_kstack = 0,
        p_sz = 4096, p_pagetable = spt, p_trapframe = 0x80105000, p_context = \<lparr>ra = 0, sp = 0, s_regs = (\<lambda>_. 0)\<rparr>,
        p_ofile = (\<lambda>_. None), p_cwd = None, p_name = []\<rparr>),
     slocks = (\<lambda>_. \<lparr>sl_locked = False, sl_pid = 0\<rparr>), mem = sample_mem,
     bufs = (\<lambda>_. \<lparr>b_valid = False, b_disk = False, b_dev = 0, b_blockno = 0, b_refcnt = 0, b_prev = 0, b_next = 0, b_data = (\<lambda>_. 0)\<rparr>),
     disk = (\<lambda>_ _. 0), dwrites = [], nr_sectors_read = 0, nr_sectors_write = 0, kend = spt, freelist = 0,
     pages = (\<lambda>i. if i = 259 then \<lparr>pg_next = Some 259, pg_prev = Some 259, pg_pagetable = spt, pg_vaddr = 0\<rparr>
                   else \<lparr>pg_next = None, pg_prev = None, pg_pagetable = 0, pg_vaddr = 0\<rparr>),
     lru_head = Some 259, lru_tail = Some 259, swap_bitmap = 0x80104000, swap_slots = 7000, kernel_pagetable = 0\<rparr>"

definition sample_own :: owners where
  "sample_own a =
     (if a = spt then Table spt [] else if a = 0x80101000 then Table spt [0] else if a = 0x80102000 then Table spt [0, 0]
      else if a = 0x80103000 then Upage spt [0, 0, 0] else if a = 0x80104000 then Bitmap
      else if a = 0x80105000 then Shared spt [255, 511, 510]
      else if a = 0x80106000 then Table spt [255] else if a = 0x80107000 then Table spt [255, 511] else Kern)"

lemma ld64_zero: "ld64 (\<lambda>_. 0) a = 0"
proof -
  have "rd_bytes n (\<lambda>_. 0) = (0 :: u64)" for n by (induction n) auto
  then show ?thesis by (simp add: ld64_def)
qed

lemma sample_ld64:
  assumes "pg_aligned t" "i < 512"
  shows "ld64 sample_mem (entry t i) =
    (if t = 0x80100000 \<and> i = 0 then PA2PTE 0x80101000 OR 1 else if t = 0x80101000 \<and> i = 0 then PA2PTE 0x80102000 OR 1
     else if t = 0x80102000 \<and> i = 0 then PA2PTE 0x80103000 OR 0x1F else if t = 0x80100000 \<and> i = 255 then PA2PTE 0x80106000 OR 1
     else if t = 0x80106000 \<and> i = 511 then PA2PTE 0x80107000 OR 1 else if t = 0x80107000 \<and> i = 510 then PA2PTE 0x80105000 OR 7
     else if t = 0x80107000 \<and> i = 511 then PA2PTE 0x80007000 OR 0xB else 0)"
  using assms by (simp add: sample_mem_def ld64_st64_entry pg_aligned_def ld64_zero)

lemma sample_entries:
  "bit (PA2PTE 0x80101000 OR 1) 0" "bit (PA2PTE 0x80102000 OR 1) 0" "bit (PA2PTE 0x80103000 OR 0x1F) 0"
  "PTE2PA (PA2PTE 0x80101000 OR 1) = 0x80101000" "PTE2PA (PA2PTE 0x80102000 OR 1) = 0x80102000"
  "PTE2PA (PA2PTE 0x80103000 OR 0x1F) = 0x80103000"
  "bit (PA2PTE 0x80106000 OR 1) 0" "bit (PA2PTE 0x80107000 OR 1) 0" "bit (PA2PTE 0x80105000 OR 7) 0" "bit (PA2PTE 0x80007000 OR 0xB) 0"
  "PTE2PA (PA2PTE 0x80106000 OR 1) = 0x80106000" "PTE2PA (PA2PTE 0x80107000 OR 1) = 0x80107000"
  "PTE2PA (PA2PTE 0x80105000 OR 7) = 0x80105000" "PTE2PA (PA2PTE 0x80007000 OR 0xB) = 0x80007000"
  by (simp_all add: bit_or_iff macro_bits PTE2PA_PA2PTE pg_aligned_def)

lemma sample_node:
  "i < 512 \<Longrightarrow> node sample_mem spt [i] = (if i = 0 then Some 0x80101000 else if i = 255 then Some 0x80106000 else None)"
  "i < 512 \<Longrightarrow> j < 512 \<Longrightarrow> node sample_mem spt [i, j] =
     (if i = 0 \<and> j = 0 then Some 0x80102000 else if i = 255 \<and> j = 511 then Some 0x80107000 else None)"
  using sample_ld64 [of "0x80100000" i] sample_ld64 [of "0x80101000" j] sample_ld64 [of "0x80106000" j] sample_entries
  by (auto simp: pg_aligned_def Let_def)

lemma sample_leaf:
  "leaf sample_mem spt va = (if PX 2 va = 0 \<and> PX 1 va = 0 then entry 0x80102000 (PX 0 va)
     else if PX 2 va = 255 \<and> PX 1 va = 511 then entry 0x80107000 (PX 0 va) else 0)"
  unfolding leaf_def by (simp add: sample_node(2) del: node.simps)

lemma sample_pte: "leaf sample_mem spt va \<noteq> 0 \<Longrightarrow>
  pte sample_mem spt va = (if px_list va = [0, 0, 0] then PA2PTE 0x80103000 OR 0x1F
    else if px_list va = [255, 511, 510] then PA2PTE 0x80105000 OR 7
    else if px_list va = [255, 511, 511] then PA2PTE 0x80007000 OR 0xB else 0)"
  using sample_ld64 [of "0x80102000" "PX 0 va"] sample_ld64 [of "0x80107000" "PX 0 va"]
  by (auto simp: pte_def sample_leaf pg_aligned_def px_list_def split: if_splits)

lemma sample_not_swapped: "\<not> swapped sample_mem spt va"
  using sample_pte [of va] sample_entries by (auto simp: swapped_def split: if_splits)

lemma sample_space: "space_ok sample_own sown {spt} B sample_mem"
proof -
  have "pg_aligned t \<and> sample_own t = Table spt p"
    if p: "length p \<le> 2" "set p \<subseteq> {..<512}" "node sample_mem spt p = Some t" for p t
  proof (cases p)
    case Nil
    then show ?thesis using p by (simp add: sample_own_def pg_aligned_def)
  next
    case (Cons i q)
    show ?thesis
    proof (cases q)
      case Nil
      then show ?thesis using p Cons sample_node(1) [of i]
        by (auto simp: sample_own_def pg_aligned_def simp del: node.simps split: if_splits)
    next
      case (Cons j r)
      then have "p = [i, j]" using p(1) \<open>p = i # q\<close> by auto
      then show ?thesis using p sample_node(2) [of i j]
        by (auto simp: sample_own_def pg_aligned_def simp del: node.simps split: if_splits)
    qed
  qed
  then have "tabs_ok sample_own {spt} sample_mem" by (auto simp: tabs_ok_def simp del: node.simps)
  moreover have "sample_own (PTE2PA (pte sample_mem spt va)) \<in> {Upage spt (px_list va), Shared spt (px_list va), Kern}"
    if "leaf sample_mem spt va \<noteq> 0" "bit (pte sample_mem spt va) 0" for va
    using that sample_pte [OF that(1)] sample_entries by (simp add: sample_own_def split: if_splits)
  then have "upages_ok sample_own {spt} sample_mem" by (fastforce simp: upages_ok_def)
  moreover have "slots_ok sown {spt} B sample_mem" by (simp add: slots_ok_def sample_not_swapped)
  ultimately show ?thesis by (simp add: space_ok_def)
qed

lemma bio_more_fields:
  assumes "bio_st.more t = bio_st.more s"
  shows "kend t = kend s" "freelist t = freelist s" "pages t = pages s" "lru_head t = lru_head s" "lru_tail t = lru_tail s"
    "swap_bitmap t = swap_bitmap s" "swap_slots t = swap_slots s"
  using assms by (cases s, cases t, simp)+

lemma sample_fields:
  "held sample = []" "cur sample = Some 0" "mem sample = sample_mem" "kend sample = spt" "freelist sample = 0"
  "pages sample i = (if i = 259 then \<lparr>pg_next = Some 259, pg_prev = Some 259, pg_pagetable = spt, pg_vaddr = 0\<rparr>
                   else \<lparr>pg_next = None, pg_prev = None, pg_pagetable = 0, pg_vaddr = 0\<rparr>)"
  "lru_head sample = Some 259" "lru_tail sample = Some 259" "swap_bitmap sample = 0x80104000" "swap_slots sample = 7000"
  "b_blockno (bufs sample b) = 0" "b_refcnt (bufs sample b) = 0" "\<not> sl_locked (slocks sample (Buf_slock c))"
  "p_trapframe (ptab sample p) = 0x80105000" "p_state (ptab sample p) = RUNNING" "\<not> b_valid (bufs sample b)"
  "p_pagetable (ptab sample p) = spt" "p_killed (ptab sample p) = 0" "disk sample = (\<lambda>_ _. 0)"
proof -
  let ?s = "\<lparr>held = [], cur = Some 0,
     ptab = (\<lambda>_. \<lparr>p_state = RUNNING, p_chan = None, p_killed = 0, p_xstate = 0, p_pid = 1, p_parent = None, p_kstack = 0,
        p_sz = 4096, p_pagetable = spt, p_trapframe = 0x80105000, p_context = \<lparr>ra = 0, sp = 0, s_regs = (\<lambda>_. 0)\<rparr>,
        p_ofile = (\<lambda>_. None), p_cwd = None, p_name = []\<rparr>),
     slocks = (\<lambda>_. \<lparr>sl_locked = False, sl_pid = 0\<rparr>), mem = sample_mem,
     bufs = (\<lambda>_. \<lparr>b_valid = False, b_disk = False, b_dev = 0, b_blockno = 0, b_refcnt = 0, b_prev = 0, b_next = 0, b_data = (\<lambda>_. 0)\<rparr>),
     disk = (\<lambda>_ _. 0), dwrites = [], nr_sectors_read = 0, nr_sectors_write = 0, kend = spt, freelist = 0,
     pages = (\<lambda>i. if i = 259 then \<lparr>pg_next = Some 259, pg_prev = Some 259, pg_pagetable = spt, pg_vaddr = 0\<rparr>
                   else \<lparr>pg_next = None, pg_prev = None, pg_pagetable = 0, pg_vaddr = 0\<rparr>),
     lru_head = Some 259, lru_tail = Some 259, swap_bitmap = 0x80104000, swap_slots = 7000, kernel_pagetable = 0\<rparr> :: vm_st"
  define u where "u = upd_buf HEAD (b_next_update (\<lambda>_. HEAD)) (upd_buf HEAD (b_prev_update (\<lambda>_. HEAD)) ?s)"
  have b: "sample = binit_loop [0..<NBUF] u" unfolding sample_def binit_def u_def Let_def ..
  note f = binit_loop_fields [where bs = "[0..<NBUF]" and s = u, folded b]
  have "bio_st.more sample = bio_st.more ?s" by (simp add: f u_def upd_buf_def del: upt_rec_numeral)
  note m = bio_more_fields [OF this]
  show "kend sample = spt" "freelist sample = 0"
    "pages sample i = (if i = 259 then \<lparr>pg_next = Some 259, pg_prev = Some 259, pg_pagetable = spt, pg_vaddr = 0\<rparr>
                   else \<lparr>pg_next = None, pg_prev = None, pg_pagetable = 0, pg_vaddr = 0\<rparr>)"
    "lru_head sample = Some 259" "lru_tail sample = Some 259" "swap_bitmap sample = 0x80104000" "swap_slots sample = 7000"
    by (simp_all add: m)
  show "held sample = []" "cur sample = Some 0" "mem sample = sample_mem"
    "b_blockno (bufs sample b) = 0" "b_refcnt (bufs sample b) = 0" "\<not> sl_locked (slocks sample (Buf_slock c))"
    "p_trapframe (ptab sample p) = 0x80105000" "p_state (ptab sample p) = RUNNING" "\<not> b_valid (bufs sample b)"
  "p_pagetable (ptab sample p) = spt" "p_killed (ptab sample p) = 0" "disk sample = (\<lambda>_ _. 0)"
    by (simp_all add: f u_def upd_buf_def del: upt_rec_numeral)
qed

lemma sample_ready: "swap_ready sample"
proof -
  have "bio_inv sample" unfolding sample_def by (rule binit_inv) simp
  then show ?thesis by (auto simp: swap_ready_def ready_def sample_fields in_swap_def intro: exI [of _ 0])
qed

lemma sample_vm: "vm_inv sample_own sown {spt} [259] [] sample"
proof -
  have "px_list 0 = [0, 0, 0]" "PX l 0 = 0" for l by (simp_all add: px_list_def PX_def)
  then have "resident sample_own {spt} sample 259"
    using sample_entries by (simp add: resident_def sample_fields sample_leaf sample_pte entry_def page_to_pa_def sample_own_def)
  moreover have "lru_list sample [259]" by (simp add: lru_list_def ring_Cons sample_fields)
  moreover have "sample_own a \<noteq> Kern \<longrightarrow> pg_aligned a \<and> spt \<le> a \<and> a < PHYSTOP" for a
    by (simp add: sample_own_def pg_aligned_def)
  ultimately show ?thesis using sample_space
    by (simp add: vm_inv_def sample_fields) (simp add: sample_own_def)
qed

text \<open>The same address space with its page swapped out, in slot 3.\<close>

definition swapped_sample :: vm_st where
  "swapped_sample = sample\<lparr>mem := st64 sample_mem (leaf sample_mem spt 0) (swap_entry 3 (pte sample_mem spt 0))\<rparr>"

lemma swapped_sample_swapped: "swapped (mem swapped_sample) spt 0"
proof -
  have t: "tabs_ok sample_own {spt} sample_mem" using sample_space by (simp add: space_ok_def)
  have l: "leaf sample_mem spt 0 \<noteq> 0" by (simp add: sample_leaf PX_def entry_def)
  show ?thesis
    using swapped_st64 [OF t _ l, of spt "swap_entry 3 (pte sample_mem spt 0)" 0] swap_entry_spec [of 3 "pte sample_mem spt 0"]
    by (simp add: swapped_sample_def)
qed

section \<open>The upper layers\<close>

text \<open>The state of the upper layers at rest, on top of a state of the lower ones.\<close>

definition sys_of :: "vm_st \<Rightarrow> sys_st" where
  "sys_of s = vm_st.extend s
     (log_st_ext \<lparr>log_start = 2, log_size = 30, log_outstanding = 0, log_committing = False, log_dev = 1,
                   log_lh = \<lparr>lh_n = 0, lh_block = (\<lambda>_. 0)\<rparr>\<rparr>
     (fs_st_ext \<lparr>sb_magic = FSMAGIC, sb_size = 30000, sb_nblocks = 29948, sb_ninodes = 200, sb_nlog = 30, sb_logstart = 2,
                  sb_inodestart = 32, sb_bmapstart = 48\<rparr>
        (\<lambda>_. \<lparr>i_dev = 0, i_inum = 0, i_ref = 0, i_valid = False, i_type = 0, i_major = 0, i_minor = 0, i_nlink = 0,
               i_size = 0, i_addrs = (\<lambda>_. 0)\<rparr>)
     (cons_st_ext \<lparr>uart_tx_buf = (\<lambda>_. 0), uart_tx_w = 0, uart_tx_r = 0\<rparr> 0 [] [] False
        \<lparr>c_buf = (\<lambda>_. 0), c_r = 0, c_w = 0, c_e = 0\<rparr>
     (file_st_ext (\<lambda>_. \<lparr>f_type = FD_NONE, f_ref = 0, f_readable = False, f_writable = False, f_pipe = 0, f_ip = None,
                         f_off = 0, f_major = 0\<rparr>)
        (\<lambda>_. \<lparr>pi_data = (\<lambda>_. 0), pi_nread = 0, pi_nwrite = 0, pi_readopen = False, pi_writeopen = False\<rparr>)
     (proc_st_ext 2 (Some 0) False 0x80007000 0x80002000 (sys_st_ext 0 ()))))))"

lemma sys_of_fields [simp]:
  "held (sys_of s) = held s" "cur (sys_of s) = cur s" "ptab (sys_of s) = ptab s" "slocks (sys_of s) = slocks s"
  "mem (sys_of s) = mem s" "bufs (sys_of s) = bufs s" "disk (sys_of s) = disk s"
  by (simp_all add: sys_of_def vm_st.defs)

lemma sys_of_ready: "swap_ready s \<Longrightarrow> swap_ready (sys_of s)"
proof -
  assume "swap_ready s"
  moreover have "bio_inv (sys_of s) = bio_inv s" by (simp add: bio_inv_def blist_def)
  ultimately show ?thesis by (simp add: swap_ready_def ready_def)
qed

section \<open>A process that knows a physical address\<close>

text \<open>
  Process 0 has a page table at \<^verbatim>\<open>0x80109000\<close> and a trap frame at \<^verbatim>\<open>0x80108000\<close>; the other processes are as in \<open>sample\<close>. It has put the
  physical address of the page of another process and the number of a slot into its argument registers. The disk is full of fives.
\<close>

definition intruder_vm :: vm_st where
  "intruder_vm = sample\<lparr>mem := st64 (st64 sample_mem (entry 0x80108000 14) 0x80103000) (entry 0x80108000 15) 3,
     ptab := (ptab sample)(0 := (ptab sample 0)\<lparr>p_pagetable := 0x80109000, p_trapframe := 0x80108000\<rparr>), disk := \<lambda>_ _. 5\<rparr>"

definition intruder :: sys_st where
  "intruder = sys_of intruder_vm"

lemma sys_of_inv: "vm_inv own sown R xs fs s \<Longrightarrow> vm_inv own sown R xs fs (sys_of s)"
  unfolding vm_inv_def lru_list_def resident_def by (simp add: sys_of_def vm_st.defs Let_def)

lemma intruder_changes: "changes sample_own sample_mem (mem intruder_vm) {Kern}"
proof -
  have "changes sample_own m (st64 m (entry 0x80108000 i) v) {Kern}" if "i < 512" for m i v
    by (rule changes_st64 [OF _ that]) (simp_all add: pg_aligned_def sample_own_def)
  from changes_trans [OF this this] show ?thesis by (simp add: intruder_vm_def)
qed

lemma intruder_inv: "vm_inv sample_own sown {spt} [259] [] intruder"
  unfolding intruder_def
proof (rule sys_of_inv [OF vm_inv_same [OF sample_vm]])
  show "changes sample_own (mem sample) (mem intruder_vm) {Kern}" using intruder_changes by (simp add: sample_fields)
  show "vm_same sample intruder_vm" by (simp add: vm_same_def intruder_vm_def)
  show "space_ok sample_own sown {spt} (swap_bitmap sample) (mem intruder_vm)"
    by (rule space_changes [OF sample_space intruder_changes]) (simp_all add: sample_not_swapped)
qed simp

lemma intruder_ready: "swap_ready intruder"
  unfolding intruder_def
proof (rule sys_of_ready)
  have "bio_inv sample" using sample_ready by (simp add: swap_ready_def)
  then have "bio_inv intruder_vm" by (simp add: bio_inv_def blist_def intruder_vm_def sample_fields)
  then show "swap_ready intruder_vm" using sample_ready by (simp add: swap_ready_def ready_def intruder_vm_def)
qed

lemma intruder_page: "leaf (mem intruder) spt 0 \<noteq> 0" "pte (mem intruder) spt 0 = PA2PTE 0x80103000 OR 0x1F"
proof -
  have t: "tabs_ok sample_own {spt} sample_mem" using sample_space by (simp add: space_ok_def)
  have l: "leaf sample_mem spt 0 \<noteq> 0" by (simp add: sample_leaf PX_def entry_def)
  show "leaf (mem intruder) spt 0 \<noteq> 0" using leaf_changes [OF t intruder_changes] l by (simp add: intruder_def)
  show "pte (mem intruder) spt 0 = PA2PTE 0x80103000 OR 0x1F"
    using pte_changes [OF t intruder_changes _ _ l] sample_pte [OF l] by (simp add: intruder_def px_list_def PX_def)
qed

lemma intruder_args: "argaddr 0 intruder = Ok 0x80103000" "argint 1 intruder = Ok 3"
proof -
  let ?m = "st64 (st64 sample_mem (entry 0x80108000 14) 0x80103000) (entry 0x80108000 15) 3"
  have "ld64 ?m (entry 0x80108000 14) = 0x80103000" "ld64 ?m (entry 0x80108000 15) = 3" by (simp_all add: ld64_st64_entry pg_aligned_def)
  moreover have "entry 0x80108000 14 = 0x80108000 + 112" "entry 0x80108000 15 = 0x80108000 + 120" by (simp_all add: entry_def)
  ultimately have "argraw 0 intruder = Ok 0x80103000" "argraw 1 intruder = Ok 3"
    by (simp_all add: argraw_def myproc_def intruder_def intruder_vm_def sample_fields)
  then show "argaddr 0 intruder = Ok 0x80103000" "argint 1 intruder = Ok 3" by (simp_all add: argaddr_def argint_def)
qed

lemma intruder_slot: "slot_data intruder k = (\<lambda>_. 5)"
proof -
  have "bview intruder m = (\<lambda>_. 5)" for m
    using bview_uncached [of intruder m] by (simp add: intruder_def intruder_vm_def sample_fields)
  then show ?thesis by (simp add: slot_data_def)
qed

section \<open>A page fault\<close>

text \<open>
  The user page is in slot 3 and its frame is free; the process has just touched the page.
\<close>

definition fault_mem0 :: memory where
  "fault_mem0 = sample_mem(0x80104000 := 8)"

definition fault_mem :: memory where
  "fault_mem = st64 fault_mem0 (leaf fault_mem0 spt 0) (swap_entry 3 (pte fault_mem0 spt 0))"

definition fault_own :: owners where
  "fault_own = sample_own(0x80103000 := Free)"

definition fault_vm :: vm_st where
  "fault_vm = sample\<lparr>mem := fault_mem, freelist := 0x80103000,
     pages := \<lambda>_. \<lparr>pg_next = None, pg_prev = None, pg_pagetable = 0, pg_vaddr = 0\<rparr>, lru_head := None, lru_tail := None\<rparr>"

definition idle_vdisk :: vdisk where
  "idle_vdisk = \<lparr>vdesc = \<lambda>_. \<lparr>vd_addr = VNull, vd_len = 0, vd_flags = 0, vd_next = 0\<rparr>, vavail = \<lparr>avail_idx = 0, avail_ring = \<lambda>_. 0\<rparr>,
     vused = \<lparr>used_dev_idx = 0, used_ring = \<lambda>_. 0\<rparr>, vfree = \<lambda>i. i < VIRTIO_NUM, used_idx = 0, info_b = \<lambda>_. None, info_status = \<lambda>_. 0,
     vops = \<lambda>_. \<lparr>rq_type = 0, rq_reserved = 0, rq_sector = 0\<rparr>\<rparr>"

definition virtio_of :: "vm_st \<Rightarrow> virtio_st" where
  "virtio_of s = sys_st.extend (sys_of s) (virtio_st_ext idle_vdisk ())"

definition trap_of :: "u64 \<Rightarrow> u64 \<Rightarrow> vm_st \<Rightarrow> trap_st" where
  "trap_of cause va s = sys_st.extend (sys_of s) (virtio_st_ext idle_vdisk
     (trap_st_ext 0 0x1000 cause va 0 0 0 0 0 [] [] \<lparr>kernelvec_addr = 0x80001000, usertrap_addr = 0x80001800, uservec_off = 0, userret_off = 0x9c\<rparr> None ()))"

lemma trap_of_fields [simp]:
  "held (trap_of c va s) = held s" "cur (trap_of c va s) = cur s" "ptab (trap_of c va s) = ptab s" "slocks (trap_of c va s) = slocks s"
  "mem (trap_of c va s) = mem s" "bufs (trap_of c va s) = bufs s" "disk (trap_of c va s) = disk s"
  "scause (trap_of c va s) = c" "stval (trap_of c va s) = va" "sstatus (trap_of c va s) = 0" "sepc (trap_of c va s) = 0x1000"
  by (simp_all add: trap_of_def sys_of_def sys_st.defs vm_st.defs)

lemma trap_of_vm:
  "kend (trap_of c va s) = kend s" "freelist (trap_of c va s) = freelist s" "pages (trap_of c va s) = pages s"
  "lru_head (trap_of c va s) = lru_head s" "lru_tail (trap_of c va s) = lru_tail s" "swap_bitmap (trap_of c va s) = swap_bitmap s"
  "swap_slots (trap_of c va s) = swap_slots s"
  by (simp_all add: trap_of_def sys_of_def sys_st.defs vm_st.defs)

lemma trap_of_inv: "vm_inv own sown R xs fs s \<Longrightarrow> vm_inv own sown R xs fs (trap_of c va s)"
  unfolding vm_inv_def lru_list_def resident_def by (simp add: trap_of_vm Let_def)

lemma trap_of_ready: "swap_ready s \<Longrightarrow> swap_ready (trap_of c va s)"
  using swap_ready_cong [of "trap_of c va s" s] by simp

lemma fault_space0: "space_ok sample_own sown {spt} 0x80104000 fault_mem0"
proof -
  have ch: "changes sample_own sample_mem fault_mem0 {Bitmap}"
    unfolding fault_mem0_def by (rule changes_byte) (simp add: PGROUNDDOWN_def sample_own_def)
  show ?thesis by (rule space_changes [OF sample_space ch]) (simp_all add: sample_not_swapped)
qed

lemma fault_leaf0: "leaf fault_mem0 spt va = leaf sample_mem spt va"
proof -
  have ch: "changes sample_own sample_mem fault_mem0 {Bitmap}"
    unfolding fault_mem0_def by (rule changes_byte) (simp add: PGROUNDDOWN_def sample_own_def)
  have "tabs_ok sample_own {spt} sample_mem" using sample_space by (simp add: space_ok_def)
  from leaf_changes [OF this ch] show ?thesis by simp
qed

lemma fault_leaf0_0: "leaf fault_mem0 spt 0 = 0x80102000"
  unfolding fault_leaf0 by (simp add: sample_leaf PX_def entry_def)

lemma fault_space: "space_ok fault_own (\<lambda>_. (spt, [0, 0, 0])) {spt} 0x80104000 fault_mem"
  unfolding fault_mem_def
proof (rule space_st64 [OF fault_space0 [of "\<lambda>_. (spt, [0, 0, 0])"]])
  show "sample_own 0x80104000 = Bitmap" "pg_aligned 0x80104000" by (simp_all add: sample_own_def pg_aligned_def)
  show "leaf fault_mem0 spt 0 \<noteq> 0" by (simp add: fault_leaf0_0)
  have "px_list 0 = [0, 0, 0]" by (simp add: px_list_def PX_def)
  moreover have "slot_bit fault_mem0 0x80104000 3" by (simp add: slot_bit_def fault_mem0_def)
  ultimately show "0 \<le> pte_slot (swap_entry 3 (pte fault_mem0 spt 0)) \<and> pte_slot (swap_entry 3 (pte fault_mem0 spt 0)) < 7000 \<and>
     slot_bit fault_mem0 0x80104000 (nat (pte_slot (swap_entry 3 (pte fault_mem0 spt 0)))) \<and> (spt, [0, 0, 0]) = (spt, px_list 0)"
    using swap_entry_spec(3) [of 3] by simp
  show "sample_own a = Upage spt (px_list 0) \<or> sample_own a = Free \<or> sample_own a = Held" if "fault_own a \<noteq> sample_own a" for a
    using that \<open>px_list 0 = [0, 0, 0]\<close> by (simp add: fault_own_def sample_own_def split: if_splits)
qed (use swap_entry_spec(1) [of 3] in simp_all)

lemma px_trapframe: "px_list TRAPFRAME = [255, 511, 510]"
  by (simp add: px_list_def PX_def drop_bit_eq_div take_bit_eq_mod)

text \<open>The trap frame is mapped where \<^verbatim>\<open>uservec\<close> and \<^verbatim>\<open>userret\<close> expect it.\<close>

lemma fault_trapframe: "leaf fault_mem spt TRAPFRAME \<noteq> 0" "pte fault_mem spt TRAPFRAME = PA2PTE 0x80105000 OR 7"
proof -
  have t: "tabs_ok sample_own {spt} sample_mem" "tabs_ok sample_own {spt} fault_mem0"
    using sample_space fault_space0 by (simp_all add: space_ok_def)
  have ch: "changes sample_own sample_mem fault_mem0 {Bitmap}"
    unfolding fault_mem0_def by (rule changes_byte) (simp add: PGROUNDDOWN_def sample_own_def)
  have l: "leaf sample_mem spt TRAPFRAME \<noteq> 0" using px_trapframe by (simp add: sample_leaf px_list_def entry_def)
  have l0: "leaf fault_mem0 spt 0 \<noteq> 0" "leaf fault_mem0 spt TRAPFRAME \<noteq> 0" using l by (simp add: fault_leaf0_0, simp add: fault_leaf0)
  have "pte fault_mem0 spt TRAPFRAME = PA2PTE 0x80105000 OR 7"
    using pte_changes [OF t(1) ch _ _ l] sample_pte [OF l] by (simp add: px_trapframe)
  moreover have "px_list 0 = [0, 0, 0]" by (simp add: px_list_def PX_def)
  ultimately show "pte fault_mem spt TRAPFRAME = PA2PTE 0x80105000 OR 7"
    unfolding fault_mem_def using pte_st64 [OF t(2) _ l0(1) _ l0(2)] by (simp add: px_trapframe)
  show "leaf fault_mem spt TRAPFRAME \<noteq> 0"
    unfolding fault_mem_def using leaf_st64 [OF t(2) _ l0(1)] l0(2) by simp
qed

lemma fault_swapped: "swapped fault_mem spt 0"
proof -
  have t: "tabs_ok sample_own {spt} fault_mem0" using fault_space0 by (simp add: space_ok_def)
  have l: "leaf fault_mem0 spt 0 \<noteq> 0" by (simp add: fault_leaf0_0)
  show ?thesis
    using swapped_st64 [OF t _ l, of spt "swap_entry 3 (pte fault_mem0 spt 0)" 0] swap_entry_spec [of 3 "pte fault_mem0 spt 0"]
    by (simp add: fault_mem_def)
qed

lemma fault_free: "ld64 fault_mem 0x80103000 = 0"
proof -
  have "ld64 fault_mem (entry 0x80103000 0) = ld64 fault_mem0 (entry 0x80103000 0)"
    using ld64_st64_entry [of "0x80102000" "0x80103000" 0 0] by (simp add: fault_mem_def fault_leaf0_0 pg_aligned_def entry_def)
  also have "\<dots> = ld64 sample_mem (entry 0x80103000 0)" 
  proof (rule ld64_page_cong)
    show "page_eq 0x80103000 fault_mem0 sample_mem" by (auto simp: page_eq_def fault_mem0_def PGROUNDDOWN_def)
  qed (simp_all add: pg_aligned_def)
  finally show ?thesis using sample_ld64 [of "0x80103000" 0] by (simp add: entry_def pg_aligned_def)
qed

lemma fault_vm_inv: "vm_inv fault_own (\<lambda>_. (spt, [0, 0, 0])) {spt} [] [0x80103000] fault_vm"
proof -
  have "fault_own a \<noteq> Kern \<longrightarrow> pg_aligned a \<and> spt \<le> a \<and> a < PHYSTOP" for a
    by (simp add: fault_own_def sample_own_def pg_aligned_def)
  moreover have "fault_own 0x80104000 = Bitmap" "fault_own 0x80103000 = Free" by (simp_all add: fault_own_def sample_own_def)
  ultimately show ?thesis
    using fault_space fault_free by (simp add: vm_inv_def fault_vm_def sample_fields lru_list_def)
qed

lemma fault_ready: "swap_ready fault_vm"
  using sample_ready swap_ready_fields [of sample fault_vm] by (simp add: fault_vm_def sample_fields)

section \<open>A transaction\<close>

text \<open>A transaction with one block, number 100, about to commit.\<close>

definition tx_sample :: log_st where
  "tx_sample = vm_st.extend
     (sample\<lparr>bufs := (bufs sample)(0 := (bufs sample 0)\<lparr>b_valid := True, b_dev := 1, b_blockno := 100, b_refcnt := 1, b_data := \<lambda>_. 7\<rparr>)\<rparr>)
     (log_st_ext \<lparr>log_start = 2, log_size = 30, log_outstanding = 0, log_committing = True, log_dev = 1,
                   log_lh = \<lparr>lh_n = 1, lh_block = (\<lambda>_. 100)\<rparr>\<rparr> ())"

lemma tx_sample_fields:
  "disk tx_sample n = (\<lambda>_. 0)"
  "klog tx_sample = \<lparr>log_start = 2, log_size = 30, log_outstanding = 0, log_committing = True, log_dev = 1,
                   log_lh = \<lparr>lh_n = 1, lh_block = (\<lambda>_. 100)\<rparr>\<rparr>"
  "b_blockno (bufs tx_sample b) = (if b = 0 then 100 else 0)" "b_refcnt (bufs tx_sample b) = (if b = 0 then 1 else 0)"
  "b_valid (bufs tx_sample b) \<longleftrightarrow> b = 0" "\<not> sl_locked (slocks tx_sample (Buf_slock b))"
  by (simp_all add: tx_sample_def vm_st.defs sample_fields)

lemma tx_sample_bio: "bio_inv tx_sample"
proof -
  have i: "bio_inv sample" using sample_ready by (simp add: swap_ready_def ready_def)
  then obtain xs where "blist sample xs" by (auto simp: bio_inv_def)
  moreover have "same_links sample tx_sample" by (simp add: same_links_def tx_sample_def vm_st.defs)
  ultimately have "blist tx_sample xs" by (simp add: blist_same_links)
  then show ?thesis
    by (rule bio_invI) (simp_all add: tx_sample_fields split: if_splits)
qed

lemma tx_sample_home: "home (klog tx_sample) 100"
proof -
  have "lblk 2 i \<noteq> 100" if "i \<le> LOGSIZE" for i using lblk_unat [of 2 i] that by auto
  then show ?thesis by (auto simp: home_def tx_sample_fields in_swap_def)
qed

lemma tx_sample_ready: "tx_ready tx_sample"
proof -
  have z: "rd32 (\<lambda>_. 0) 0 = 0" by (simp add: rd32_def eval_nat_numeral)
  have "lh_ok (klog tx_sample)" using tx_sample_home by (simp add: lh_ok_def tx_sample_fields lessThan_Suc)
  moreover have "cache_ok tx_sample"
    using tx_sample_bio by (simp add: cache_ok_def ready_def cached_def devof_def in_swap_def tx_sample_def vm_st.defs sample_fields)
  moreover have "\<exists>b < NBUF. b_refcnt (bufs tx_sample b) = 0"
    by (rule exI [of _ 1]) (simp add: tx_sample_def vm_st.defs sample_fields)
  moreover have "\<exists>b < NBUF. b_blockno (bufs tx_sample b) = 100 \<and> b_refcnt (bufs tx_sample b) \<noteq> 0"
    by (rule exI [of _ 0]) (simp add: tx_sample_def vm_st.defs)
  moreover have "\<not> sl_locked (slocks tx_sample (Buf_slock b)) \<and> b_refcnt (bufs tx_sample b) \<noteq> - 1" for b
    by (simp add: tx_sample_def vm_st.defs sample_fields)
  ultimately show ?thesis using z by (simp add: tx_ready_def tx_sample_fields log_geom_def)
qed

lemma tx_sample_view: "txview (klog tx_sample) (bview tx_sample) (disk tx_sample) 100 = (\<lambda>_. 7)"
proof -
  have "bview tx_sample 100 = b_data (bufs tx_sample 0)"
    by (rule bview_cached [OF tx_sample_bio]) (simp_all add: tx_sample_def vm_st.defs)
  then show ?thesis by (simp add: txview_def tx_sample_fields) (simp add: tx_sample_def vm_st.defs)
qed

text \<open>The cache holds thirty different blocks and the log is empty.\<close>

definition overrun :: log_st where
  "overrun = vm_st.extend (sample\<lparr>bufs := \<lambda>b. (bufs sample b)\<lparr>b_blockno := of_nat (100 + b)\<rparr>\<rparr>)
     (log_st_ext \<lparr>log_start = 2, log_size = 30, log_outstanding = 0, log_committing = False, log_dev = 1,
                   log_lh = \<lparr>lh_n = 0, lh_block = (\<lambda>_. 0)\<rparr>\<rparr> ())"

lemma overrun_blocks:
  "card ((\<lambda>b. b_blockno (bufs overrun b)) ` set ([0..<28] @ [5])) = 28"
  "b_blockno (bufs overrun 28) \<notin> (\<lambda>b. b_blockno (bufs overrun b)) ` set ([0..<28] @ [5])"
proof -
  have b: "b_blockno (bufs overrun b) = of_nat (100 + b)" for b by (simp add: overrun_def vm_st.defs)
  have i: "inj_on (\<lambda>b. b_blockno (bufs overrun b)) {..<29}"
    unfolding b by (rule inj_onI) (auto simp: word_unat_eq_iff unat_of_nat simp del: of_nat_add)
  have e: "set ([0..<28] @ [5]) = {..<28}" by (auto simp: less_eq_Suc_le simp del: upt_rec_numeral)
  show "card ((\<lambda>b. b_blockno (bufs overrun b)) ` set ([0..<28] @ [5])) = 28"
    unfolding e using inj_on_subset [OF i, of "{..<28}"] by (simp add: card_image)
  show "b_blockno (bufs overrun 28) \<notin> (\<lambda>b. b_blockno (bufs overrun b)) ` set ([0..<28] @ [5])"
    unfolding e using inj_on_image_mem_iff [OF i, of 28 "{..<28}"] by simp
qed

end
