(* ===== verification/Spec2Isabelle.thy ===== *)
theory Spec2Isabelle
  imports Sysfile Fault Crash Tools Sh Spinlock Hart Disk Umalloc Mkfs Sample
begin

text \<open>
  A verification development for this xv6 kernel (RISC-V), which extends xv6 with demand paging to a
  swap area on the disk.

  \<^bold>\<open>How the kernel is modelled.\<close> An operation is a function from the kernel state to an outcome: \<open>Ok\<close> with a
  result and the next state, \<open>Panic\<close> with the message of \<^verbatim>\<open>panic\<close>, \<open>Block\<close> when the thread has to wait for
  another one, \<open>Loop\<close> when a loop does not end. The state is a chain of records, one per layer; an
  operation is polymorphic in the layers above it. Physical memory is a function from 64-bit addresses
  to bytes: page tables, the free list and user pages live in it as they do in the machine. Loops whose
  end is not structural go through \<open>loopr\<close>, which is \<open>Loop\<close> when they do not end, so that no fuel is
  needed; the recursion of \<^verbatim>\<open>freewalk\<close> has fuel 3, the depth of a page table. A kernel thread owns
  the locks in \<open>held\<close>; what other threads do while it sleeps is the parameter \<open>others\<close>. The wait loops of \<^verbatim>\<open>acquiresleep\<close> and
  \<^verbatim>\<open>begin_op\<close> are in \<open>acquiresleep_with\<close> and \<open>begin_op_with\<close>; the layers above call them as \<open>acquiresleep\<close> and \<open>begin_op\<close>, with
  nobody to wake the thread up, so that a wait is the outcome \<open>Block\<close>.

  \<^bold>\<open>Theories\<close>, from the bottom of the import graph:

  \<^item> \<open>Xv6_Prelude\<close>: outcomes, loops, byte-addressed memory.
  \<^item> \<open>Riscv\<close>: the constants and address macros of \<^verbatim>\<open>kernel/riscv.h\<close>, \<^verbatim>\<open>memlayout.h\<close>, \<^verbatim>\<open>param.h\<close>.
  \<^item> \<open>Ring\<close>, \<open>Fifo\<close>: circular doubly linked lists; the contract of a bounded queue in a ring buffer (locale \<open>fifo\<close>).
  \<^item> \<open>Locks\<close>, \<open>Sched\<close>, \<open>Sleeplock\<close>: the process table, spinlocks as a kernel thread sees them, \<^verbatim>\<open>sleep\<close>, \<^verbatim>\<open>wakeup\<close>, \<^verbatim>\<open>kill\<close>,
    \<^verbatim>\<open>sched\<close> of \<^verbatim>\<open>proc.c\<close>, and sleep locks (\<^verbatim>\<open>sleeplock.c\<close>).
  \<^item> \<open>Pages\<close>, \<open>Strings\<close>, \<open>Walk\<close>: page contents, \<^verbatim>\<open>string.c\<close>, page-table walks and user copies (\<^verbatim>\<open>vm.c\<close>).
  \<^item> \<open>Bio\<close>, \<open>SwapIO\<close>: the buffer cache (\<^verbatim>\<open>bio.c\<close>) over the disk, and the swap area (\<^verbatim>\<open>fs.c\<close>).
  \<^item> \<open>Kmem\<close>, \<open>Lru\<close>, \<open>Swap\<close>, \<open>Vm\<close>: page allocation (\<^verbatim>\<open>kalloc.c\<close>), LRU list and swap bitmap, \<^verbatim>\<open>swapout\<close>, \<^verbatim>\<open>kalloc\<close>,
    \<^verbatim>\<open>swapin\<close>, and the operations on address spaces (\<^verbatim>\<open>vm.c\<close>).
  \<^item> \<open>Frames\<close>, \<open>Paging\<close>, \<open>Swapin\<close>: who owns which page; the invariant \<open>vm_inv\<close> and the view \<open>uview\<close> of an address
    space; that demand paging keeps both.
  \<^item> \<open>Log\<close>, \<open>Fs\<close>: the write-ahead log and the file system.
  \<^item> \<open>Cache\<close>, \<open>Crash\<close>: the buffer cache as an abstract map from blocks to contents with pins, and the log over it: the
    sequence of disk writes of a commit, and what recovery makes of every prefix of it.
  \<^item> \<open>Console\<close>, \<open>File\<close>: UART and console, open files and pipes; both ring buffers are interpretations of \<open>fifo\<close>.
  \<^item> \<open>Proc\<close>, \<open>Exec\<close>, \<open>Sysfile\<close>: processes, program loading, system calls.
  \<^item> \<open>Virtio\<close>, \<open>Disk\<close>: descriptors, rings and interrupt of the disk driver (\<^verbatim>\<open>virtio_disk.c\<close>), and that with a device that serves its
    requests it implements the transfer \<open>Bio.virtio_disk_rw\<close>, which specifies for the cache what a completed request does (C8).
  \<^item> \<open>Trap\<close>, \<open>Fault\<close>: traps and device interrupts
    (\<^verbatim>\<open>trap.c\<close>, \<^verbatim>\<open>plic.c\<close>), and the page fault that brings a page in.
  \<^item> \<open>Hart\<close>: the registers of a hart, the accessors of \<^verbatim>\<open>riscv.h\<close>, and the code below the C level: \<^verbatim>\<open>entry.S\<close>, \<^verbatim>\<open>start.c\<close>, \<^verbatim>\<open>swtch.S\<close>, \<^verbatim>\<open>trampoline.S\<close>
    and \<^verbatim>\<open>kernelvec.S\<close>. A block of stores or loads is a list of registers with their offsets; address translation is a parameter.
  \<^item> \<open>Spinlock\<close>: the locks of \<^verbatim>\<open>spinlock.c\<close> as a step relation over several CPUs. It justifies that the other theories treat
    a lock as an element of \<open>held\<close>.
  \<^item> \<open>Ulib\<close>, \<open>Grep\<close>: the user library (\<^verbatim>\<open>ulib.c\<close>), formatted output of kernel and user (\<^verbatim>\<open>printf.c\<close>), and \<^verbatim>\<open>grep\<close>.
  \<^item> \<open>Sh\<close>: the parser of the shell (\<^verbatim>\<open>sh.c\<close>). Its recursion has fuel, four calls for each character of the line, which C15
    shows to be enough.
  \<^item> \<open>Tools\<close>: \<^verbatim>\<open>cat\<close>, \<^verbatim>\<open>wc\<close>, \<^verbatim>\<open>echo\<close>, \<^verbatim>\<open>kill\<close>, \<^verbatim>\<open>ln\<close>, \<^verbatim>\<open>mkdir\<close> and \<^verbatim>\<open>rm\<close>; \<^verbatim>\<open>cat\<close> copies and \<^verbatim>\<open>wc\<close> counts the whole file however \<^verbatim>\<open>read\<close> cuts it up.
  \<^item> \<open>Umalloc\<close>: the user allocator (\<^verbatim>\<open>umalloc.c\<close>) on a heap of headers; \<^verbatim>\<open>sbrk\<close> is a parameter.
  \<^item> \<open>Mkfs\<close>: the program that builds the file system image (\<^verbatim>\<open>mkfs.c\<close>).
  \<^item> \<open>Sample\<close>: a concrete state that satisfies the invariants.

  \<^bold>\<open>What the theorems show.\<close> Allocation, eviction, page-in and the page fault return and are invisible to
  processes (C1, C2, C3, C5), and a swap slot returns what
  was written (C9). A trap from user or kernel mode and a context switch
  restore the registers (C6, C11, C10). A commit of the log is atomic under crashes (C4). Locks exclude each other and keep
  interrupts off (C7, C23); a sleep lock is taken only while it is free and handed over to a waiting process
  (C39). \<^verbatim>\<open>grep\<close> decides the language of its pattern and prints the matching lines
  (C13, C14). The shell's parser ends and leaves every word terminated in place (C15). Pipe and UART buffers are queues (C16, C17); the cache returns the content of a block, and what it writes survives a reboot
  (C18, C36); the disk driver implements the transfers of the cache and loses no descriptor (C8, C21).
  The blocks \<^verbatim>\<open>malloc\<close> hands out are disjoint (C12), and the kernel finds the free blocks of an image \<^verbatim>\<open>mkfs\<close> made (C22). Copies between kernel and user memory, \<^verbatim>\<open>memmove\<close>, \<^verbatim>\<open>kill\<close>, \<^verbatim>\<open>wakeup\<close>,
  the LRU list and page-table entries do what they should. The remaining theorems are error cases: user memory that is swapped out
  fails system calls and panics \<^verbatim>\<open>exec\<close>, a swap system call overwrites the pages of other processes, the log panics within its
  reservation, printing overruns its buffer, \<^verbatim>\<open>grep\<close> stops at a long line, and \<^verbatim>\<open>malloc\<close> hands out
  memory that does not exist when the size overflows.

  \<^bold>\<open>Limits.\<close> Physical memory is total: an access of the kernel to an address its page table does not map, which traps in the machine,
  is not told apart, and the theorems speak of pages in RAM. For the cache and the swap area a disk request is one step: what other threads
  do between its start and its completion, such as a store of a process to a page that is being written to the swap area, is outside
  the theorems above the driver. Requests to \<^verbatim>\<open>malloc\<close> are below \<open>2^31 - 32\<close> bytes in C12; C30 shows what happens above.

  \<^bold>\<open>Not modelled.\<close> The order of initialisation in \<^verbatim>\<open>main.c\<close> and the initialisation of devices, which are sequences of writes to their registers;
  the TLB; the execution of shell commands, \<^verbatim>\<open>init\<close>, \<^verbatim>\<open>ls\<close> and \<^verbatim>\<open>zombie\<close>, which are sequences of system calls; the test programs
  (\<^verbatim>\<open>usertests.c\<close>, \<^verbatim>\<open>grind.c\<close> and the rest), which exercise the kernel and have no contract of their own.
\<close>

text \<open>C1: \<^verbatim>\<open>kalloc\<close> always returns, and whether or not it has to evict a page, every process keeps what it had at every
  address. It fails only if no page was free. A page it hands out belongs to nobody.\<close>

theorem kalloc_transparent:
  assumes "vm_inv own sown R xs fs s" "swap_ready s"
  shows "\<exists>r t own' sown' xs' fs'. kalloc s = Ok (r, t) \<and> vm_inv own' sown' R xs' fs' t \<and> swap_ready t \<and>
    (\<forall>pt \<in> R. \<forall>va. uview t pt va = uview s pt va) \<and> (r = 0 \<longrightarrow> fs = []) \<and> (r \<noteq> 0 \<longrightarrow> own' r = Held)"
proof -
  obtain own' sown' xs' fs' r t where k: "kalloc s = Ok (r, t)" "swap_ready t" "paged R s t" "pg_frame own own' s t"
    "vm_inv (if r = 0 then own' else own'(r := Held)) sown' R xs' fs' t" "r \<noteq> 0 \<longrightarrow> own' r = Free"
    "r = 0 \<longrightarrow> fs = [] \<and> own' = own"
    using kalloc_spec [OF assms] .
  then show ?thesis
    by (intro exI [of _ r] exI [of _ t] exI [of _ "if r = 0 then own' else own'(r := Held)"] exI [of _ sown'] exI [of _ xs'] exI [of _ fs'])
      (simp add: paged_def)
qed

theorem kalloc_transparent_witness:
  "\<exists>r t own' sown' xs' fs'. kalloc sample = Ok (r, t) \<and> vm_inv own' sown' {spt} xs' fs' t \<and> swap_ready t \<and>
    (\<forall>pt \<in> {spt}. \<forall>va. uview t pt va = uview sample pt va) \<and> (r = 0 \<longrightarrow> [] = ([] :: u64 list)) \<and> (r \<noteq> 0 \<longrightarrow> own' r = Held)"
  by (rule kalloc_transparent [OF sample_vm [of "\<lambda>_. (0, [])"] sample_ready])

text \<open>C2: \<^verbatim>\<open>swapin\<close> returns. It makes a swapped-out page resident and fails only if there is no such page or no memory;
  in every case each process keeps what it had at every address.\<close>

theorem swapin_transparent:
  assumes "vm_inv own sown R xs fs s" "swap_ready s" "pt \<in> R" "va < MAXVA"
  shows "\<exists>rc t own' sown' xs' fs'. swapin pt va s = Ok (rc, t) \<and> vm_inv own' sown' R xs' fs' t \<and> swap_ready t \<and>
    (\<forall>pt \<in> R. \<forall>va. uview t pt va = uview s pt va) \<and>
    (rc = 0 \<and> swapped (mem s) pt va \<and> bit (pte (mem t) pt va) 0 \<or> rc = -1 \<and> (swapped (mem s) pt va \<longrightarrow> fs = []))"
  using swapin_spec [OF assms] unfolding same_views_def by metis

theorem swapin_transparent_witness:
  "\<exists>rc t rc' u own' sown' xs' fs'. swapout sample = Ok (rc, t) \<and> swapin spt 0 t = Ok (rc', u) \<and>
     vm_inv own' sown' {spt} xs' fs' u \<and> uview u spt 0 = uview sample spt 0"
proof -
  obtain own1 sown1 xs1 fs1 rc t where t: "swapout sample = Ok (rc, t)" "vm_inv own1 sown1 {spt} xs1 fs1 t" "swap_ready t"
    "paged {spt} sample t"
    using swapout_spec [OF sample_vm [of "\<lambda>_. (0, [])"] sample_ready] by metis
  from swapin_transparent [OF t(2,3), of spt 0] obtain rc' u own' sown' xs' fs' where
    "swapin spt 0 t = Ok (rc', u)" "vm_inv own' sown' {spt} xs' fs' u" "uview u spt 0 = uview t spt 0" by auto
  then show ?thesis using t(1,4) unfolding paged_def by (metis singletonI)
qed

text \<open>C3: \<^verbatim>\<open>swapout\<close> returns: the clock finds a victim. On success one more page is free; either way each process keeps
  what it had at every address.\<close>

theorem swapout_transparent:
  assumes "vm_inv own sown R xs fs s" "swap_ready s"
  shows "\<exists>rc t own' sown' xs' fs'. swapout s = Ok (rc, t) \<and> vm_inv own' sown' R xs' fs' t \<and> swap_ready t \<and>
    (\<forall>pt \<in> R. \<forall>va. uview t pt va = uview s pt va) \<and> (rc = 0 \<and> (\<exists>a. fs' = a # fs) \<or> rc = -1 \<and> fs' = fs)"
  using swapout_spec [OF assms] unfolding paged_def by metis

theorem swapout_transparent_witness:
  "\<exists>rc t own' sown' xs' fs'. swapout sample = Ok (rc, t) \<and> vm_inv own' sown' {spt} xs' fs' t \<and> swap_ready t \<and>
    (\<forall>pt \<in> {spt}. \<forall>va. uview t pt va = uview sample pt va) \<and> (rc = 0 \<and> (\<exists>a. fs' = [a]) \<or> rc = -1 \<and> fs' = [])"
  by (rule swapout_transparent [OF sample_vm [of "\<lambda>_. (0, [])"] sample_ready])

text \<open>C4: A commit is atomic. It ends with the blocks of the transaction in place on the disk; and if the machine stops after
  any number of its disk writes, the recovery of the next boot leaves either every block of the file system as it was before the
  transaction or every block as the transaction made it.\<close>

theorem commit_crash_atomic:
  assumes "tx_ready s"
  shows "\<exists>t ws. commit s = Ok t \<and> dwrites t = dwrites s @ ws \<and>
    (\<forall>m. home (klog s) m \<longrightarrow> disk t m = txview (klog s) (bview s) (disk s) m) \<and>
    (\<forall>k r sb. cold r \<longrightarrow> disk r = apply_writes (take k ws) (disk s) \<longrightarrow> sint (sb_logstart sb) = log_start (klog s) \<longrightarrow>
       (\<exists>u. initlog 1 sb (r :: log_st) = Ok u \<and>
         ((\<forall>m. home (klog s) m \<longrightarrow> blk_eq (disk u m) (disk s m)) \<or>
          (\<forall>m. home (klog s) m \<longrightarrow> blk_eq (disk u m) (txview (klog s) (bview s) (disk s) m)))))"
proof -
  let ?ws = "commit_writes (klog s) (bview s)"
  obtain t where t: "commit s = Ok t" "dwrites t = dwrites s @ ?ws" "disk t = apply_writes ?ws (disk s)"
    using commit_spec [OF assms] by blast
  have g: "log_geom (klog s)" "lh_ok (klog s)" using assms by (simp_all add: tx_ready_def)
  show ?thesis
    using t commit_final [OF g] initlog_crash [OF assms]
    by (intro exI [of _ t] exI [of _ ?ws] conjI allI impI) simp_all
qed

theorem commit_crash_atomic_witness:
  "\<exists>t ws. commit tx_sample = Ok t \<and> dwrites t = dwrites tx_sample @ ws \<and> disk t 100 = (\<lambda>_. 7)"
proof -
  obtain t ws where t: "commit tx_sample = Ok t" "dwrites t = dwrites tx_sample @ ws"
    "\<forall>m. home (klog tx_sample) m \<longrightarrow> disk t m = txview (klog tx_sample) (bview tx_sample) (disk tx_sample) m"
    using commit_crash_atomic [OF tx_sample_ready] by blast
  have "home (klog tx_sample) 100" "txview (klog tx_sample) (bview tx_sample) (disk tx_sample) 100 = (\<lambda>_. 7)"
    by (rule tx_sample_home tx_sample_view)+
  with t show ?thesis by auto
qed

text \<open>C5: A process that has not been killed and touches a swapped-out page of its own, when a page is free, goes on as if the page
  had been there. The trap brings the page in; every process keeps what it had at every address, except for the page that holds
  the trap frame of this one; of that page the words from the sixth on, the user registers, are kept as well; and the return
  goes to the faulting instruction.\<close>

theorem usertrap_fault_transparent:
  assumes "vm_inv own sown R xs fs s" "swap_ready s" "tf_ok own p s" "cur s = Some p" "p_pagetable (ptab s p) \<in> R"
    "stval s < MAXVA" "scause s \<in> {12, 13, 15}" "sstatus s AND SSTATUS_SPP = 0"
    "swapped (mem s) (p_pagetable (ptab s p)) (stval s)" "fs \<noteq> []" "p_killed (ptab s p) = 0"
  shows "\<exists>t own' sown' xs' fs'. usertrap others s = Ok t \<and> vm_inv own' sown' R xs' fs' t \<and>
    (\<forall>pt \<in> R. \<forall>va. pt = p_pagetable (ptab s p) \<and> px_list va = px_list TRAPFRAME \<or> uview t pt va = uview s pt va) \<and>
    (\<forall>i. 5 \<le> i \<longrightarrow> i < 512 \<longrightarrow>
       ld64 (mem t) (entry (p_trapframe (ptab s p)) i) = ld64 (mem s) (entry (p_trapframe (ptab s p)) i)) \<and>
    bit (pte (mem t) (p_pagetable (ptab s p)) (stval s)) 0 \<and> sepc t = sepc s \<and>
    user_jump t = Some (TRAMPOLINE + userret_off (ksym s), MAKE_SATP (p_pagetable (ptab s p)))"
  using usertrap_fault [OF assms] unfolding views_but_def .

theorem usertrap_fault_transparent_witness:
  "PTE2PA (pte (mem fault_vm) spt TRAPFRAME) = p_trapframe (ptab fault_vm 0) \<and>
   (\<exists>t own' sown' xs' fs'. usertrap Ok (trap_of 13 0 fault_vm) = Ok t \<and> vm_inv own' sown' {spt} xs' fs' t \<and>
     uview t spt 0 = uview (trap_of 13 0 fault_vm) spt 0 \<and> bit (pte (mem t) spt 0) 0 \<and> sepc t = 0x1000)"
proof -
  have f: "cur fault_vm = Some 0" "p_pagetable (ptab fault_vm 0) = spt" "p_killed (ptab fault_vm 0) = 0" "mem fault_vm = fault_mem"
    "p_trapframe (ptab fault_vm 0) = 0x80105000"
    by (simp_all add: fault_vm_def sample_fields)
  have "tf_ok fault_own 0 (trap_of 13 0 fault_vm)"
    using f by (simp add: tf_ok_def pg_aligned_def fault_own_def sample_own_def px_trapframe)
  moreover have px0: "px_list 0 = [0, 0, 0]" by (simp add: px_list_def PX_def)
  ultimately obtain t own' sown' xs' fs' where t: "usertrap Ok (trap_of 13 0 fault_vm) = Ok t" "vm_inv own' sown' {spt} xs' fs' t"
    "\<forall>va. px_list va = px_list TRAPFRAME \<or> uview t spt va = uview (trap_of 13 0 fault_vm) spt va" "bit (pte (mem t) spt 0) 0" "sepc t = 0x1000"
    using usertrap_fault_transparent [OF trap_of_inv [OF fault_vm_inv] trap_of_ready [OF fault_ready], of 0 13 0 Ok] f fault_swapped by auto
  moreover have "uview t spt 0 = uview (trap_of 13 0 fault_vm) spt 0" using t(3) [rule_format, of 0] px0 by (simp add: px_trapframe)
  moreover have "PTE2PA (pte (mem fault_vm) spt TRAPFRAME) = p_trapframe (ptab fault_vm 0)" using f fault_trapframe sample_entries by simp
  ultimately show ?thesis by blast
qed

text \<open>C6: A trap from user space keeps the registers of the process. \<^verbatim>\<open>uservec\<close> enters the kernel with the stack, hart number, handler and page
  table the trapframe names; if the kernel leaves the saved registers alone and calls \<^verbatim>\<open>userret\<close> with the page table of the process, all
  registers are what they were at the trap and execution continues at \<^verbatim>\<open>sepc\<close>. The process maps \<^verbatim>\<open>TRAPFRAME\<close> to its trapframe.\<close>

theorem trap_registers_restored:
  assumes m: "tf_mapped tr (h_satp h) tf" and k: "xr k 10 = h_satp h"
    "\<forall>(r, off) \<in> set ((10, 112) # user_regs). ld64 (pm k) (tf + of_nat off) = ld64 (pm (uservec tr h)) (tf + of_nat off)"
  shows "xr (uservec tr h) 2 = ld64 (pm h) (tf + 8) \<and> xr (uservec tr h) 4 = ld64 (pm h) (tf + 32) \<and>
    pc (uservec tr h) = ld64 (pm h) (tf + 16) \<and> h_satp (uservec tr h) = ld64 (pm h) tf \<and>
    (\<forall>r. 0 < r \<and> r < 32 \<longrightarrow> xr (userret tr k) r = xr h r) \<and> pc (userret tr k) = h_sepc k \<and> h_satp (userret tr k) = h_satp h"
proof -
  have m': "tf_mapped tr (xr k 10) tf" using m k(1) by simp
  have "xr (userret tr k) r = xr h r" if r: "0 < r \<and> r < 32" for r
  proof -
    obtain off where o: "(r, off) \<in> set ((10, 112) # user_regs)" using user_regs_all [of r] r by blast
    have "ld64 (pm k) (tf + of_nat off) = ld64 (pm (uservec tr h)) (tf + of_nat off)" using k(2) o by blast
    then show ?thesis by (simp only: userret_loads(1) [OF m' o] uservec_saves [OF m o])
  qed
  moreover have "pc (userret tr k) = h_sepc k" "h_satp (userret tr k) = xr k 10" by (rule userret_loads(2,3) [OF m', of 10 112], simp)+
  ultimately show ?thesis using k(1) uservec_eq(2-5) [OF m] uservec_kernel [OF m, of 0] uservec_kernel [OF m, of 8]
      uservec_kernel [OF m, of 16] uservec_kernel [OF m, of 32] by simp
qed

theorem trap_registers_restored_witness:
  "xr (userret (\<lambda>_ a. a) ((uservec (\<lambda>_ a. a) hart0)\<lparr>xr := \<lambda>_. 0\<rparr>)) 7 = 7"
proof -
  have "tf_mapped (\<lambda>_ a. a) (h_satp hart0) 0x3FFFFFE000" by (simp add: tf_mapped_def)
  then have "\<forall>r. 0 < r \<and> r < 32 \<longrightarrow> xr (userret (\<lambda>_ a. a) ((uservec (\<lambda>_ a. a) hart0)\<lparr>xr := \<lambda>_. 0\<rparr>)) r = xr hart0 r"
    using trap_registers_restored [of "\<lambda>_ a. a" hart0 "0x3FFFFFE000" "(uservec (\<lambda>_ a. a) hart0)\<lparr>xr := \<lambda>_. 0\<rparr>"]
    by (auto simp: hart0_def)
  then show ?thesis by (simp add: hart0_def)
qed

text \<open>C7: At most one CPU is in the critical section of a lock, however the steps of the CPUs interleave, and it runs
  with interrupts off.\<close>

theorem spin_mutual_exclusion:
  assumes "spin_reach st" "crit st c l" "crit st d l"
  shows "c = d \<and> \<not> sie (cpus st c) \<and> 0 < noff (cpus st c)"
proof -
  note I = spin_invD [OF spin_reach_inv [OF assms(1)]]
  have "{l. crit st c l} \<noteq> {}" using assms(2) by blast
  then have "0 < card {l. crit st c l}" using I(5) [of c] card_gt_0_iff by blast
  moreover have "0 \<le> pending (pcs st c)" by (simp add: pending_def split: cpu_pc.split)
  ultimately have "0 < noff (cpus st c)" using I(6) [of c] by linarith
  then show ?thesis using I(1,7) assms(2,3) by blast
qed

theorem spin_mutual_exclusion_witness:
  "\<exists>st. spin_reach st \<and> crit st 0 5 \<and> \<not> sie (cpus st 0) \<and> 0 < noff (cpus st 0)"
proof -
  let ?a = "acquire_call 0 5 spin_init"
  let ?b = "acquire_step 0 (Acq_holding 5) ?a"
  let ?c = "acquire_step 0 (Acq_swap 5) ?b"
  have "spin_step spin_init ?a" by (rule call_acquire) (simp add: spin_init_def)
  moreover have "spin_step ?a ?b" by (rule in_acquire) (simp add: acquire_call_def goto_def)
  moreover have "spin_step ?b ?c"
    by (rule in_acquire) (simp add: acquire_call_def goto_def spin_init_def holding_def)
  ultimately have r: "spin_reach ?c" by (meson rtranclp.rtrancl_into_rtrancl rtranclp.rtrancl_refl)
  have c: "crit ?c 0 5"
    by (simp add: crit_def acquire_call_def goto_def spin_init_def holding_def upd_lk_def Let_def)
  show ?thesis using r c spin_mutual_exclusion [OF r c c] by blast
qed

text \<open>C8: The disk driver implements the transfer the buffer cache relies on. If the driver is idle with three free descriptors and the
  device serves a request as the virtio specification says, \<^verbatim>\<open>virtio_disk_rw\<close> with its descriptors, rings, sleep and interrupt returns, and
  apart from its own structures and the process table the state is the one \<open>Bio.virtio_disk_rw\<close> gives. The descriptors are free and the driver
  is idle again. The number of the block is doubled in 32 bits, so it has to be below \<open>2 ^ 31\<close>.\<close>

theorem vd_rw_refines:
  assumes "held s = []" "cur s = Some p" "p < NPROC" "vd_idle (vdisk s)" "3 \<le> card {i. i < 8 \<and> vfree (vdisk s) i}"
    "b_blockno (bufs s b) < 2 ^ 31" "device_ok dev"
  shows "\<exists>t. vd_rw (disk_wait dev) b w s = Ok t \<and> virtio_disk_rw b w s = Ok (t\<lparr>vdisk := vdisk s, ptab := ptab s\<rparr>) \<and>
    vfree (vdisk t) = vfree (vdisk s) \<and> vd_idle (vdisk t)"
  by (rule vd_rw_served [OF assms])

theorem vd_rw_refines_witness:
  "\<exists>t. vd_rw (disk_wait device0) 0 True (virtio_of sample) = Ok t \<and>
    virtio_disk_rw 0 True (virtio_of sample) = Ok (t\<lparr>vdisk := vdisk (virtio_of sample), ptab := ptab (virtio_of sample)\<rparr>)"
proof -
  have "{i. i < 8 \<and> vfree (vdisk (virtio_of sample)) i} = {..<8}" by (auto simp: virtio_of_def sys_st.defs idle_vdisk_def)
  then have c: "3 \<le> card {i. i < 8 \<and> vfree (vdisk (virtio_of sample)) i}" by simp
  have "vd_idle (vdisk (virtio_of sample))" by (simp add: virtio_of_def sys_st.defs idle_vdisk_def vd_idle_def)
  moreover have "held (virtio_of sample) = []" "cur (virtio_of sample) = Some 0" "b_blockno (bufs (virtio_of sample) 0) < 2 ^ 31"
    by (simp_all add: virtio_of_def sys_of_def sys_st.defs vm_st.defs sample_fields)
  ultimately show ?thesis using vd_rw_refines [of "virtio_of sample" 0 0 device0 True] c device0_ok by auto
qed

text \<open>C9: a page written to a swap slot is read back, into whatever page.\<close>

theorem swap_roundtrip:
  assumes "0 \<le> slot" "slot < 7000" "swap_ready s"
  shows "\<exists>t u. swapwrite pa slot s = Ok t \<and> swapread pa' slot t = Ok u \<and>
    (\<forall>i < PGSIZE. mem_read (mem u) pa' i = mem_read (mem s) pa i)"
proof -
  obtain t where t: "swapwrite pa slot s = Ok t" "swap_ready t"
    "\<And>i. i < PGSIZE \<Longrightarrow> slot_data t slot i = mem_read (mem s) pa i" using swapwrite_spec [OF assms] by metis
  obtain u where u: "swapread pa' slot t = Ok u" "mem u = mem_write (mem t) pa' (slot_data t slot) PGSIZE"
    using swapread_spec [OF assms(1,2) t(2)] by metis
  have "mem_read (mem u) pa' i = slot_data t slot i" if "i < PGSIZE" for i
    using that by (simp add: u(2) mem_read_def mem_write_def unat_of_nat_u64)
  then show ?thesis using t u(1) by auto
qed

theorem swap_roundtrip_witness:
  "\<exists>t u. swapwrite 0x80103000 3 sample = Ok t \<and> swapread 0x80105000 3 t = Ok u \<and>
    (\<forall>i < PGSIZE. mem_read (mem u) 0x80105000 i = mem_read (mem sample) 0x80103000 i)"
  by (rule swap_roundtrip [OF _ _ sample_ready]) simp_all

text \<open>C10: A thread that \<^verbatim>\<open>swtch\<close> has switched away from continues where it was: when another call of \<^verbatim>\<open>swtch\<close>, on whatever hart, switches to the
  saved context, which nobody has changed in between, it returns to the caller of the first one with its stack pointer and saved registers.\<close>

theorem swtch_restores:
  assumes "ctx_mapped tr h (xr h 10)" "ctx_mapped tr k (xr k 10)" "ctx_mapped tr k (xr k 11)" "ctx_apart (xr k 10) (xr k 11)"
    and "xr k 11 = xr h 10" "\<forall>(r, off) \<in> set ctx_regs. ld64 (pm k) (xr h 10 + of_nat off) = ld64 (pm (swtch tr h)) (xr h 10 + of_nat off)"
  shows "pc (swtch tr k) = xr h 1 \<and> (\<forall>r \<in> {1, 2, 8, 9} \<union> {18..27}. xr (swtch tr k) r = xr h r)"
proof -
  have x: "xr (swtch tr k) r = xr h r" if "(r, off) \<in> set ctx_regs" for r off
  proof -
    have "ld64 (pm k) (xr h 10 + of_nat off) = ld64 (pm (swtch tr h)) (xr h 10 + of_nat off)" using assms(6) that by blast
    then show ?thesis using swtch_loads(1) [OF assms(2-4) that] swtch_saves [OF assms(1) that] assms(5) by simp
  qed
  moreover have "\<exists>off. (r, off) \<in> set ctx_regs" if "r \<in> {1, 2, 8, 9} \<union> {18..27}" for r
    using that by (rule ctx_regs_all)
  moreover have "pc (swtch tr k) = xr (swtch tr k) 1" by (rule swtch_loads(2) [OF assms(2-4) ctx_regs_wf(4)])
  ultimately show ?thesis using x [OF ctx_regs_wf(4)] by metis
qed

theorem swtch_restores_witness:
  "pc (swtch (\<lambda>_ a. a) ((swtch (\<lambda>_ a. a) hart0)\<lparr>xr := (\<lambda>_. 0)(10 := 0x2000, 11 := 0x1000)\<rparr>)) = 1"
proof -
  have "ctx_apart 0x2000 0x1000" by (simp add: ctx_apart_def ctx_regs_def disj8_def)
  then show ?thesis
    using swtch_restores [of "\<lambda>_ a. a" hart0 "(swtch (\<lambda>_ a. a) hart0)\<lparr>xr := (\<lambda>_. 0)(10 := 0x2000, 11 := 0x1000)\<rparr>"]
    by (auto simp: ctx_mapped_def hart0_def)
qed



text \<open>C12: In every state a program reaches with \<^verbatim>\<open>free\<close> and with requests to \<^verbatim>\<open>malloc\<close> of less than \<open>2^31 - 32\<close> bytes, the blocks
  it holds do not overlap and lie below the break, \<^verbatim>\<open>free\<close> of each of them returns, and \<^verbatim>\<open>malloc\<close> of less than \<open>2^31 - 32\<close>
  bytes returns: it fails or gives a block the program does not hold yet, with room for the bytes asked for. The bound is needed:
  the argument of \<^verbatim>\<open>sbrk\<close> is an \<^verbatim>\<open>int\<close>.\<close>

theorem malloc_disjoint:
  assumes run: "heap_run B sbrk lo A h" and sb: "sbrk_ok sbrk" and lo: "0 < B" "B < lo" "lo \<le> 2 ^ 36"
  shows "(\<forall>a \<in> A. \<forall>b \<in> A. a < b \<longrightarrow> a + 16 * h_size h a \<le> b) \<and> (\<forall>a \<in> A. lo \<le> a \<and> a + 16 * h_size h a \<le> brk h) \<and>
    (\<forall>a \<in> A. \<exists>h'. u_free (a + 16) h = Ok h') \<and>
    (\<forall>n < 2 ^ 31 - 32. \<exists>r h'. malloc B sbrk n h = Ok (r, h') \<and>
       (r = 0 \<or> 16 \<le> r \<and> r - 16 \<notin> A \<and> n \<le> 16 * (h_size h' (r - 16) - 1) \<and> (\<forall>a \<in> A. h_size h' a = h_size h a)))"
proof -
  have ok: "heap_ok B lo A h" by (rule heap_run_ok [OF sb lo run])
  have "\<exists>r h'. malloc B sbrk n h = Ok (r, h') \<and>
       (r = 0 \<or> 16 \<le> r \<and> r - 16 \<notin> A \<and> n \<le> 16 * (h_size h' (r - 16) - 1) \<and> (\<forall>a \<in> A. h_size h' a = h_size h a))" if n: "n < 2 ^ 31 - 32" for n
    using malloc_ok [OF ok sb lo n] nunits_bounds(3) [OF n] unfolding grants_def by fastforce
  moreover have "(\<forall>a \<in> A. \<forall>b \<in> A. a < b \<longrightarrow> a + 16 * h_size h a \<le> b) \<and> (\<forall>a \<in> A. lo \<le> a \<and> a + 16 * h_size h a \<le> brk h) \<and>
    (\<forall>a \<in> A. \<exists>h'. u_free (a + 16) h = Ok h')"
  proof (cases "A = {}")
    case False
    then obtain xs where inv: "heap_inv B lo xs A h" using ok by (auto simp: heap_ok_def)
    then have bl: "blocks_ok (h_size h) (set xs \<union> A) lo (brk h)" by (simp add: heap_inv_def)
    show ?thesis using blocks_okD(2-4) [OF bl] u_free_spec [OF inv] by blast
  qed simp
  ultimately show ?thesis by blast
qed

theorem malloc_disjoint_witness:
  "\<exists>r h'. malloc 0x1000 sbrk0 100 heap0 = Ok (r, h') \<and> (r = 0 \<or> 16 \<le> r \<and> 100 \<le> 16 * (h_size h' (r - 16) - 1))"
proof -
  have "heap_run 0x1000 sbrk0 0x5000 {} heap0" by (rule heap_run.start) (simp_all add: heap0_def)
  moreover have "sbrk_ok sbrk0" by (auto simp: sbrk_ok_def sbrk0_def split: if_splits)
  ultimately have "\<forall>n < 2 ^ 31 - 32. \<exists>r h'. malloc 0x1000 sbrk0 n heap0 = Ok (r, h') \<and> (r = 0 \<or> 16 \<le> r \<and> n \<le> 16 * (h_size h' (r - 16) - 1))"
    using malloc_disjoint [of "0x1000" sbrk0 "0x5000" "{}" heap0] by simp
  from this [rule_format, of 100] show ?thesis by simp
qed

text \<open>C13: The pattern matcher of \<^verbatim>\<open>grep\<close> decides the language of the pattern: with a leading caret the line starts with a word
  of it, without it some part of the line does, and a final dollar makes the word end the line.\<close>

theorem match_language:
  "match re line \<longleftrightarrow>
     (if re \<noteq> [] \<and> hd re = CHR ''^'' then starts (tl re) line else \<exists>w v. line = w @ v \<and> starts re v)"
  by (simp add: match_def matchhere_starts match_from_starts)

text \<open>C14: On a file without NUL bytes in which every line is shorter than its buffer, \<^verbatim>\<open>grep\<close> prints the complete lines the pattern
  matches, each once and in order, however \<^verbatim>\<open>read\<close> cuts the file up. A complete line ends in a newline: what follows the last
  newline of the file is not printed, whether or not it matches.\<close>

theorem grep_exact:
  assumes "read_ok rd" "NUL \<notin> set f" "lines_fit f"
  shows "grep rd pat [] f = map (\<lambda>l. l @ [NL]) (filter (match pat) (fst (split_lines f)))"
  using grep_spec [OF assms(1), of "[]" f pat] assms by simp

theorem grep_exact_witness:
  "grep (\<lambda>n r. min (min n r) 2) ''b*c$'' [] (''abbc'' @ [NL] @ ''xbcy'' @ [NL] @ ''c'' @ [NL] @ ''c'') = [''abbc'' @ [NL], ''c'' @ [NL]]"
proof -
  have "match ''b*c$'' ''abbc''" "\<not> match ''b*c$'' ''xbcy''" "match ''b*c$'' ''c''" by code_simp+
  then show ?thesis by (subst grep_exact) (auto simp: read_ok_def lines_fit_def)
qed

text \<open>C15: The parser of the shell ends on every line: it returns a command or exits with an error. Every argument list of the command leaves
  room for its null pointer, and after \<^verbatim>\<open>nulterminate\<close> each argument and file name is, as a C string in the line buffer, exactly the
  characters of its word.\<close>

theorem parsecmd_words:
  assumes "NUL \<notin> set s"
  shows "(\<exists>m. parsecmd s = Panic m) \<or>
    (\<exists>cmd buf. parsecmd s = Ok (cmd, buf) \<and> args_fit cmd \<and>
      (\<forall>(q, e) \<in> cmd_words cmd. q < e \<and> c_str buf q = take (e - q) (drop q s) \<and> list_all word_char (c_str buf q)))"
proof (cases s rule: parsecmd_good)
  case (Ok cmd)
  have "q < e \<and> c_str (nulterminate cmd (s @ [NUL])) q = take (e - q) (drop q s) \<and>
      list_all word_char (c_str (nulterminate cmd (s @ [NUL])) q)" if w: "(q, e) \<in> cmd_words cmd" for q e
  proof -
    have "word_ok s (q, e)" using Ok(2) w by (auto simp: cmd_ok_def)
    then show ?thesis using nulterminate_word [OF Ok(2) w assms] by (auto simp: word_ok_def list_all_length)
  qed
  moreover have "args_fit cmd" using Ok(2) by (simp add: cmd_ok_def)
  ultimately show ?thesis using Ok(1) by blast
qed simp

theorem parsecmd_words_witness:
  "\<exists>cmd buf. parsecmd ''ls>x'' = Ok (cmd, buf) \<and> args_fit cmd \<and>
      (\<forall>(q, e) \<in> cmd_words cmd. q < e \<and> c_str buf q = take (e - q) (drop q ''ls>x'') \<and> list_all word_char (c_str buf q))"
proof -
  have e: "parsecmd ''ls>x'' = Ok (REDIR (EXEC [(0, 2)]) 3 4 0x601 1, [CHR ''l'', CHR ''s'', NUL, CHR ''x'', NUL])"
    by code_simp
  have n: "NUL \<notin> set ''ls>x''" by simp
  from parsecmd_words [OF n] show ?thesis
  proof
    assume "\<exists>m. parsecmd ''ls>x'' = Panic m"
    then show ?thesis using e by simp
  qed
qed

text \<open>C16: bytes leave a pipe in the order they entered it: in any run of writes and reads, the bytes in the pipe before
  followed by those written are those read followed by those left.\<close>

theorem pipe_fifo:
  assumes "pipe_inv p" "queue_run pipe_put pipe_get pipe_full pipe_empty ops p = (i, out, q)"
  shows "pipe_queue p @ i = out @ pipe_queue q \<and> pipe_inv q"
  using assms by (rule pipe.run_fifo)

theorem pipe_fifo_witness:
  "let p = \<lparr>pi_data = (\<lambda>_. 0), pi_nread = - 1, pi_nwrite = - 1, pi_readopen = True, pi_writeopen = True\<rparr>;
       (i, out, q) = queue_run pipe_put pipe_get pipe_full pipe_empty [Put 7, Put 8, Get] p
   in i = [7, 8] \<and> out = [7] \<and> pipe_queue p @ i = out @ pipe_queue q"
proof -
  define p where "p = \<lparr>pi_data = (\<lambda>_. 0), pi_nread = - 1, pi_nwrite = - 1, pi_readopen = True, pi_writeopen = True\<rparr>"
  obtain i out q where r: "queue_run pipe_put pipe_get pipe_full pipe_empty [Put 7, Put 8, Get] p = (i, out, q)"
    by (metis prod_cases3)
  have "pipe_inv p" by (simp add: p_def pipe_inv_def)
  from pipe_fifo [OF this r] have "pipe_queue p @ i = out @ pipe_queue q" by simp
  moreover have "i = [7, 8] \<and> out = [7]"
    using r by (auto simp: p_def pipe_put_def pipe_get_def pipe_full_def pipe_empty_def Let_def)
  ultimately show ?thesis unfolding p_def [symmetric] using r by simp
qed

text \<open>C17: bytes leave the transmit buffer of the UART in the order they entered it.\<close>

theorem uart_fifo:
  assumes "tx_inv b" "queue_run tx_put tx_get tx_full tx_empty ops b = (i, out, c)"
  shows "tx_queue b @ i = out @ tx_queue c \<and> tx_inv c"
  using assms by (rule tx.run_fifo)

theorem uart_fifo_witness:
  "let b = \<lparr>uart_tx_buf = (\<lambda>_. 0), uart_tx_w = 31, uart_tx_r = 31\<rparr>;
       (i, out, c) = queue_run tx_put tx_get tx_full tx_empty [Put 7, Put 8, Get] b
   in i = [7, 8] \<and> out = [7] \<and> tx_queue b @ i = out @ tx_queue c"
proof -
  define b where "b = \<lparr>uart_tx_buf = (\<lambda>_. 0), uart_tx_w = 31, uart_tx_r = 31\<rparr>"
  obtain i out c where r: "queue_run tx_put tx_get tx_full tx_empty [Put 7, Put 8, Get] b = (i, out, c)"
    by (metis prod_cases3)
  have "tx_inv b" by (simp add: b_def tx_inv_def)
  from uart_fifo [OF this r] have "tx_queue b @ i = out @ tx_queue c" by simp
  moreover have "i = [7, 8] \<and> out = [7]"
    using r by (auto simp: b_def tx_put_def tx_get_def tx_full_def tx_empty_def Let_def)
  ultimately show ?thesis unfolding b_def [symmetric] using r by simp
qed

text \<open>C18: \<^verbatim>\<open>bread\<close> returns a locked buffer with the content of the block, and leaves the content of all blocks as it was.\<close>

theorem bread_content:
  assumes "bio_inv s" "ready s" "available s dev n"
  shows "\<exists>b t. bread dev n s = Ok (b, t) \<and> owns t b dev n \<and> bio_inv t \<and> b_data (bufs t b) = bview s n \<and>
    disk t = disk s \<and> (\<forall>m. m \<noteq> 0 \<longrightarrow> bview t m = bview s m)"
  using bread_spec [OF assms] by metis

theorem bread_content_witness:
  "\<exists>b t. bread 0 2000 sample = Ok (b, t) \<and> owns t b 0 2000 \<and> bio_inv t \<and> b_data (bufs t b) = bview sample 2000 \<and>
    disk t = disk sample \<and> (\<forall>m. m \<noteq> 0 \<longrightarrow> bview t m = bview sample m)"
proof (rule bread_content)
  show "bio_inv sample" "ready sample" using sample_ready by (simp_all add: swap_ready_def)
  show "available sample 0 2000" by (auto simp: available_def sample_fields intro: exI [of _ 0])
qed

text \<open>C19: \<^verbatim>\<open>memmove\<close> copies as if through a temporary buffer, also when the regions overlap.\<close>

theorem memmove_overlap:
  assumes "unat src + unat n < 2 ^ 64" "unat dst + unat n < 2 ^ 64"
  shows "memmove dst src n m = mem_write m dst (mem_read m src) (unat n)"
  using assms by (rule memmove_spec)

theorem memmove_overlap_witness:
  "memmove 0x80100004 0x80100000 8 sample_mem = mem_write sample_mem 0x80100004 (mem_read sample_mem 0x80100000) 8"
  using memmove_overlap [of "0x80100000" 8 "0x80100004" sample_mem] by simp

text \<open>C20: \<^verbatim>\<open>copyin\<close> succeeds on mapped user memory and copies exactly its bytes.\<close>

theorem copyin_copies:
  assumes "\<forall>j < unat len. ubyte (mem s) pt (srcva + of_nat j) \<noteq> None"
  shows "\<exists>d. copyin pt dst srcva len s = Ok (0, d) \<and>
    (\<forall>j < unat len. ubyte (mem s) pt (srcva + of_nat j) = Some (d j)) \<and> (\<forall>j. unat len \<le> j \<longrightarrow> d j = dst j)"
  using copyin_loop_ok [of len s pt srcva dst 0] assms by (simp add: copyin_def)

theorem copyin_copies_witness:
  "\<exists>d. copyin spt (\<lambda>_. 0) 0 8 sample = Ok (0, d) \<and> (\<forall>j < 8. ubyte (mem sample) spt (of_nat j) = Some (d j)) \<and>
     (\<forall>j. 8 \<le> j \<longrightarrow> d j = 0)"
proof -
  have "ubyte sample_mem spt (of_nat j) \<noteq> None" if "j < 8" for j
  proof -
    have "(of_nat j :: u64) < PGSIZE" using that by (simp add: word_less_nat_alt unat_of_nat_u64)
    then have "PGROUNDDOWN (of_nat j) = 0" using page_offset(1) [of 0 "of_nat j"] by (simp add: pg_aligned_def)
    moreover have "leaf sample_mem spt 0 \<noteq> 0" "px_list 0 = [0, 0, 0]"
      by (simp_all add: sample_leaf PX_def px_list_def entry_def)
    moreover have "bit (PA2PTE 0x80103000 OR 0x1F) 4" by (simp add: bit_or_iff macro_bits)
    ultimately show ?thesis using sample_pte [of 0] sample_entries by (simp add: ubyte_def uaddr_def pte_def)
  qed
  then show ?thesis using copyin_copies [of 8 sample spt 0 "\<lambda>_. 0"] by (simp add: sample_fields)
qed

text \<open>C21: A request of the disk driver takes three free descriptors and returns exactly those: after the chain is freed
  the free descriptors are what they were. If there are not three, none stays taken.\<close>

theorem vd_no_leak:
  assumes "no_proc_lock s"
  shows "\<exists>r t. alloc3_desc s = Ok (r, t) \<and>
    (case r of None \<Rightarrow> vfree (vdisk t) = vfree (vdisk s)
     | Some js \<Rightarrow> \<exists>i j k. js = [i, j, k] \<and> distinct js \<and> (\<forall>x \<in> set js. x < 8 \<and> vfree (vdisk s) x) \<and>
         (\<exists>u. free_chain i (vd_submit b write i j k t) = Ok u \<and> vfree (vdisk u) = vfree (vdisk s)))"
proof -
  obtain r t where t: "alloc3_loop 3 [] s = Ok (r, t)" "no_proc_lock t" and
    r: "case r of None \<Rightarrow> vfree (vdisk t) = (\<lambda>i. i \<in> set [] \<or> vfree (vdisk s) i)
     | Some js \<Rightarrow> \<exists>is. js = [] @ is \<and> length is = 3 \<and> distinct js \<and> (\<forall>i \<in> set is. i < 8 \<and> vfree (vdisk s) i) \<and>
         vfree (vdisk t) = (\<lambda>i. i \<notin> set is \<and> vfree (vdisk s) i) \<and> t = upd_vd (vfree_update (\<lambda>_. vfree (vdisk t))) s"
    using alloc3_loop_spec [OF assms, of "[]" 3] by auto
  show ?thesis
  proof (cases r)
    case None
    then show ?thesis using t r by (simp add: alloc3_desc_def)
  next
    case (Some js)
    then obtain i j k where js: "js = [i, j, k]" "distinct [i, j, k]" "\<forall>x \<in> {i, j, k}. x < 8 \<and> vfree (vdisk s) x"
      "vfree (vdisk t) = (\<lambda>x. x \<notin> {i, j, k} \<and> vfree (vdisk s) x)"
      using r by (auto simp: length_Suc_conv numeral_3_eq_3)
    let ?v = "vd_submit b write i j k t"
    have v: "chain3 (vdisk ?v) i j k" "vfree (vdisk ?v) = vfree (vdisk t)" using vd_submit_chain [OF js(2)] js(3) by auto
    have n: "no_proc_lock ?v" using t(2) by (simp add: no_proc_lock_def vd_submit_def Let_def upd_buf_def upd_vd_def)
    have "\<exists>u. free_chain i ?v = Ok u \<and> vfree (vdisk u) = (\<lambda>x. x \<in> {i, j, k} \<or> vfree (vdisk ?v) x) \<and> vd_only ?v u"
      by (rule free_chain3 [OF v(1) js(2) _ n]) (use js(3,4) v(2) in simp)
    moreover have "(\<lambda>x. x \<in> {i, j, k} \<or> vfree (vdisk ?v) x) = vfree (vdisk s)" using js(3,4) v(2) by auto
    ultimately have "\<exists>u. free_chain i ?v = Ok u \<and> vfree (vdisk u) = vfree (vdisk s)" by metis
    then show ?thesis using t(1) js Some by (auto simp: alloc3_desc_def)
  qed
qed

theorem vd_no_leak_witness:
  "\<exists>r t. alloc3_desc (virtio_of sample) = Ok (r, t) \<and>
    (case r of None \<Rightarrow> vfree (vdisk t) = vfree (vdisk (virtio_of sample))
     | Some js \<Rightarrow> \<exists>i j k. js = [i, j, k] \<and> distinct js \<and> (\<forall>x \<in> set js. x < 8 \<and> vfree (vdisk (virtio_of sample)) x) \<and>
         (\<exists>u. free_chain i (vd_submit 0 True i j k t) = Ok u \<and> vfree (vdisk u) = vfree (vdisk (virtio_of sample))))"
  by (rule vd_no_leak) (simp add: no_proc_lock_def virtio_of_def sys_of_def sys_st.defs vm_st.defs sample_fields)

text \<open>C22: The kernel finds on a new image what \<^verbatim>\<open>mkfs\<close> has written: it reads back the superblock, whose \<^verbatim>\<open>bmapstart\<close> is the sector of the
  bitmap, and the scan of \<^verbatim>\<open>balloc\<close> for a clear bit finds the first block \<^verbatim>\<open>mkfs\<close> has not used. If \<^verbatim>\<open>mkfs\<close> has used the blocks up to
  \<^verbatim>\<open>SWAPBASE\<close>, which it does not check, the scan finds none.\<close>

theorem mkfs_bitmap:
  assumes "mk_balloc used s = Ok t" "0 \<le> used"
  shows "rd_superblock (sb_bytes mksb) = mksb \<and> used < BPB \<and>
    clear_bit [0..<min BPB (SWAPBASE - 0)] (img t (sb_bmapstart (rd_superblock (sb_bytes mksb)))) = (if used < SWAPBASE then Some (nat used) else None)"
proof -
  have "used < BPB" using assms(1) by (simp add: mk_balloc_def split: if_splits)
  moreover have "nat used < SWAPBASE \<longleftrightarrow> used < SWAPBASE" using assms(2) by linarith
  ultimately show ?thesis using mk_balloc_bits [OF assms(1), of "min BPB (SWAPBASE - 0)"]
    by (simp add: rd_superblock_bytes mksb_fields)
qed

theorem mkfs_bitmap_witness:
  "\<exists>t. mk_balloc 600 image0 = Ok t \<and> clear_bit [0..<2000] (img t (sb_bmapstart (rd_superblock (sb_bytes mksb)))) = Some 600"
proof -
  obtain t where t: "mk_balloc 600 image0 = Ok t" by (simp add: mk_balloc_def wsect_def image0_def Let_def)
  then show ?thesis using mkfs_bitmap [of 600 image0 t] by auto
qed

text \<open>C23: In every reachable state a CPU's \<^verbatim>\<open>noff\<close> counts the locks it holds and the \<^verbatim>\<open>push_off\<close> of a lock function
  it is inside, a lock word is set exactly while somebody is in the critical section, and the \<^verbatim>\<open>pop_off\<close> of a \<^verbatim>\<open>release\<close> never panics.\<close>

theorem spin_well_formed:
  assumes "spin_reach st"
  shows "finite {l. crit st c l} \<and> noff (cpus st c) = int (card {l. crit st c l}) + pending (pcs st c) \<and>
    (lk_locked (lks st l) \<noteq> 0 \<longleftrightarrow> (\<exists>d. crit st d l)) \<and>
    pcs st c \<noteq> Panicked ''pop_off'' \<and> pcs st c \<noteq> Panicked ''pop_off - interruptible''"
  using spin_invD [OF spin_reach_inv [OF assms]] by fastforce

theorem spin_well_formed_witness:
  "pcs spin_init 0 = Run \<and> noff (cpus spin_init 0) = int (card {l. crit spin_init 0 l})"
  using spin_well_formed [of spin_init 0 0] by (simp add: pending_def spin_init_def)

text \<open>C24: \<^verbatim>\<open>copyin\<close> fails if any byte of the source lies in a page that is swapped out, although the process has that page:
  the kernel does not bring it back.\<close>

theorem copyin_swapped_out:
  assumes "j < unat len" "swapped (mem s) pt (srcva + of_nat j)"
  shows "\<exists>d. copyin pt dst srcva len s = Ok (-1, d)"
proof -
  have "ubyte (mem s) pt (srcva + of_nat j) = None"
    using assms(2) by (simp add: ubyte_def uaddr_def swapped_def pte_def Let_def)
  from copyin_loop_fails [OF assms(1) this] show ?thesis unfolding copyin_def .
qed

theorem copyin_swapped_out_witness: "\<exists>d. copyin spt (\<lambda>_. 0) 0 8 swapped_sample = Ok (-1, d)"
  using copyin_swapped_out [of 0 8 swapped_sample spt 0 "\<lambda>_. 0"] swapped_sample_swapped by simp

text \<open>C25: \<^verbatim>\<open>kill\<close> marks exactly the first process with the given pid, wakes it if it sleeps, and fails if there is none.\<close>

theorem kill_victim:
  assumes "no_proc_lock s"
  shows "kill pid s = (case find (\<lambda>p. p_pid (ptab s p) = pid) [0..<NPROC] of
     None \<Rightarrow> Ok (-1, s) | Some p \<Rightarrow> Ok (0, upd_proc p kill_mark s))"
  using kill_loop_spec [of "[0..<NPROC]" s pid] assms by (simp add: kill_def no_proc_lock_def del: upt_rec_numeral)

theorem kill_victim_witness:
  "kill 7 sample = (case find (\<lambda>p. p_pid (ptab sample p) = 7) [0..<NPROC] of
     None \<Rightarrow> Ok (-1, sample) | Some p \<Rightarrow> Ok (0, upd_proc p kill_mark sample))"
  by (rule kill_victim) (simp add: no_proc_lock_def sample_fields)

text \<open>C26: a page-aligned physical address stored in a PTE under any ten flag bits is read back by
  \<^verbatim>\<open>PTE2PA\<close>.\<close>

theorem pte_pa_roundtrip:
  "pg_aligned pa \<Longrightarrow> unat f < 1024 \<Longrightarrow> PTE2PA (PA2PTE pa OR f) = pa"
  by (rule PTE2PA_PA2PTE)

theorem pte_pa_roundtrip_witness: "PTE2PA (PA2PTE 0x80001000 OR 7) = 0x80001000"
  using pte_pa_roundtrip [of "0x80001000" 7] by (simp add: pg_aligned_def)

text \<open>C27: \<^verbatim>\<open>atoi\<close> reads back what the user \<^verbatim>\<open>printf\<close> prints for a number that is not negative.\<close>

theorem print_atoi_roundtrip:
  assumes "0 \<le> sint x"
  shows "\<exists>ds. u_printint x 10 True = Some ds \<and> atoi ds = sint x"
proof -
  have "unat x < 10 ^ 16" using unsigned_less [where 'a = nat, of x] by simp
  then have "length (pr_digits u_digits 10 (unat x)) \<le> 16" using pr_digits_len [of 10 u_digits "unat x" 15] by simp
  then have p: "u_printint x 10 True = Some (rev (pr_digits u_digits 10 (unat x)))"
    using assms by (simp add: u_printint_def Let_def pr_buf_def)
  have "atoi_loop 0 (rev (pr_digits u_digits 10 (unat x))) = x"
    using atoi_digits [of u_digits "unat x"] digit_char(2) [where 'a = u32] digit_char(2) [where 'a = nat] by simp
  then show ?thesis using p by (simp add: atoi_def)
qed

theorem print_atoi_roundtrip_witness: "\<exists>ds. u_printint 1234 10 True = Some ds \<and> atoi ds = 1234"
  using print_atoi_roundtrip [of 1234] by simp

text \<open>C28: The buffer of the kernel's \<^verbatim>\<open>printint\<close> holds a number in base ten only below ten to the sixteenth, and a negative
  one only above minus ten to the fifteenth.\<close>

theorem printint_fits:
  "printint x 10 sign \<noteq> None \<longleftrightarrow> (if sign \<and> sint x < 0 then unat (- x) < 10 ^ 15 else unat x < 10 ^ 16)"
  by (rule printint_room)

text \<open>C29: The kernel's \<^verbatim>\<open>%u\<close> sign-extends a negative \<^verbatim>\<open>int\<close>, and its twenty digits overrun the buffer of sixteen.\<close>

theorem kprintf_u_negative:
  assumes "sint (ucast x :: u32) < 0"
  shows "kprintf ''%u'' [Reg x] = None"
proof -
  let ?k = "sint (ucast x :: u32)"
  have r: "- (2 ^ 31) \<le> ?k" using sint_ge [of "ucast x :: u32"] by simp
  then have "\<not> unat (word_of_int ?k :: u64) < 10 ^ 16" using neg_word_of_int [OF _ assms] by simp
  then have "printint (word_of_int ?k) 10 False = None" using printint_room [of "word_of_int ?k" False] by auto
  then show ?thesis by (simp add: kprintf.simps [of "''%u''"] k_conv_def kpr_def arg_int_def emit_def)
qed

theorem kprintf_u_negative_witness: "kprintf ''%u'' [Reg 0xFFFFFFFF] = None"
  by (rule kprintf_u_negative) simp

text \<open>C30: A request of nearly four gigabytes succeeds with sixteen bytes: the argument of \<^verbatim>\<open>sbrk\<close> is truncated to an \<^verbatim>\<open>int\<close>. The
  pointer it returns is the new break, with no memory behind it.\<close>

theorem malloc_truncates:
  assumes "freep h = 0" "0 < B" "B < brk h" "sbrk 16 (brk h) = Some (brk h + 16)"
  shows "\<exists>h'. malloc B sbrk 0xFFFFFFFF h = Ok (brk h + 16, h') \<and> brk h' = brk h + 16"
proof -
  let ?n = "2 ^ 28 + 1 :: nat" and ?h = "set_size B 0 (set_ptr B B (h\<lparr>freep := B\<rparr>))"
  have n: "nunits 0xFFFFFFFF = ?n" by (simp add: nunits_def)
  let ?h1 = "set_size (brk h) ?n (?h\<lparr>brk := brk h + 16\<rparr>)"
  have f: "loopr (free_step ?h1 (brk h)) B = Ok B"
    using assms(2,3) by (subst loopr_unfold) (simp add: free_step_def)
  define h2 where "h2 = set_ptr B (brk h) (set_ptr (brk h) B ?h1)\<lparr>freep := B\<rparr>"
  have u: "u_free (brk h + 16) ?h1 = Ok h2" using f assms(2,3) by (simp add: u_free_def Let_def h2_def)
  have "sint (word_of_nat (?n * 16) :: u32) = 16" by simp
  then have m: "morecore sbrk ?n ?h = Ok (B, h2)" using u assms(4) by (simp add: morecore_def Let_def h2_def)
  have s1: "malloc_step sbrk ?n (B, B, ?h) = Ok (Inl (B, brk h, h2))" using m assms(2,3) by (simp add: malloc_step_def h2_def)
  have s2: "malloc_step sbrk ?n (B, brk h, h2) = Ok (Inr (take_units ?n B (brk h) h2))" using assms(3) by (simp add: malloc_step_def h2_def)
  have "malloc B sbrk 0xFFFFFFFF h = loopr (malloc_step sbrk ?n) (B, B, ?h)" using assms(1) n by (simp add: malloc_def Let_def)
  also have "\<dots> = Ok (take_units ?n B (brk h) h2)" 
    by (simp only: loopr_unfold [of _ "(B, B, ?h)"] loopr_unfold [of _ "(B, brk h, h2)"] s1 s2 bindr.simps sum.case)
  finally show ?thesis using assms(3) by (simp add: take_units_def Let_def h2_def)
qed

theorem malloc_truncates_witness: "\<exists>h'. malloc 0x1000 sbrk0 0xFFFFFFFF heap0 = Ok (0x5010, h') \<and> brk h' = 0x5010"
  using malloc_truncates [of heap0 "0x1000" sbrk0] by (simp add: heap0_def sbrk0_def)

text \<open>C31: If the first line of a file does not fit the buffer, \<^verbatim>\<open>grep\<close> prints nothing of the file, whatever the lines after it
  hold, and reports no error.\<close>

theorem grep_long_line:
  assumes "read_ok rd" "1023 \<le> length l" "NL \<notin> set l" "fopen name = Some (l @ rest)"
  shows "grep_main rd fopen stdin [''grep'', pat, name] = ([], 0)"
  using grep_full [OF assms(1), of "[]" "l @ rest" pat] assms(2-4) by (auto simp: grep_main_def dest: in_set_takeD)

theorem grep_long_line_witness:
  "grep_main min (\<lambda>_. Some (replicate 1023 CHR ''a'' @ [NL] @ ''b'' @ [NL])) [] [''grep'', ''b'', ''f''] = ([], 0)"
  by (rule grep_long_line) (auto simp: read_ok_def)

text \<open>C32: The reservation of \<^verbatim>\<open>begin_op\<close> is one block more than \<^verbatim>\<open>log_write\<close> grants. With an empty log \<^verbatim>\<open>begin_op\<close> admits three
  operations, so that thirty blocks are reserved. They log twenty-eight different blocks, in any order and as often as they like,
  and then one more; each is in the log once. From then on every \<^verbatim>\<open>log_write\<close> panics, although thirty blocks are reserved.\<close>

theorem log_reserve_overrun:
  assumes s: "held s = []" "\<not> log_committing (klog s)" "log_outstanding (klog s) = 0" "lh_n (log_lh (klog s)) = 0" "log_size (klog s) = 30"
    and bs: "card ((\<lambda>b. b_blockno (bufs s b)) ` set bs) = 28" "b_blockno (bufs s b) \<notin> (\<lambda>b. b_blockno (bufs s b)) ` set bs"
  shows "\<exists>t u. bindr (begin_op_with others s) (\<lambda>s. bindr (begin_op_with others s) (begin_op_with others)) = Ok t \<and>
    log_outstanding (klog t) * MAXOPBLOCKS = 30 \<and> bindr (log_write_all bs t) (log_write b) = Ok u \<and> distinct (logged u) \<and>
    set (logged u) = (\<lambda>b. b_blockno (bufs s b)) ` set (b # bs) \<and> (\<forall>c. log_write c u = Panic ''too big a transaction'')"
proof -
  define t where "t = upd_log (log_outstanding_update (\<lambda>_. 3)) s"
  have b: "bindr (begin_op_with others s) (\<lambda>s. bindr (begin_op_with others s) (begin_op_with others)) = Ok t"
    using s(1-4) by (simp add: begin_op_room upd_log_def t_def)
  have t: "logged t = []" "bufs t = bufs s" "log_outstanding (klog t) = 3" "held t = []" "lh_n (log_lh (klog t)) = 0" "log_size (klog t) = 30"
    using s by (simp_all add: t_def upd_log_def logged_def)
  obtain v where v: "log_write_all bs t = Ok v" "distinct (logged v)" "set (logged v) = (\<lambda>b. b_blockno (bufs s b)) ` set bs" "held v = []"
    "0 \<le> lh_n (log_lh (klog v))" "log_outstanding (klog v) = 3" "log_size (klog v) = 30" "\<forall>c. b_blockno (bufs v c) = b_blockno (bufs s c)"
    using log_write_all_spec [of t bs] t bs(1) by auto
  have "length (logged v) = 28" using v(2,3) bs(1) by (simp add: distinct_card [symmetric])
  then have "lh_n (log_lh (klog v)) = 28" using v(5) by (simp add: logged_def)
  then obtain u where u: "log_write b v = Ok u" "logged u = logged v @ [b_blockno (bufs s b)]" "held u = []"
    "0 \<le> lh_n (log_lh (klog u))" "log_size (klog u) = 30"
    using log_write_spec [OF v(4) _ _ _ _ refl, of b] v(3,6-8) bs(2) by auto
  have "length (logged u) = 29" using u(2) \<open>length (logged v) = 28\<close> by simp
  then have "lh_n (log_lh (klog u)) = 29" using u(4) by (simp add: logged_def)
  then have "log_write c u = Panic ''too big a transaction''" for c using u(3,5) by (simp add: log_write_def Let_def)
  moreover have "distinct (logged u)" "set (logged u) = (\<lambda>b. b_blockno (bufs s b)) ` set (b # bs)" using u(2) v(2,3) bs(2) by auto
  ultimately show ?thesis using b t(3) v(1) u(1) by (intro exI [of _ t] exI [of _ u]) simp
qed

theorem log_reserve_overrun_witness:
  "\<exists>t u. bindr (begin_op overrun) (\<lambda>s. bindr (begin_op s) begin_op) = Ok t \<and>
    bindr (log_write_all ([0..<28] @ [5]) t) (log_write 28) = Ok u \<and> log_write 29 u = Panic ''too big a transaction''"
proof -
  have "held overrun = []" "\<not> log_committing (klog overrun)" "log_outstanding (klog overrun) = 0" "lh_n (log_lh (klog overrun)) = 0"
    "log_size (klog overrun) = 30" by (simp_all add: overrun_def vm_st.defs sample_fields)
  from log_reserve_overrun [OF this overrun_blocks, of "\<lambda>_. Block"] obtain t u where
    "bindr (begin_op overrun) (\<lambda>s. bindr (begin_op s) begin_op) = Ok t" "bindr (log_write_all ([0..<28] @ [5]) t) (log_write 28) = Ok u"
    "log_write 29 u = Panic ''too big a transaction''"
    by (auto simp: begin_op_def [abs_def] simp del: upt_rec_numeral bindr_Ok_iff)
  then show ?thesis by blast
qed

text \<open>C33: \<^verbatim>\<open>exec\<close>'s \<^verbatim>\<open>loadseg\<close> panics if the page it is to fill was swapped out after \<^verbatim>\<open>uvmalloc\<close> mapped it.\<close>

theorem loadseg_swapped_out:
  assumes "0 < sz" "swapped (mem s) pt va"
  shows "loadseg pt va ip off sz s = Panic ''loadseg: address should exist''"
proof -
  have "walkaddr pt va s = Ok 0" using assms(2) by (simp add: walkaddr_uaddr uaddr_def swapped_def pte_def Let_def)
  then show ?thesis unfolding loadseg_def using assms(1) by (subst loopr_unfold) simp
qed

theorem loadseg_swapped_out_witness:
  "loadseg spt 0 0 0 4096 (sys_of swapped_sample) = Panic ''loadseg: address should exist''"
  by (rule loadseg_swapped_out) (simp_all add: swapped_sample_swapped)

text \<open>C34: The system call \<^verbatim>\<open>swapread\<close> breaks the isolation of processes. It takes the address it is given for a physical one and
  does not check it: with the address of the user page that is mapped at \<open>va\<close> in any address space \<open>pt\<close>, the caller's or another's, it
  succeeds (by the invariant the page is in the RAM the kernel maps, and is none of the kernel's own pages), and the process of that space finds there, with unchanged permissions, the content of the slot the caller named.\<close>

theorem sys_swapread_overwrites:
  assumes inv: "vm_inv own sown R xs fs s" and rdy: "swap_ready s"
    and pg: "pt \<in> R" "leaf (mem s) pt va \<noteq> 0" "bit (pte (mem s) pt va) 0" "own (PTE2PA (pte (mem s) pt va)) = Upage pt (px_list va)"
    and arg: "argaddr 0 s = Ok (PTE2PA (pte (mem s) pt va))" "argint 1 s = Ok k" "0 \<le> k" "k < 7000"
  shows "\<exists>t c. sys_swapread s = Ok (0, t) \<and> uview t pt va = Some (uflags (pte (mem s) pt va), c) \<and>
    (\<forall>i < PGSIZE. c i = slot_data s k i)"
proof -
  let ?e = "pte (mem s) pt va"
  obtain t where t: "swapread (PTE2PA ?e) k s = Ok t" "mem t = mem_write (mem s) (PTE2PA ?e) (slot_data s k) PGSIZE"
    using swapread_spec [OF arg(3,4) rdy] .
  have "changes own (mem s) (mem t) {Upage pt (px_list va)}"
    unfolding t(2) by (rule changes_write [OF PTE2PA_aligned]) (simp add: pg(4))
  note c = leaf_changes [OF vm_invD(12) [OF inv] this _ pg(1)] pte_changes [OF vm_invD(12) [OF inv] this _ pg(1,2)]
  have "uview t pt va = Some (uflags ?e, ucontent t ?e)" using c pg by (simp add: uview_def Let_def)
  moreover have "ucontent t ?e i = slot_data s k i" if "i < PGSIZE" for i
    using that pg(3) by (simp add: ucontent_def t(2) mem_read_def mem_write_def unat_of_nat_u64)
  ultimately show ?thesis using arg(1,2) t(1) by (simp add: sys_swapread_def)
qed

text \<open>Process 0, which has an address space of its own, replaces the page at address 0 of another process.\<close>

theorem sys_swapread_overwrites_witness:
  "\<exists>t c. cur intruder = Some 0 \<and> p_pagetable (ptab intruder 0) \<noteq> spt \<and> sys_swapread intruder = Ok (0, t) \<and>
    uview t spt 0 = Some (uflags (pte (mem intruder) spt 0), c) \<and> (\<forall>i < PGSIZE. c i = 5) \<and>
    uview intruder spt 0 \<noteq> uview t spt 0"
proof -
  have p: "PTE2PA (pte (mem intruder) spt 0) = 0x80103000" "bit (pte (mem intruder) spt 0) 0" using intruder_page sample_entries by simp_all
  have "px_list 0 = [0, 0, 0]" by (simp add: px_list_def PX_def)
  then obtain t c where t: "sys_swapread intruder = Ok (0, t)" "uview t spt 0 = Some (uflags (pte (mem intruder) spt 0), c)"
    "\<forall>i < PGSIZE. c i = 5"
    using sys_swapread_overwrites [OF intruder_inv [of "\<lambda>_. (0, [])"] intruder_ready, of spt 0 3] intruder_page(1) intruder_args intruder_slot p
    by (auto simp: sample_own_def)
  have "ucontent intruder (pte (mem intruder) spt 0) 0 = mem intruder 0x80103000" using p by (simp add: ucontent_def mem_read_def)
  also have "\<dots> = 0" by (simp add: intruder_def intruder_vm_def sample_mem_def st64_def entry_def)
  finally have "ucontent intruder (pte (mem intruder) spt 0) \<noteq> c" using t(3) [rule_format, of 0] by auto
  then have "uview intruder spt 0 \<noteq> uview t spt 0" unfolding t(2) by (simp add: uview_def Let_def)
  moreover have "cur intruder = Some 0" "p_pagetable (ptab intruder 0) \<noteq> spt" by (simp_all add: intruder_def intruder_vm_def sample_fields)
  ultimately show ?thesis using t by blast
qed

text \<open>C35: \<^verbatim>\<open>copyinstr\<close> copies a terminated string of mapped user memory that fits, including its terminator.\<close>

theorem copyinstr_copies:
  assumes "k < unat mx" "\<forall>j < k. \<exists>c. ubyte (mem s) pt (srcva + of_nat j) = Some c \<and> c \<noteq> 0"
    "ubyte (mem s) pt (srcva + of_nat k) = Some 0"
  shows "\<exists>d. copyinstr pt dst srcva mx s = Ok (0, d) \<and> (\<forall>j \<le> k. ubyte (mem s) pt (srcva + of_nat j) = Some (d j))"
  using copyinstr_loop_ok [of k mx s pt srcva dst 0] assms unfolding copyinstr_def by auto

theorem copyinstr_copies_witness:
  "\<exists>d. copyinstr spt (\<lambda>_. 7) 0 16 sample = Ok (0, d) \<and> (\<forall>j \<le> 0. ubyte (mem sample) spt (0 + of_nat j) = Some (d j))"
proof (rule copyinstr_copies)
  have "leaf sample_mem spt 0 \<noteq> 0" "px_list 0 = [0, 0, 0]" "PGROUNDDOWN 0 = 0"
    by (simp_all add: sample_leaf PX_def px_list_def entry_def PGROUNDDOWN_def)
  moreover have "bit (PA2PTE 0x80103000 OR 0x1F) 4" by (simp add: bit_or_iff macro_bits)
  moreover have "sample_mem 0x80103000 = 0" by (simp add: sample_mem_def st64_def entry_def)
  ultimately show "ubyte (mem sample) spt (0 + of_nat 0) = Some 0"
    using sample_pte [of 0] sample_entries by (simp add: ubyte_def uaddr_def pte_def sample_fields)
qed simp_all

text \<open>C36: \<^verbatim>\<open>bwrite\<close> panics if the caller does not hold the buffer. Otherwise what it writes survives the loss of the cache: after a
  reboot \<^verbatim>\<open>bread\<close> of the block gives the data the buffer had, and \<^verbatim>\<open>bread\<close> of every other block what the disk had before.\<close>

theorem bwrite_persists:
  assumes "ready s"
  shows "if \<exists>p. cur s = Some p \<and> sl_locked (slocks s (Buf_slock b)) \<and> sl_pid (slocks s (Buf_slock b)) = p_pid (ptab s p)
    then \<exists>t. bwrite b s = Ok t \<and> (\<forall>r m. cold (r :: 'a bio_st_scheme) \<longrightarrow> disk r = disk t \<longrightarrow> m \<noteq> 0 \<longrightarrow>
      (\<exists>c u. bread (devof m) m r = Ok (c, u) \<and>
         b_data (bufs u c) = (if m = b_blockno (bufs s b) then b_data (bufs s b) else disk s m)))
    else bwrite b s = Panic ''bwrite''"
proof -
  obtain p where p: "held s = []" "cur s = Some p" using assms by (auto simp: ready_def)
  note h = holdingsleep_spec [of "Buf_slock b" s p]
  show ?thesis
  proof (cases "sl_locked (slocks s (Buf_slock b)) \<and> sl_pid (slocks s (Buf_slock b)) = p_pid (ptab s p)")
    case True
    then obtain t where t: "bwrite b s = Ok t" "disk t = (disk s)(b_blockno (bufs s b) := b_data (bufs s b))"
      using p h by (auto simp: bwrite_def virtio_disk_rw_def upd_buf_def Let_def)
    have "\<exists>c u. bread (devof m) m r = Ok (c, u) \<and> b_data (bufs u c) = (if m = b_blockno (bufs s b) then b_data (bufs s b) else disk s m)"
      if "cold r" "disk r = disk t" "m \<noteq> 0" for r :: "'a bio_st_scheme" and m
      using cold_bread [OF that(1,3)] that(2) t(2) by auto
    then show ?thesis using True p t(1) by auto
  qed (use p h in \<open>auto simp: bwrite_def\<close>)
qed

theorem bwrite_persists_witness:
  "\<exists>b t u c v. bread 0 2000 sample = Ok (b, t) \<and> bwrite b (set_data b (\<lambda>_. 9) t) = Ok u \<and>
     bread 0 2000 (sample\<lparr>disk := disk u\<rparr>) = Ok (c, v) \<and> b_data (bufs v c) = (\<lambda>_. 9)"
proof -
  have s: "bio_inv sample" "ready sample" "available sample 0 2000"
    using sample_ready by (auto simp: swap_ready_def available_def sample_fields intro: exI [of _ 0])
  from bread_spec [OF this] obtain b t where t: "bread 0 2000 sample = Ok (b, t)" "owns t b 0 2000" "bio_frame sample t" by metis
  let ?t = "set_data b (\<lambda>_. 9) t"
  have f: "ready ?t" "\<exists>p. cur ?t = Some p \<and> sl_locked (slocks ?t (Buf_slock b)) \<and> sl_pid (slocks ?t (Buf_slock b)) = p_pid (ptab ?t p)"
    "b_blockno (bufs ?t b) = 2000" "b_data (bufs ?t b) = (\<lambda>_. 9)"
    using t(2,3) by (auto simp: bio_frame_def ready_def sample_fields owns_def set_data_def upd_buf_def)
  from bwrite_persists [OF f(1), of b] obtain u where u: "bwrite b ?t = Ok u"
    "\<forall>r m. cold (r :: vm_st) \<longrightarrow> disk r = disk u \<longrightarrow> m \<noteq> 0 \<longrightarrow> (\<exists>c v. bread (devof m) m r = Ok (c, v) \<and>
       b_data (bufs v c) = (if m = b_blockno (bufs ?t b) then b_data (bufs ?t b) else disk ?t m))"
    unfolding if_P [OF f(2)] by blast
  have "cold (sample\<lparr>disk := disk u\<rparr>)"
    using s(1,2) by (simp add: cold_def cache_ok_def bio_inv_def blist_def ready_def cached_def sample_fields)
  from u(2) [rule_format, OF this, of 2000] have "\<exists>c v. bread 0 2000 (sample\<lparr>disk := disk u\<rparr>) = Ok (c, v) \<and> b_data (bufs v c) = (\<lambda>_. 9)"
    using f(3,4) by (simp add: devof_def in_swap_def)
  then show ?thesis using t(1) u(1) by blast
qed

text \<open>C37: the list of resident pages: \<^verbatim>\<open>lru_add\<close> appends, \<^verbatim>\<open>lru_remove\<close> deletes, also a page that is not listed.\<close>

theorem lru_list_ops:
  assumes "lru_list s xs"
  shows "(pg \<notin> set xs \<longrightarrow> (\<exists>t. lru_add pg s = Ok t \<and> lru_list t (xs @ [pg]))) \<and>
    (\<exists>t. lru_remove pg s = Ok t \<and> lru_list t (remove1 pg xs))"
proof (cases "pg \<in> set xs")
  case True
  obtain t where "lru_remove pg s = Ok t" "lru_list t (remove1 pg xs)" using lru_remove_spec [OF assms True] .
  then show ?thesis using True by simp
next
  case False
  obtain t where "lru_add pg s = Ok t" "lru_list t (xs @ [pg])" using lru_add_spec [OF assms False] .
  then show ?thesis using lru_remove_absent [OF assms False] assms False by (simp add: remove1_idem)
qed

theorem lru_list_ops_witness:
  "(\<exists>t. lru_add 3 sample = Ok t \<and> lru_list t [259, 3]) \<and> (\<exists>t. lru_remove 259 sample = Ok t \<and> lru_list t [])"
  using lru_list_ops [of sample "[259]" 3] lru_list_ops [of sample "[259]" 259] vm_invD(9) [OF sample_vm [of "\<lambda>_. (0, [])"]]
  by simp

text \<open>C38: \<^verbatim>\<open>bget\<close> panics when the block is not cached and every buffer is in use.\<close>

theorem bget_full_cache:
  assumes "bio_inv s" "held s = []" "\<forall>b < NBUF. b_blockno (bufs s b) = n \<longrightarrow> b_dev (bufs s b) \<noteq> dev"
    "\<forall>b < NBUF. b_refcnt (bufs s b) \<noteq> 0"
  shows "bget dev n s = Panic ''bget: no buffers''"
  using bget_no_buffers [OF assms(1,2)] assms(3,4) by blast

theorem bget_full_cache_witness:
  "bget 1 40 (sample\<lparr>bufs := \<lambda>b. (bufs sample b)\<lparr>b_refcnt := 1\<rparr>\<rparr>) = Panic ''bget: no buffers''"
proof (rule bget_full_cache)
  let ?t = "sample\<lparr>bufs := \<lambda>b. (bufs sample b)\<lparr>b_refcnt := 1\<rparr>\<rparr>"
  obtain xs where "blist sample xs" using sample_ready by (auto simp: swap_ready_def bio_inv_def)
  then have "blist ?t xs" by (simp add: blist_def)
  then show "bio_inv ?t" by (rule bio_invI) (simp_all add: sample_fields)
qed (simp_all add: sample_fields)



text \<open>C40: \<^verbatim>\<open>wakeup\<close> makes exactly the processes runnable that sleep on the channel.\<close>

theorem wakeup_exact:
  assumes "no_proc_lock s"
  shows "wakeup ch s = Ok (s\<lparr>ptab := woken ch {..<NPROC} s\<rparr>)"
  using assms by (rule wakeup_spec)

theorem wakeup_exact_witness: "wakeup Chan_log sample = Ok (sample\<lparr>ptab := woken Chan_log {..<NPROC} sample\<rparr>)"
  by (rule wakeup_exact) (simp add: no_proc_lock_def sample_fields)

end
